(* ===== verification/Prelude.thy ===== *)
theory Prelude
  imports Main "HOL-Library.Word" "HOL-Library.Char_ord" "HOL-Library.List_Lexorder"
    "HOL-Library.Product_Lexorder"
begin

text \<open>
  Shared vocabulary of the development: the integer types of the Rust sources with the
  checked and saturating operations of the standard library, results as sums, byte strings,
  and the ordered map \<open>BTreeMap\<close> with the laws every component relies on.
\<close>

unbundle bit_operations_syntax

section \<open>Machine integers\<close>

text \<open>
  Both supported targets (x86-64 and AArch64) have 64-bit pointers, so \<open>usize\<close> is
  \<open>u64\<close>. The collection \<open>rust_arith\<close> holds the facts that read a checked or
  saturating operation as arithmetic on \<^typ>\<open>nat\<close>.
\<close>

type_synonym u8 = "8 word"
type_synonym u16 = "16 word"
type_synonym u32 = "32 word"
type_synonym u64 = "64 word"
type_synonym u128 = "128 word"
type_synonym usize = "64 word"

named_theorems rust_arith

definition checked_add :: "'a::len word \<Rightarrow> 'a word \<Rightarrow> 'a word option" where
  "checked_add a b = (if unat a + unat b < 2 ^ LENGTH('a) then Some (a + b) else None)"

definition checked_sub :: "'a::len word \<Rightarrow> 'a word \<Rightarrow> 'a word option" where
  "checked_sub a b = (if b \<le> a then Some (a - b) else None)"

definition saturating_add :: "'a::len word \<Rightarrow> 'a word \<Rightarrow> 'a word" where
  "saturating_add a b = (if unat a + unat b < 2 ^ LENGTH('a) then a + b else - 1)"

definition saturating_mul :: "'a::len word \<Rightarrow> 'a word \<Rightarrow> 'a word" where
  "saturating_mul a b = (if unat a * unat b < 2 ^ LENGTH('a) then a * b else - 1)"

lemma unat_max_word: "unat (- 1 :: 'a::len word) = 2 ^ LENGTH('a) - 1"
  by (simp add: unsigned_minus_1_eq_mask mask_eq_exp_minus_1)

lemma unat_u64_less: "unat (w :: u64) < 18446744073709551616"
proof -
  have "unat w < 2 ^ LENGTH(64)" by (rule unsigned_less)
  then show ?thesis by simp
qed

lemma checked_add_SomeD [rust_arith]: "checked_add a b = Some c \<Longrightarrow> unat c = unat a + unat b"
  by (auto simp: checked_add_def unat_word_ariths split: if_splits)

text \<open>The overflow tests as the machine makes them, without leaving the word type.\<close>

lemma add_fits_iff:
  fixes a b :: "'a::len word"
  shows "unat a + unat b < 2 ^ LENGTH('a) \<longleftrightarrow> a \<le> a + b"
proof (cases "unat a + unat b < 2 ^ LENGTH('a)")
  case True
  then show ?thesis by (simp add: word_le_nat_alt unat_word_ariths)
next
  case False
  have "unat a < 2 ^ LENGTH('a)" "unat b < 2 ^ LENGTH('a)" by (rule unsigned_less)+
  with False have "(unat a + unat b) mod 2 ^ LENGTH('a) = unat a + unat b - 2 ^ LENGTH('a)"
    "unat a + unat b - 2 ^ LENGTH('a) < unat a"
    by (auto simp only: le_mod_geq not_less mod_less less_diff_conv2 add_less_mono)
  with False show ?thesis by (auto simp: word_le_nat_alt unat_word_ariths simp del: unsigned_less)
qed

lemma checked_add_code [code]: "checked_add a b = (if a \<le> a + b then Some (a + b) else None)"
  by (simp only: checked_add_def add_fits_iff)

lemma saturating_add_code [code]: "saturating_add a b = (if a \<le> a + b then a + b else - 1)"
  by (simp only: saturating_add_def add_fits_iff)

lemma checked_add_None_iff:
  fixes a b :: "'a::len word"
  shows "checked_add a b = None \<longleftrightarrow> 2 ^ LENGTH('a) \<le> unat a + unat b"
  by (auto simp: checked_add_def)

lemma checked_sub_SomeD [rust_arith]:
  "checked_sub a b = Some c \<Longrightarrow> unat a = unat c + unat b"
  by (auto simp: checked_sub_def unat_sub word_le_nat_alt split: if_splits)

lemma checked_sub_None_iff: "checked_sub a b = None \<longleftrightarrow> unat a < unat b"
  by (auto simp: checked_sub_def word_le_nat_alt)

lemma checked_add_sub [simp]: "checked_add a b = Some c \<Longrightarrow> checked_sub c b = Some a"
  using checked_add_SomeD [of a b c]
  by (auto simp: checked_sub_def checked_add_def word_le_nat_alt split: if_splits)

lemma unat_saturating_add [rust_arith]:
  fixes a b :: "'a::len word"
  shows "unat (saturating_add a b) = min (unat a + unat b) (2 ^ LENGTH('a) - 1)"
  by (auto simp: saturating_add_def unat_word_ariths unat_max_word min_def)

lemma unat_saturating_mul [rust_arith]:
  fixes a b :: "'a::len word"
  shows "unat (saturating_mul a b) = min (unat a * unat b) (2 ^ LENGTH('a) - 1)"
proof (cases "unat a * unat b < 2 ^ LENGTH('a)")
  case True
  then show ?thesis by (simp add: saturating_mul_def unat_word_ariths)
next
  case False
  then show ?thesis by (simp add: saturating_mul_def unat_max_word)
qed

section \<open>Little-endian byte order\<close>

text \<open>
  \<open>to_le_bytes n w\<close> is \<open>w.to_le_bytes()\<close> of an \<open>n\<close>-byte integer and
  \<open>from_le_bytes\<close> its inverse; both are read bit by bit in the proofs.
\<close>

definition to_le_bytes :: "nat \<Rightarrow> 'a::len word \<Rightarrow> u8 list" where
  "to_le_bytes n w = map (\<lambda>i. ucast (drop_bit (8 * i) w)) [0..<n]"

fun from_le_bytes :: "u8 list \<Rightarrow> 'a::len word" where
  "from_le_bytes [] = 0"
| "from_le_bytes (b # bs) = ucast b OR push_bit 8 (from_le_bytes bs)"

lemma length_to_le_bytes [simp]: "length (to_le_bytes n w) = n"
  by (simp add: to_le_bytes_def)

lemma bit_from_le_bytes:
  "bit (from_le_bytes bs :: 'a::len word) i \<longleftrightarrow>
     i < LENGTH('a) \<and> i div 8 < length bs \<and> bit (bs ! (i div 8)) (i mod 8)"
proof (induction bs arbitrary: i)
  case Nil
  then show ?case by simp
next
  case (Cons b bs)
  show ?case
  proof (cases "i < 8")
    case True
    then show ?thesis by (auto simp: bit_simps)
  next
    case False
    then have "i div 8 = Suc ((i - 8) div 8)" "i mod 8 = (i - 8) mod 8"
      by (simp_all add: le_div_geq le_mod_geq)
    with False Cons.IH [of "i - 8"] show ?thesis
      by (auto simp: bit_simps dest: bit_imp_le_length)
  qed
qed

lemma from_to_le_bytes:
  fixes w :: "'a::len word"
  assumes "LENGTH('a) = 8 * n"
  shows "from_le_bytes (to_le_bytes n w) = w"
proof (rule bit_word_eqI)
  fix i assume "i < LENGTH('a)"
  with assms have "i div 8 < n" by auto
  with \<open>i < LENGTH('a)\<close> show "bit (from_le_bytes (to_le_bytes n w) :: 'a word) i \<longleftrightarrow> bit w i"
    by (auto simp: bit_from_le_bytes to_le_bytes_def bit_simps)
qed

lemma to_from_le_bytes:
  assumes "LENGTH('a) = 8 * length bs"
  shows "to_le_bytes (length bs) (from_le_bytes bs :: 'a::len word) = bs"
proof (rule nth_equalityI)
  fix i assume i: "i < length (to_le_bytes (length bs) (from_le_bytes bs :: 'a word))"
  then have "8 * i + j < LENGTH('a)" if "j < 8" for j using that assms by simp
  with i show "to_le_bytes (length bs) (from_le_bytes bs :: 'a word) ! i = bs ! i"
    by (auto simp: to_le_bytes_def bit_from_le_bytes bit_simps intro!: bit_word_eqI)
qed simp

text \<open>\<open>bytes.get(off..off + n)\<close>, and \<open>bytes[off..off + n].copy_from_slice(src)\<close>.\<close>

definition slice :: "nat \<Rightarrow> nat \<Rightarrow> u8 list \<Rightarrow> u8 list option" where
  "slice off n bytes = (if off + n \<le> length bytes then Some (take n (drop off bytes)) else None)"

definition copy_at :: "nat \<Rightarrow> u8 list \<Rightarrow> u8 list \<Rightarrow> u8 list" where
  "copy_at off src bytes = take off bytes @ src @ drop (off + length src) bytes"

lemma length_copy_at [simp]:
  "off + length src \<le> length bytes \<Longrightarrow> length (copy_at off src bytes) = length bytes"
  by (simp add: copy_at_def)

section \<open>Results\<close>

text \<open>
  \<open>Result<T, E>\<close> is \<open>'e + 't\<close>, \<^const>\<open>Inl\<close> for \<open>Err\<close>. \<open>rbind\<close> is the \<open>?\<close>
  operator and \<open>ok_or\<close> is \<open>Option::ok_or\<close>.
\<close>

definition rbind :: "'e + 'a \<Rightarrow> ('a \<Rightarrow> 'e + 'b) \<Rightarrow> 'e + 'b" where
  "rbind r f = (case r of Inl e \<Rightarrow> Inl e | Inr x \<Rightarrow> f x)"

definition ok_or :: "'a option \<Rightarrow> 'e \<Rightarrow> 'e + 'a" where
  "ok_or x e = (case x of None \<Rightarrow> Inl e | Some v \<Rightarrow> Inr v)"

text \<open>
  A method that computes with \<open>?\<close> and mutates only once nothing can fail any more: on an
  error the state is untouched.
\<close>

definition commit :: "'s \<Rightarrow> 'e + ('a \<times> 's) \<Rightarrow> ('e + 'a) \<times> 's" where
  "commit s r = (case r of Inl e \<Rightarrow> (Inl e, s) | Inr (v, s') \<Rightarrow> (Inr v, s'))"

lemma commit_simps [simp]: "commit s (Inl e) = (Inl e, s)" "commit s (Inr (v, s')) = (Inr v, s')"
  by (simp_all add: commit_def)

lemma commit_Inr_iff: "commit s r = (Inr v, s') \<longleftrightarrow> r = Inr (v, s')"
  by (auto simp: commit_def split: sum.splits prod.splits)

lemma commit_Inl_iff: "commit s r = (Inl e, s') \<longleftrightarrow> r = Inl e \<and> s' = s"
  by (auto simp: commit_def split: sum.splits prod.splits)

lemma rbind_simps [simp]: "rbind (Inl e) f = Inl e" "rbind (Inr x) f = f x"
  by (simp_all add: rbind_def)

lemma rbind_Inr_iff: "rbind r f = Inr y \<longleftrightarrow> (\<exists>x. r = Inr x \<and> f x = Inr y)"
  by (cases r) auto

lemma ok_or_simps [simp]: "ok_or None e = Inl e" "ok_or (Some v) e = Inr v"
  by (simp_all add: ok_or_def)

lemma ok_or_Inr_iff [simp]: "ok_or x e = Inr v \<longleftrightarrow> x = Some v"
  by (cases x) auto

lemma ok_or_Inl_iff [simp]: "ok_or x e = Inl d \<longleftrightarrow> x = None \<and> d = e"
  by (cases x) auto

section \<open>Ordered maps\<close>

text \<open>
  \<open>BTreeMap<K, V>\<close> as a type of its own: the entries in strictly increasing key order,
  which is the order every iterator of the map yields. Equal maps have equal entries, so
  equality of two maps is equality of their lookups (\<open>bmap_eqI\<close>).
\<close>

fun ins_entry :: "'k::linorder \<Rightarrow> 'v \<Rightarrow> ('k \<times> 'v) list \<Rightarrow> ('k \<times> 'v) list" where
  "ins_entry k v [] = [(k, v)]"
| "ins_entry k v ((a, b) # es) =
     (if k < a then (k, v) # (a, b) # es
      else if k = a then (k, v) # es
      else (a, b) # ins_entry k v es)"

abbreviation ordered_entries :: "('k::linorder \<times> 'v) list \<Rightarrow> bool" where
  "ordered_entries es \<equiv> sorted_wrt (<) (map fst es)"

lemma fst_ins_entry: "fst ` set (ins_entry k v es) = insert k (fst ` set es)"
  by (induction k v es rule: ins_entry.induct) auto

lemma ordered_ins_entry: "ordered_entries es \<Longrightarrow> ordered_entries (ins_entry k v es)"
proof (induction k v es rule: ins_entry.induct)
  case (2 k v a b es)
  then have "\<forall>x \<in> fst ` set es. a < x" by auto
  with 2 show ?case
    using fst_ins_entry [of k v es] by auto
qed simp

lemma map_of_ins_entry: "map_of (ins_entry k v es) = (map_of es)(k \<mapsto> v)"
  by (induction k v es rule: ins_entry.induct) (auto simp: fun_eq_iff)

lemma ordered_distinct: "ordered_entries es \<Longrightarrow> distinct (map fst es)"
  by (simp add: strict_sorted_iff)

lemma ordered_filter: "ordered_entries es \<Longrightarrow> ordered_entries (filter P es)"
  by (induction es) auto

lemma ordered_entries_unique:
  assumes "ordered_entries es" "ordered_entries fs" "map_of es = map_of fs"
  shows "es = fs"
proof (rule map_sorted_distinct_set_unique [where f = fst])
  have sets: "set es = set fs"
    using assms ordered_distinct [of es] ordered_distinct [of fs]
    by (metis map_of_eqI map_of_eq_Some_iff subrelI subset_antisym)
  show "set es = set fs" by (rule sets)
  show "inj_on fst (set es \<union> set fs)"
    using ordered_distinct [OF assms(2)] by (simp add: sets distinct_map)
  show "sorted (map fst es)" "sorted (map fst fs)" "distinct (map fst es)" "distinct (map fst fs)"
    using assms(1,2) by (auto simp: strict_sorted_iff)
qed

typedef (overloaded) ('k::linorder, 'v) bmap = "{es :: ('k \<times> 'v) list. ordered_entries es}"
  morphisms bm_entries Bmap
  by (rule exI [of _ "[]"]) simp

setup_lifting type_definition_bmap

lift_definition bm_empty :: "('k::linorder, 'v) bmap" is "[]"
  by simp

lift_definition bm_insert :: "'k::linorder \<Rightarrow> 'v \<Rightarrow> ('k, 'v) bmap \<Rightarrow> ('k, 'v) bmap" is ins_entry
  by (rule ordered_ins_entry)

lift_definition bm_retain :: "('k::linorder \<Rightarrow> 'v \<Rightarrow> bool) \<Rightarrow> ('k, 'v) bmap \<Rightarrow> ('k, 'v) bmap"
  is "\<lambda>P. filter (\<lambda>(k, v). P k v)"
  by (rule ordered_filter)

definition bm_get :: "('k::linorder, 'v) bmap \<Rightarrow> 'k \<Rightarrow> 'v option" where
  "bm_get m = map_of (bm_entries m)"

definition bm_remove :: "'k::linorder \<Rightarrow> ('k, 'v) bmap \<Rightarrow> ('k, 'v) bmap" where
  "bm_remove k = bm_retain (\<lambda>a _. a \<noteq> k)"

definition bm_contains :: "('k::linorder, 'v) bmap \<Rightarrow> 'k \<Rightarrow> bool" where
  "bm_contains m k \<longleftrightarrow> bm_get m k \<noteq> None"

definition bm_keys :: "('k::linorder, 'v) bmap \<Rightarrow> 'k list" where
  "bm_keys m = map fst (bm_entries m)"

definition bm_values :: "('k::linorder, 'v) bmap \<Rightarrow> 'v list" where
  "bm_values m = map snd (bm_entries m)"

definition bm_len :: "('k::linorder, 'v) bmap \<Rightarrow> nat" where
  "bm_len m = length (bm_entries m)"

definition bm_is_empty :: "('k::linorder, 'v) bmap \<Rightarrow> bool" where
  "bm_is_empty m \<longleftrightarrow> bm_entries m = []"

definition bm_of_list :: "('k::linorder \<times> 'v) list \<Rightarrow> ('k, 'v) bmap" where
  "bm_of_list es = fold (\<lambda>(k, v). bm_insert k v) es bm_empty"

instantiation bmap :: (linorder, equal) equal
begin

definition equal_bmap :: "('a, 'b) bmap \<Rightarrow> ('a, 'b) bmap \<Rightarrow> bool" where
  "equal_bmap m n \<longleftrightarrow> bm_entries m = bm_entries n"

instance
  by standard (simp add: equal_bmap_def bm_entries_inject)

end

lemmas bm_rep_simps [simp] = bm_empty.rep_eq bm_insert.rep_eq bm_retain.rep_eq

lemma ordered_bm_entries [simp]: "ordered_entries (bm_entries m)"
  using bm_entries [of m] by simp

lemma distinct_bm_keys [simp]: "distinct (bm_keys m)"
  by (simp add: bm_keys_def ordered_distinct)

lemma sorted_bm_keys [simp]: "sorted (bm_keys m)"
  using ordered_bm_entries [of m] by (simp add: bm_keys_def strict_sorted_iff)

lemma bmap_eqI: "bm_get m = bm_get n \<Longrightarrow> m = n"
  by (metis bm_entries_inject bm_get_def ordered_bm_entries ordered_entries_unique)

lemma bm_get_empty [simp]: "bm_get bm_empty = Map.empty"
  by (simp add: bm_get_def)

lemma bm_get_insert [simp]: "bm_get (bm_insert k v m) = (bm_get m)(k \<mapsto> v)"
  by (simp add: bm_get_def map_of_ins_entry)

lemma map_of_filter_entries:
  "distinct (map fst es) \<Longrightarrow>
   map_of (filter (\<lambda>(k, v). P k v) es) a =
     (case map_of es a of None \<Rightarrow> None | Some v \<Rightarrow> if P a v then Some v else None)"
  by (induction es) (auto split: option.splits if_splits dest: map_of_SomeD simp: rev_image_eqI)

lemma bm_get_retain [simp]:
  "bm_get (bm_retain P m) k =
     (case bm_get m k of None \<Rightarrow> None | Some v \<Rightarrow> if P k v then Some v else None)"
  by (simp add: bm_get_def map_of_filter_entries ordered_distinct)

lemma bm_get_remove [simp]: "bm_get (bm_remove k m) = (bm_get m)(k := None)"
  by (auto simp: bm_remove_def fun_eq_iff split: option.splits)

lemma set_bm_entries: "(k, v) \<in> set (bm_entries m) \<longleftrightarrow> bm_get m k = Some v"
  by (simp add: bm_get_def map_of_eq_Some_iff ordered_distinct)

lemma set_bm_keys: "set (bm_keys m) = dom (bm_get m)"
  by (simp add: bm_keys_def bm_get_def dom_map_of_conv_image_fst)

lemma bm_values_iff: "v \<in> set (bm_values m) \<longleftrightarrow> (\<exists>k. bm_get m k = Some v)"
  by (force simp: bm_values_def set_bm_entries [symmetric])

lemma bm_contains_iff: "bm_contains m k \<longleftrightarrow> k \<in> dom (bm_get m)"
  by (auto simp: bm_contains_def)

lemma bm_len_eq_card: "bm_len m = card (dom (bm_get m))"
proof -
  have "bm_len m = length (bm_keys m)" by (simp add: bm_len_def bm_keys_def)
  also have "\<dots> = card (set (bm_keys m))" by (rule distinct_card [symmetric]) simp
  finally show ?thesis by (simp add: set_bm_keys)
qed

lemma finite_dom_bm_get [simp]: "finite (dom (bm_get m))"
  by (simp add: bm_get_def finite_dom_map_of)

lemma bm_is_empty_iff: "bm_is_empty m \<longleftrightarrow> m = bm_empty"
  by (metis bm_empty.rep_eq bm_entries_inject bm_is_empty_def)

lemma bm_len_empty [simp]: "bm_len bm_empty = 0"
  by (simp add: bm_len_def)

lemma bm_len_insert:
  "bm_len (bm_insert k v m) = (if bm_contains m k then bm_len m else Suc (bm_len m))"
  by (simp add: bm_len_eq_card bm_contains_iff card_insert_if)

lemma bm_len_remove:
  "bm_len (bm_remove k m) = (if bm_contains m k then bm_len m - 1 else bm_len m)"
  by (simp add: bm_len_eq_card bm_contains_iff)

lemma dom_bm_get_retain [simp]:
  "dom (bm_get (bm_retain (\<lambda>k _. Q k) m)) = {k \<in> dom (bm_get m). Q k}"
  by (auto simp: dom_def split: option.splits)

lemma bm_len_retain: "bm_len (bm_retain P m) \<le> bm_len m"
  by (simp add: bm_len_def)

lemma length_filter_bm_values:
  "length (filter P (bm_values m)) = card {k. \<exists>v. bm_get m k = Some v \<and> P v}"
proof -
  let ?es = "filter (\<lambda>e. P (snd e)) (bm_entries m)"
  have d: "distinct (map fst ?es)"
    using distinct_bm_keys [of m] by (simp add: bm_keys_def distinct_map_filter)
  have "length (filter P (bm_values m)) = length (map fst ?es)"
    by (simp add: bm_values_def filter_map comp_def)
  also have "\<dots> = card (set (map fst ?es))" using distinct_card [OF d] by simp
  also have "set (map fst ?es) = {k. \<exists>v. bm_get m k = Some v \<and> P v}"
    by (force simp: set_bm_entries [symmetric])
  finally show ?thesis .
qed

lemma bm_get_of_list: "bm_get (bm_of_list es) = map_of (rev es)"
proof -
  have "bm_get (fold (\<lambda>(k, v). bm_insert k v) es m) = bm_get m ++ map_of (rev es)" for m
    by (induction es arbitrary: m) (auto simp: map_add_def fun_eq_iff split: option.splits)
  then show ?thesis by (simp add: bm_of_list_def)
qed

end
