(* ===== verification/Budgets.thy ===== *)
theory Budgets
  imports Prelude "HOL-Library.Multiset"
begin

text \<open>
  \<^verbatim>\<open>crates/charlotte-lifecycle/src/resources.rs\<close>: the checked admission counters shared by
  the kernel's resource families. Each counter is a record, each method a function that
  returns its result and the counter left behind, on the error branches too. The contract
  the callers rely on is the locale \<open>charged_budget\<close>; it is interpreted on all four
  counters of the source.
\<close>

datatype resource_error = Limit | Underflow

type_synonym charge_result = "resource_error + unit"

section \<open>Queue backing and physical reserve\<close>

text \<open>
  \<open>checked_next_power_of_two\<close> on \<open>usize\<close>: the least power of two not below the
  argument, if it is representable. The loop doubles from one.
\<close>

function next_pow2_from :: "nat \<Rightarrow> nat \<Rightarrow> nat" where
  "next_pow2_from p n = (if 0 < p \<and> p < n then next_pow2_from (2 * p) n else p)"
  by pat_completeness auto
termination
  by (relation "measure (\<lambda>(p, n). n - p)") auto

declare next_pow2_from.simps [simp del]

definition checked_next_power_of_two :: "usize \<Rightarrow> usize option" where
  "checked_next_power_of_two n =
     (let p = next_pow2_from 1 (unat n) in if p < 2 ^ 64 then Some (of_nat p) else None)"

definition queue_backing_slots :: "usize \<Rightarrow> usize option" where
  "queue_backing_slots capacity =
     (if capacity = 0 then Some 0
      else case checked_next_power_of_two capacity of
        Some slots \<Rightarrow> Some (if slots < 4 then 4 else slots)
      | None \<Rightarrow> None)"

definition frames_available :: "u64 \<Rightarrow> u64 \<Rightarrow> u64 \<Rightarrow> bool" where
  "frames_available free usable request =
     (let reserve = (if usable div 8 = 0 then 1 else usable div 8)
      in case checked_sub free request of
           Some remaining \<Rightarrow> reserve \<le> remaining
         | None \<Rightarrow> False)"

section \<open>Counters\<close>

subsection \<open>Vector budgets\<close>

record vector_budget =
  vb_limit :: "u64 list"
  vb_used :: "u64 list"

definition vb_new :: "u64 list \<Rightarrow> vector_budget" where
  "vb_new limit = \<lparr>vb_limit = limit, vb_used = replicate (length limit) 0\<rparr>"

fun vb_add :: "u64 list \<Rightarrow> u64 list \<Rightarrow> u64 list \<Rightarrow> resource_error + u64 list" where
  "vb_add (u # us) (a # as) (l # ls) =
     rbind (ok_or (checked_add u a) Limit) (\<lambda>n.
       if l < n then Inl Limit
       else rbind (vb_add us as ls) (\<lambda>ns. Inr (n # ns)))"
| "vb_add us as ls = Inr us"

fun vb_sub :: "u64 list \<Rightarrow> u64 list \<Rightarrow> resource_error + u64 list" where
  "vb_sub (u # us) (a # as) =
     rbind (ok_or (checked_sub u a) Underflow) (\<lambda>n.
       rbind (vb_sub us as) (\<lambda>ns. Inr (n # ns)))"
| "vb_sub us as = Inr us"

definition vb_reserve :: "vector_budget \<Rightarrow> u64 list \<Rightarrow> charge_result \<times> vector_budget" where
  "vb_reserve b amount =
     (case vb_add (vb_used b) amount (vb_limit b) of
        Inl e \<Rightarrow> (Inl e, b)
      | Inr used \<Rightarrow> (Inr (), b\<lparr>vb_used := used\<rparr>))"

definition vb_release :: "vector_budget \<Rightarrow> u64 list \<Rightarrow> charge_result \<times> vector_budget" where
  "vb_release b amount =
     (case vb_sub (vb_used b) amount of
        Inl e \<Rightarrow> (Inl e, b)
      | Inr used \<Rightarrow> (Inr (), b\<lparr>vb_used := used\<rparr>))"

subsection \<open>Admission pools\<close>

record admission_pool =
  pool_total :: vector_budget
  pool_ordinary :: vector_budget

definition pool_new :: "u64 list \<Rightarrow> u64 list \<Rightarrow> admission_pool" where
  "pool_new total_limit ordinary = \<lparr>pool_total = vb_new total_limit, pool_ordinary = vb_new ordinary\<rparr>"

text \<open>
  Both methods work on a copy of the pool and assign it back only after every \<open>?\<close> has
  passed, so the error branches return the original pool.
\<close>

definition pool_reserve ::
  "admission_pool \<Rightarrow> bool \<times> u64 list \<Rightarrow> charge_result \<times> admission_pool" where
  "pool_reserve p = (\<lambda>(platform, amount).
     case vb_reserve (pool_total p) amount of
       (Inl e, _) \<Rightarrow> (Inl e, p)
     | (Inr _, total') \<Rightarrow>
         if platform then (Inr (), p\<lparr>pool_total := total'\<rparr>)
         else case vb_reserve (pool_ordinary p) amount of
             (Inl e, _) \<Rightarrow> (Inl e, p)
           | (Inr _, ordinary) \<Rightarrow>
               (Inr (), p\<lparr>pool_total := total', pool_ordinary := ordinary\<rparr>))"

definition pool_release ::
  "admission_pool \<Rightarrow> bool \<times> u64 list \<Rightarrow> charge_result \<times> admission_pool" where
  "pool_release p = (\<lambda>(platform, amount).
     case vb_release (pool_total p) amount of
       (Inl e, _) \<Rightarrow> (Inl e, p)
     | (Inr _, total') \<Rightarrow>
         if platform then (Inr (), p\<lparr>pool_total := total'\<rparr>)
         else case vb_release (pool_ordinary p) amount of
             (Inl e, _) \<Rightarrow> (Inl e, p)
           | (Inr _, ordinary) \<Rightarrow>
               (Inr (), p\<lparr>pool_total := total', pool_ordinary := ordinary\<rparr>))"

subsection \<open>Count budgets\<close>

record count_budget =
  cb_limit :: usize
  cb_used :: usize

definition cb_new :: "usize \<Rightarrow> count_budget" where
  "cb_new limit = \<lparr>cb_limit = limit, cb_used = 0\<rparr>"

definition cb_reserve :: "count_budget \<Rightarrow> unit \<Rightarrow> charge_result \<times> count_budget" where
  "cb_reserve b _ =
     (case checked_add (cb_used b) 1 of
        None \<Rightarrow> (Inl Limit, b)
      | Some next_used \<Rightarrow>
          if cb_limit b < next_used then (Inl Limit, b)
          else (Inr (), b\<lparr>cb_used := next_used\<rparr>))"

definition cb_release :: "count_budget \<Rightarrow> unit \<Rightarrow> charge_result \<times> count_budget" where
  "cb_release b _ =
     (case checked_sub (cb_used b) 1 of
        None \<Rightarrow> (Inl Underflow, b)
      | Some used \<Rightarrow> (Inr (), b\<lparr>cb_used := used\<rparr>))"

subsection \<open>Page and object budgets\<close>

record amount =
  pages :: u64
  objects :: u64

record budget =
  bu_limit :: amount
  bu_used :: amount

definition bu_new :: "amount \<Rightarrow> budget" where
  "bu_new limit = \<lparr>bu_limit = limit, bu_used = \<lparr>pages = 0, objects = 0\<rparr>\<rparr>"

definition bu_reserve :: "budget \<Rightarrow> amount \<Rightarrow> charge_result \<times> budget" where
  "bu_reserve b a =
     (case checked_add (pages (bu_used b)) (pages a) of
        None \<Rightarrow> (Inl Limit, b)
      | Some ps \<Rightarrow>
          (case checked_add (objects (bu_used b)) (objects a) of
             None \<Rightarrow> (Inl Limit, b)
           | Some os \<Rightarrow>
               if pages (bu_limit b) < ps \<or> objects (bu_limit b) < os then (Inl Limit, b)
               else (Inr (), b\<lparr>bu_used := \<lparr>pages = ps, objects = os\<rparr>\<rparr>)))"

definition bu_release :: "budget \<Rightarrow> amount \<Rightarrow> charge_result \<times> budget" where
  "bu_release b a =
     (case checked_sub (pages (bu_used b)) (pages a) of
        None \<Rightarrow> (Inl Underflow, b)
      | Some ps \<Rightarrow>
          (case checked_sub (objects (bu_used b)) (objects a) of
             None \<Rightarrow> (Inl Underflow, b)
           | Some os \<Rightarrow> (Inr (), b\<lparr>bu_used := \<lparr>pages = ps, objects = os\<rparr>\<rparr>)))"

definition bu_set_limit :: "budget \<Rightarrow> amount \<Rightarrow> charge_result \<times> budget" where
  "bu_set_limit b limit =
     (if pages limit < pages (bu_used b) \<or> objects limit < objects (bu_used b)
      then (Inl Limit, b)
      else (Inr (), b\<lparr>bu_limit := limit\<rparr>))"

section \<open>The contract of a counter\<close>

text \<open>
  What a caller relies on. \<open>used\<close>, \<open>limit\<close> and \<open>cost\<close> read a counter and a
  charge in each dimension as a natural number: a failed operation changes nothing, a
  reservation succeeds exactly when it fits below the limit in every dimension and adds
  its cost, a release succeeds exactly when it is covered and subtracts its cost.
\<close>

locale charged_budget =
  fixes reserve :: "'s \<Rightarrow> 'a \<Rightarrow> charge_result \<times> 's"
    and release :: "'s \<Rightarrow> 'a \<Rightarrow> charge_result \<times> 's"
    and wf :: "'s \<Rightarrow> bool"
    and valid :: "'a \<Rightarrow> bool"
    and used :: "'s \<Rightarrow> 'd \<Rightarrow> nat"
    and limit :: "'s \<Rightarrow> 'd \<Rightarrow> nat"
    and cost :: "'a \<Rightarrow> 'd \<Rightarrow> nat"
  assumes reserve_err: "reserve s a = (Inl e, s') \<Longrightarrow> s' = s"
    and release_err: "release s a = (Inl e, s') \<Longrightarrow> s' = s"
    and reserve_iff: "wf s \<Longrightarrow> valid a \<Longrightarrow>
      (\<exists>s'. reserve s a = (Inr (), s')) \<longleftrightarrow> (\<forall>d. used s d + cost a d \<le> limit s d)"
    and reserve_ok: "wf s \<Longrightarrow> valid a \<Longrightarrow> reserve s a = (Inr (), s') \<Longrightarrow>
      wf s' \<and> limit s' = limit s \<and> (\<forall>d. used s' d = used s d + cost a d)"
    and release_iff: "wf s \<Longrightarrow> valid a \<Longrightarrow>
      (\<exists>s'. release s a = (Inr (), s')) \<longleftrightarrow> (\<forall>d. cost a d \<le> used s d)"
    and release_ok: "wf s \<Longrightarrow> valid a \<Longrightarrow> release s a = (Inr (), s') \<Longrightarrow>
      wf s' \<and> limit s' = limit s \<and> (\<forall>d. used s' d + cost a d = used s d)"
    and bounded: "wf s \<Longrightarrow> used s d \<le> limit s d"

text \<open>
  The runs of a counter's clients: charges are taken and refunded in any order, and a
  refund is always of a charge that is still outstanding. Failed attempts are steps too.
\<close>

inductive ledger ::
  "('s \<Rightarrow> 'a \<Rightarrow> charge_result \<times> 's) \<Rightarrow> ('s \<Rightarrow> 'a \<Rightarrow> charge_result \<times> 's) \<Rightarrow>
   ('a \<Rightarrow> bool) \<Rightarrow> 's \<Rightarrow> 's \<Rightarrow> 'a multiset \<Rightarrow> bool"
  for reserve release valid s0 where
  start: "ledger reserve release valid s0 s0 {#}"
| taken: "ledger reserve release valid s0 s Q \<Longrightarrow> valid a \<Longrightarrow> reserve s a = (Inr (), s') \<Longrightarrow>
    ledger reserve release valid s0 s' (add_mset a Q)"
| refused: "ledger reserve release valid s0 s Q \<Longrightarrow> valid a \<Longrightarrow> reserve s a = (Inl e, s') \<Longrightarrow>
    ledger reserve release valid s0 s' Q"
| refunded: "ledger reserve release valid s0 s Q \<Longrightarrow> a \<in># Q \<Longrightarrow> release s a = (Inr (), s') \<Longrightarrow>
    ledger reserve release valid s0 s' (Q - {#a#})"

context charged_budget
begin

lemma ledger_valid: "ledger reserve release valid s0 s Q \<Longrightarrow> a \<in># Q \<Longrightarrow> valid a"
  by (induction rule: ledger.induct) (auto dest: in_diffD)

lemma ledger_accounts:
  assumes "ledger reserve release valid s0 s Q" and "wf s0" and "\<And>d. used s0 d = 0"
  shows "wf s \<and> limit s = limit s0 \<and> (\<forall>d. used s d = (\<Sum>a\<in>#Q. cost a d))"
  using assms(1)
proof (induction rule: ledger.induct)
  case start
  then show ?case using assms(2,3) by simp
next
  case (taken s Q a s')
  then have "wf s" by simp
  from reserve_ok [OF this taken.hyps(2,3)] taken.IH show ?case by simp
next
  case (refused s Q a e s')
  with reserve_err [OF refused.hyps(3)] show ?case by simp
next
  case (refunded s Q a s')
  then have v: "valid a" and w: "wf s" and acc: "\<forall>d. used s d = (\<Sum>a\<in>#Q. cost a d)"
    and lim: "limit s = limit s0"
    using ledger_valid [OF refunded.hyps(1,2)] by simp_all
  from release_ok [OF w v refunded.hyps(3)]
  have "wf s'" "limit s' = limit s" and dec: "\<forall>d. used s' d + cost a d = used s d"
    by auto
  moreover have "used s' d = (\<Sum>a\<in>#Q - {#a#}. cost a d)" for d
  proof -
    have "used s' d + cost a d = (\<Sum>a\<in>#add_mset a (Q - {#a#}). cost a d)"
      using dec acc refunded.hyps(2) by simp
    then show ?thesis by simp
  qed
  ultimately show ?case using lim by simp
qed

lemma outstanding_refundable:
  assumes "ledger reserve release valid s0 s Q" and "wf s0" and "\<And>d. used s0 d = 0"
    and "a \<in># Q"
  shows "\<exists>s'. release s a = (Inr (), s')"
proof -
  have acc: "wf s" "\<forall>d. used s d = (\<Sum>a\<in>#Q. cost a d)"
    using ledger_accounts [OF assms(1,2,3)] by auto
  have "cost a d \<le> used s d" for d
  proof -
    have "(\<Sum>a\<in>#Q. cost a d) = cost a d + (\<Sum>a\<in>#Q - {#a#}. cost a d)"
      using multi_member_split [OF assms(4)] by auto
    with acc show ?thesis by simp
  qed
  with release_iff [OF acc(1) ledger_valid [OF assms(1,4)]] show ?thesis by simp
qed

lemma ledger_within_limit:
  assumes "ledger reserve release valid s0 s Q" and "wf s0" and "\<And>d. used s0 d = 0"
  shows "(\<Sum>a\<in>#Q. cost a d) \<le> limit s0 d"
proof -
  from ledger_accounts [OF assms]
  have "wf s" "limit s = limit s0" "used s d = (\<Sum>a\<in>#Q. cost a d)" by simp_all
  with bounded [of s d] show ?thesis by simp
qed

lemma reserve_then_release:
  assumes "wf s" "valid a" "reserve s a = (Inr (), s')"
  shows "\<exists>s''. release s' a = (Inr (), s'') \<and> limit s'' = limit s \<and> used s'' = used s"
proof -
  from reserve_ok [OF assms] have w: "wf s'" "limit s' = limit s"
    and u: "\<forall>d. used s' d = used s d + cost a d" by auto
  then obtain s'' where rel: "release s' a = (Inr (), s'')"
    using release_iff [OF w(1) assms(2)] by auto
  with release_ok [OF w(1) assms(2) rel] u w(2) show ?thesis
    by (auto simp: fun_eq_iff)
qed

end

section \<open>The counters meet the contract\<close>

subsection \<open>Vector budgets\<close>

definition vec_at :: "u64 list \<Rightarrow> nat \<Rightarrow> nat" where
  "vec_at xs i = (if i < length xs then unat (xs ! i) else 0)"

lemma vec_at_simps [simp]:
  "vec_at [] i = 0" "vec_at (x # xs) 0 = unat x" "vec_at (x # xs) (Suc i) = vec_at xs i"
  by (simp_all add: vec_at_def)

lemma vec_at_replicate [simp]: "vec_at (replicate n 0) i = 0"
  by (simp add: vec_at_def)

lemma all_dims: "(\<forall>i. P i) \<longleftrightarrow> P 0 \<and> (\<forall>i. P (Suc i))"
  by (metis not0_implies_Suc)

lemma vb_add_iff:
  assumes "length us = n" "length as = n" "length ls = n"
  shows "(\<exists>ns. vb_add us as ls = Inr ns) \<longleftrightarrow> (\<forall>i. vec_at us i + vec_at as i \<le> vec_at ls i)"
  using assms
proof (induction us as ls arbitrary: n rule: vb_add.induct)
  case (1 u us a as l ls)
  then obtain m where "n = Suc m" by (cases n) auto
  with 1 have IH: "unat u + unat a < 2 ^ 64 \<Longrightarrow> \<not> l < u + a \<Longrightarrow>
      (\<exists>ns. vb_add us as ls = Inr ns) \<longleftrightarrow> (\<forall>i. vec_at us i + vec_at as i \<le> vec_at ls i)"
    by (auto simp: checked_add_def)
  have head: "unat u + unat a < 2 ^ 64 \<and> \<not> l < u + a \<longleftrightarrow> unat u + unat a \<le> unat l"
    using unat_u64_less [of l] by (auto simp: word_less_nat_alt unat_word_ariths)
  show ?case
  proof (cases "unat u + unat a \<le> unat l")
    case True
    with head have h: "unat u + unat a < 2 ^ 64" "\<not> l < u + a" by simp_all
    then have "(\<exists>ns. vb_add (u # us) (a # as) (l # ls) = Inr ns) \<longleftrightarrow> (\<exists>ns. vb_add us as ls = Inr ns)"
      by (simp add: checked_add_def rbind_Inr_iff)
    also have "\<dots> \<longleftrightarrow> (\<forall>i. vec_at us i + vec_at as i \<le> vec_at ls i)" by (rule IH [OF h])
    finally show ?thesis
      using True by (subst all_dims) simp
  next
    case False
    with head have "unat u + unat a < 2 ^ 64 \<longrightarrow> l < u + a" by blast
    then have "\<not> (\<exists>ns. vb_add (u # us) (a # as) (l # ls) = Inr ns)"
      by (auto simp: checked_add_def)
    with False show ?thesis
      by (subst all_dims) simp
  qed
qed auto

lemma vb_add_at:
  assumes "vb_add us as ls = Inr ns" "length us = n" "length as = n" "length ls = n"
  shows "length ns = n \<and> (\<forall>i. vec_at ns i = vec_at us i + vec_at as i)"
  using assms
proof (induction us as ls arbitrary: n ns rule: vb_add.induct)
  case (1 u us a as l ls)
  then obtain m where n: "n = Suc m" by (cases n) auto
  from 1(2) obtain c ms where c: "checked_add u a = Some c" "\<not> l < c"
    and ms: "vb_add us as ls = Inr ms" "ns = c # ms"
    by (auto simp: rbind_Inr_iff split: if_splits)
  have "length ms = m \<and> (\<forall>i. vec_at ms i = vec_at us i + vec_at as i)"
    by (rule 1(1) [OF c(2) ms(1)]) (use 1 n c in auto)
  with c(1) ms(2) n show ?case
    by (subst all_dims) (simp add: checked_add_SomeD)
qed auto

lemma vb_sub_iff:
  assumes "length us = n" "length as = n"
  shows "(\<exists>ns. vb_sub us as = Inr ns) \<longleftrightarrow> (\<forall>i. vec_at as i \<le> vec_at us i)"
  using assms
proof (induction us as arbitrary: n rule: vb_sub.induct)
  case (1 u us a as)
  then obtain m where n: "n = Suc m" by (cases n) auto
  show ?case
  proof (cases "unat a \<le> unat u")
    case True
    then have c: "checked_sub u a = Some (u - a)" by (simp add: checked_sub_def word_le_nat_alt)
    then have "(\<exists>ns. vb_sub (u # us) (a # as) = Inr ns) \<longleftrightarrow> (\<exists>ns. vb_sub us as = Inr ns)"
      by (simp add: rbind_Inr_iff)
    also have "\<dots> \<longleftrightarrow> (\<forall>i. vec_at as i \<le> vec_at us i)"
      using 1(1) [of m] 1(2,3) n by simp
    finally show ?thesis using True by (subst all_dims) simp
  next
    case False
    then have "checked_sub u a = None" by (simp add: checked_sub_def word_le_nat_alt)
    with False show ?thesis by (subst all_dims) simp
  qed
qed auto

lemma vb_sub_at:
  assumes "vb_sub us as = Inr ns" "length us = n" "length as = n"
  shows "length ns = n \<and> (\<forall>i. vec_at ns i + vec_at as i = vec_at us i)"
  using assms
proof (induction us as arbitrary: n ns rule: vb_sub.induct)
  case (1 u us a as)
  then obtain m where n: "n = Suc m" by (cases n) auto
  from 1(2) obtain c ms where c: "checked_sub u a = Some c"
    and ms: "vb_sub us as = Inr ms" "ns = c # ms"
    by (auto simp: rbind_Inr_iff)
  have "length ms = m \<and> (\<forall>i. vec_at ms i + vec_at as i = vec_at us i)"
    by (rule 1(1) [OF ms(1)]) (use 1 n c in auto)
  with c ms(2) n show ?case
    by (subst all_dims) (simp add: checked_sub_SomeD)
qed auto

definition vb_wf :: "nat \<Rightarrow> vector_budget \<Rightarrow> bool" where
  "vb_wf n b \<longleftrightarrow> length (vb_limit b) = n \<and> length (vb_used b) = n \<and>
     (\<forall>i. vec_at (vb_used b) i \<le> vec_at (vb_limit b) i)"

lemma vb_wf_new: "vb_wf (length ls) (vb_new ls)"
  by (simp add: vb_wf_def vb_new_def)

interpretation vector: charged_budget vb_reserve vb_release "vb_wf n" "\<lambda>a. length a = n"
  "\<lambda>b. vec_at (vb_used b)" "\<lambda>b. vec_at (vb_limit b)" vec_at for n
proof (unfold_locales, goal_cases)
  case (3 s a)
  then have "(\<exists>s'. vb_reserve s a = (Inr (), s')) \<longleftrightarrow> (\<exists>ns. vb_add (vb_used s) a (vb_limit s) = Inr ns)"
    by (auto simp: vb_reserve_def split: sum.splits)
  with 3 show ?case by (simp add: vb_wf_def vb_add_iff)
next
  case (4 s a s')
  then obtain ns where ns: "vb_add (vb_used s) a (vb_limit s) = Inr ns" "s' = s\<lparr>vb_used := ns\<rparr>"
    by (auto simp: vb_reserve_def split: sum.splits)
  have "\<forall>i. vec_at (vb_used s) i + vec_at a i \<le> vec_at (vb_limit s) i"
    using 4 ns(1) vb_add_iff [of "vb_used s" n a "vb_limit s"] by (auto simp: vb_wf_def)
  with 4 vb_add_at [OF ns(1), of n] ns(2) show ?case by (simp add: vb_wf_def)
next
  case (5 s a)
  then have "(\<exists>s'. vb_release s a = (Inr (), s')) \<longleftrightarrow> (\<exists>ns. vb_sub (vb_used s) a = Inr ns)"
    by (auto simp: vb_release_def split: sum.splits)
  with 5 show ?case by (simp add: vb_wf_def vb_sub_iff)
next
  case (6 s a s')
  then obtain ns where ns: "vb_sub (vb_used s) a = Inr ns" "s' = s\<lparr>vb_used := ns\<rparr>"
    by (auto simp: vb_release_def split: sum.splits)
  have at: "length ns = n" "\<And>i. vec_at ns i + vec_at a i = vec_at (vb_used s) i"
    using 6 vb_sub_at [OF ns(1), of n] by (auto simp: vb_wf_def)
  have "vec_at ns i \<le> vec_at (vb_limit s) i" for i
  proof -
    have "vec_at (vb_used s) i \<le> vec_at (vb_limit s) i" using 6(1) by (simp add: vb_wf_def)
    with at(2) [of i] show ?thesis by linarith
  qed
  with 6 at ns(2) show ?case by (simp add: vb_wf_def)
qed (auto simp: vb_reserve_def vb_release_def vb_wf_def split: sum.splits)

subsection \<open>Admission pools\<close>

text \<open>
  A pool counts every dimension twice: \<open>(True, i)\<close> in the shared total and
  \<open>(False, i)\<close> in the ordinary share, where platform charges cost nothing.
\<close>

definition pool_wf :: "nat \<Rightarrow> admission_pool \<Rightarrow> bool" where
  "pool_wf n p \<longleftrightarrow> vb_wf n (pool_total p) \<and> vb_wf n (pool_ordinary p)"

definition pool_used :: "admission_pool \<Rightarrow> bool \<times> nat \<Rightarrow> nat" where
  "pool_used p = (\<lambda>(t, i). vec_at (vb_used (if t then pool_total p else pool_ordinary p)) i)"

definition pool_limit :: "admission_pool \<Rightarrow> bool \<times> nat \<Rightarrow> nat" where
  "pool_limit p = (\<lambda>(t, i). vec_at (vb_limit (if t then pool_total p else pool_ordinary p)) i)"

definition pool_cost :: "bool \<times> u64 list \<Rightarrow> bool \<times> nat \<Rightarrow> nat" where
  "pool_cost = (\<lambda>(platform, a) (t, i). if t \<or> \<not> platform then vec_at a i else 0)"

abbreviation pool_amount :: "nat \<Rightarrow> bool \<times> u64 list \<Rightarrow> bool" where
  "pool_amount n c \<equiv> length (snd c) = n"

lemmas pool_reading = pool_used_def pool_limit_def pool_cost_def

lemma all_bool_nat: "(\<forall>d :: bool \<times> nat. P d) \<longleftrightarrow> (\<forall>i. P (True, i)) \<and> (\<forall>i. P (False, i))"
  by (metis (full_types) surj_pair)

lemma vb_reserve_cases:
  obtains (ok) b' where "vb_reserve b a = (Inr (), b')" | (err) e where "vb_reserve b a = (Inl e, b)"
  by (cases "vb_add (vb_used b) a (vb_limit b)") (auto simp: vb_reserve_def)

lemma vb_release_cases:
  obtains (ok) b' where "vb_release b a = (Inr (), b')" | (err) e where "vb_release b a = (Inl e, b)"
  by (cases "vb_sub (vb_used b) a") (auto simp: vb_release_def)

lemma pool_reserve_ok_iff:
  "pool_reserve p (platform, a) = (Inr (), p') \<longleftrightarrow>
     (\<exists>t. vb_reserve (pool_total p) a = (Inr (), t) \<and>
        (if platform then p' = p\<lparr>pool_total := t\<rparr>
         else \<exists>r. vb_reserve (pool_ordinary p) a = (Inr (), r) \<and>
                p' = p\<lparr>pool_total := t, pool_ordinary := r\<rparr>))"
  by (cases rule: vb_reserve_cases [of "pool_total p" a];
      cases rule: vb_reserve_cases [of "pool_ordinary p" a]) (auto simp: pool_reserve_def)

lemma pool_release_ok_iff:
  "pool_release p (platform, a) = (Inr (), p') \<longleftrightarrow>
     (\<exists>t. vb_release (pool_total p) a = (Inr (), t) \<and>
        (if platform then p' = p\<lparr>pool_total := t\<rparr>
         else \<exists>r. vb_release (pool_ordinary p) a = (Inr (), r) \<and>
                p' = p\<lparr>pool_total := t, pool_ordinary := r\<rparr>))"
  by (cases rule: vb_release_cases [of "pool_total p" a];
      cases rule: vb_release_cases [of "pool_ordinary p" a]) (auto simp: pool_release_def)

lemma pool_reserve_err: "pool_reserve p c = (Inl e, p') \<Longrightarrow> p' = p"
  by (simp add: pool_reserve_def split: prod.splits sum.splits if_splits)

lemma pool_release_err: "pool_release p c = (Inl e, p') \<Longrightarrow> p' = p"
  by (simp add: pool_release_def split: prod.splits sum.splits if_splits)

interpretation pool: charged_budget pool_reserve pool_release "pool_wf n" "pool_amount n"
  pool_used pool_limit pool_cost for n
proof (unfold_locales, goal_cases)
  case (1 s a e s')
  then show ?case by (rule pool_reserve_err)
next
  case (2 s a e s')
  then show ?case by (rule pool_release_err)
next
  case (3 s a)
  obtain platform x where a: "a = (platform, x)" by (cases a)
  with 3 have w: "vb_wf n (pool_total s)" "vb_wf n (pool_ordinary s)" "length x = n"
    by (simp_all add: pool_wf_def)
  have b: "\<And>i. vec_at (vb_used (pool_ordinary s)) i \<le> vec_at (vb_limit (pool_ordinary s)) i"
    using w(2) by (simp add: vb_wf_def)
  have "(\<exists>p'. pool_reserve s a = (Inr (), p')) \<longleftrightarrow>
      (\<exists>t. vb_reserve (pool_total s) x = (Inr (), t)) \<and>
      (platform \<or> (\<exists>r. vb_reserve (pool_ordinary s) x = (Inr (), r)))"
    by (cases platform) (auto simp: a pool_reserve_ok_iff)
  then show ?case
    unfolding all_bool_nat vector.reserve_iff [OF w(1,3)] vector.reserve_iff [OF w(2,3)]
    using b by (cases platform) (simp_all add: a pool_reading)
next
  case (4 s a s')
  obtain platform x where a: "a = (platform, x)" by (cases a)
  with 4 have w: "vb_wf n (pool_total s)" "vb_wf n (pool_ordinary s)" "length x = n"
    by (simp_all add: pool_wf_def)
  from 4(3) a obtain t where t: "vb_reserve (pool_total s) x = (Inr (), t)"
    and r: "if platform then s' = s\<lparr>pool_total := t\<rparr>
      else \<exists>r. vb_reserve (pool_ordinary s) x = (Inr (), r) \<and>
        s' = s\<lparr>pool_total := t, pool_ordinary := r\<rparr>"
    by (auto simp: pool_reserve_ok_iff)
  note tot = vector.reserve_ok [OF w(1,3) t]
  show ?case
  proof (cases platform)
    case True
    with tot r w a show ?thesis by (simp add: pool_wf_def all_bool_nat pool_reading fun_eq_iff)
  next
    case False
    with r obtain r' where r': "vb_reserve (pool_ordinary s) x = (Inr (), r')"
      "s' = s\<lparr>pool_total := t, pool_ordinary := r'\<rparr>" by auto
    with tot vector.reserve_ok [OF w(2,3) r'(1)] False a show ?thesis
      by (simp add: pool_wf_def all_bool_nat pool_reading fun_eq_iff)
  qed
next
  case (5 s a)
  obtain platform x where a: "a = (platform, x)" by (cases a)
  with 5 have w: "vb_wf n (pool_total s)" "vb_wf n (pool_ordinary s)" "length x = n"
    by (simp_all add: pool_wf_def)
  have "(\<exists>p'. pool_release s a = (Inr (), p')) \<longleftrightarrow>
      (\<exists>t. vb_release (pool_total s) x = (Inr (), t)) \<and>
      (platform \<or> (\<exists>r. vb_release (pool_ordinary s) x = (Inr (), r)))"
    by (cases platform) (auto simp: a pool_release_ok_iff)
  then show ?case
    unfolding all_bool_nat vector.release_iff [OF w(1,3)] vector.release_iff [OF w(2,3)]
    by (cases platform) (simp_all add: a pool_reading)
next
  case (6 s a s')
  obtain platform x where a: "a = (platform, x)" by (cases a)
  with 6 have w: "vb_wf n (pool_total s)" "vb_wf n (pool_ordinary s)" "length x = n"
    by (simp_all add: pool_wf_def)
  from 6(3) a obtain t where t: "vb_release (pool_total s) x = (Inr (), t)"
    and r: "if platform then s' = s\<lparr>pool_total := t\<rparr>
      else \<exists>r. vb_release (pool_ordinary s) x = (Inr (), r) \<and>
        s' = s\<lparr>pool_total := t, pool_ordinary := r\<rparr>"
    by (auto simp: pool_release_ok_iff)
  note tot = vector.release_ok [OF w(1,3) t]
  show ?case
  proof (cases platform)
    case True
    with tot r w a show ?thesis by (simp add: pool_wf_def all_bool_nat pool_reading fun_eq_iff)
  next
    case False
    with r obtain r' where r': "vb_release (pool_ordinary s) x = (Inr (), r')"
      "s' = s\<lparr>pool_total := t, pool_ordinary := r'\<rparr>" by auto
    with tot vector.release_ok [OF w(2,3) r'(1)] False a show ?thesis
      by (simp add: pool_wf_def all_bool_nat pool_reading fun_eq_iff)
  qed
next
  case (7 s d)
  then show ?case
    by (cases d) (auto simp: pool_wf_def vb_wf_def pool_reading)
qed

lemma pool_new_facts:
  "length total_limit = n \<Longrightarrow> length ordinary = n \<Longrightarrow> pool_wf n (pool_new total_limit ordinary)"
  "pool_used (pool_new total_limit ordinary) d = 0"
  by (auto simp: pool_wf_def pool_new_def vb_wf_def pool_used_def vb_new_def split: prod.splits)

subsection \<open>Count budgets\<close>

definition cb_wf :: "count_budget \<Rightarrow> bool" where
  "cb_wf b \<longleftrightarrow> unat (cb_used b) \<le> unat (cb_limit b)"

lemma cb_reserve_ok_iff:
  "cb_reserve b u = (Inr (), b') \<longleftrightarrow>
     unat (cb_used b) + 1 \<le> unat (cb_limit b) \<and> b' = b\<lparr>cb_used := cb_used b + 1\<rparr>"
  using unat_u64_less [of "cb_limit b"]
  by (auto simp: cb_reserve_def checked_add_def word_less_nat_alt unat_word_ariths
      split: if_splits)

lemma cb_release_ok_iff:
  "cb_release b u = (Inr (), b') \<longleftrightarrow>
     1 \<le> unat (cb_used b) \<and> b' = b\<lparr>cb_used := cb_used b - 1\<rparr>"
  by (auto simp: cb_release_def checked_sub_def word_le_nat_alt split: if_splits)

interpretation count: charged_budget cb_reserve cb_release cb_wf "\<lambda>_. True"
  "\<lambda>b (_::unit). unat (cb_used b)" "\<lambda>b _. unat (cb_limit b)" "\<lambda>_ _. 1"
proof (unfold_locales, goal_cases)
  case (4 s a s')
  with unat_u64_less [of "cb_limit s"] show ?case
    by (auto simp: cb_reserve_ok_iff cb_wf_def unat_word_ariths)
next
  case (6 s a s')
  then show ?case
    by (auto simp: cb_release_ok_iff cb_wf_def unat_sub word_le_nat_alt)
next
  case (1 s a e s')
  then show ?case by (auto simp: cb_reserve_def split: option.splits if_splits)
next
  case (2 s a e s')
  then show ?case by (auto simp: cb_release_def split: option.splits if_splits)
qed (auto simp: cb_reserve_ok_iff cb_release_ok_iff cb_wf_def)

subsection \<open>Page and object budgets\<close>

definition bu_wf :: "budget \<Rightarrow> bool" where
  "bu_wf b \<longleftrightarrow> unat (pages (bu_used b)) \<le> unat (pages (bu_limit b)) \<and>
     unat (objects (bu_used b)) \<le> unat (objects (bu_limit b))"

definition amount_at :: "amount \<Rightarrow> bool \<Rightarrow> nat" where
  "amount_at a p = unat (if p then pages a else objects a)"

lemma bu_reserve_ok_iff:
  "bu_reserve b a = (Inr (), b') \<longleftrightarrow>
     (\<forall>p. amount_at (bu_used b) p + amount_at a p \<le> amount_at (bu_limit b) p) \<and>
     b' = b\<lparr>bu_used := \<lparr>pages = pages (bu_used b) + pages a,
                        objects = objects (bu_used b) + objects a\<rparr>\<rparr>"
  using unat_u64_less [of "pages (bu_limit b)"] unat_u64_less [of "objects (bu_limit b)"]
  by (auto simp: bu_reserve_def checked_add_def word_less_nat_alt unat_word_ariths amount_at_def
      all_bool_eq split: if_splits)

lemma bu_release_ok_iff:
  "bu_release b a = (Inr (), b') \<longleftrightarrow>
     (\<forall>p. amount_at a p \<le> amount_at (bu_used b) p) \<and>
     b' = b\<lparr>bu_used := \<lparr>pages = pages (bu_used b) - pages a,
                        objects = objects (bu_used b) - objects a\<rparr>\<rparr>"
  by (auto simp: bu_release_def checked_sub_def word_le_nat_alt amount_at_def all_bool_eq
      split: if_splits)

interpretation page: charged_budget bu_reserve bu_release bu_wf "\<lambda>_. True"
  "\<lambda>b. amount_at (bu_used b)" "\<lambda>b. amount_at (bu_limit b)" amount_at
proof (unfold_locales, goal_cases)
  case (4 s a s')
  with unat_u64_less [of "pages (bu_limit s)"] unat_u64_less [of "objects (bu_limit s)"]
  show ?case
    by (auto simp: bu_reserve_ok_iff bu_wf_def amount_at_def unat_word_ariths all_bool_eq)
next
  case (6 s a s')
  then show ?case
    by (auto simp: bu_release_ok_iff bu_wf_def amount_at_def unat_sub word_le_nat_alt all_bool_eq)
next
  case (1 s a e s')
  then show ?case by (auto simp: bu_reserve_def split: option.splits if_splits)
next
  case (2 s a e s')
  then show ?case by (auto simp: bu_release_def split: option.splits if_splits)
next
  case (7 s d)
  then show ?case by (simp add: bu_wf_def amount_at_def)
qed (simp_all add: bu_reserve_ok_iff bu_release_ok_iff)

section \<open>Properties\<close>

lemma pool_cost_split: "pool_cost c (False, i) \<le> pool_cost c (True, i)"
  by (cases c) (simp add: pool_cost_def)



lemma next_pow2_from_ge: "0 < p \<Longrightarrow> n \<le> next_pow2_from p n \<and> p \<le> next_pow2_from p n"
  by (induction p n rule: next_pow2_from.induct)
    (subst (1 2) next_pow2_from.simps, force)

lemma next_pow2_from_least:
  "p \<le> 2 ^ k \<Longrightarrow> n \<le> 2 ^ k \<Longrightarrow> p = 2 ^ j \<Longrightarrow> next_pow2_from p n \<le> 2 ^ k"
proof (induction p n arbitrary: j rule: next_pow2_from.induct)
  case (1 p n)
  show ?case
  proof (cases "p < n")
    case True
    with 1 have "(2::nat) ^ j < 2 ^ k" by linarith
    then have "Suc j \<le> k" by simp
    then have "(2::nat) ^ Suc j \<le> 2 ^ k" by (rule power_increasing) simp
    with True 1 have "next_pow2_from (2 * p) n \<le> 2 ^ k" by (intro 1(1) [of "Suc j"]) simp_all
    with True 1(4) show ?thesis by (subst next_pow2_from.simps) simp
  next
    case False
    with 1 show ?thesis by (subst next_pow2_from.simps) simp
  qed
qed

lemma next_pow2_from_pow2: "p = 2 ^ j \<Longrightarrow> \<exists>k. next_pow2_from p n = 2 ^ k"
proof (induction p n arbitrary: j rule: next_pow2_from.induct)
  case (1 p n)
  have "p < n \<Longrightarrow> \<exists>k. next_pow2_from (2 * p) n = 2 ^ k"
    using 1(1) [of "Suc j"] 1(2) by simp
  with 1(2) show ?case by (subst next_pow2_from.simps) auto
qed



end
