(* ===== verification/Lifecycle.thy ===== *)
theory Lifecycle
  imports Prelude
begin

text \<open>
  \<^verbatim>\<open>crates/charlotte-lifecycle/src/lib.rs\<close> and \<^verbatim>\<open>iommu.rs\<close>: the pure decisions the kernel
  and the userspace runtime share (timer deadlines, retirement quiescence, thread and wait
  generations, adaptive stack and heap sizing, DMA completion commands). A call that can
  panic returns an option, \<open>None\<close> for the panic.
\<close>

section \<open>Timers, quiescence, generations\<close>

definition saturating_timer_deadline :: "u64 \<Rightarrow> u128 \<Rightarrow> u64" where
  "saturating_timer_deadline now ticks =
     (if ucast (- 1 :: u64) < ticks then - 1 else saturating_add now (ucast ticks))"

definition timer_checkpoint_count :: "u128 \<Rightarrow> u32" where
  "timer_checkpoint_count ticks =
     (if ticks = 0 then 1
      else if ucast (- 1 :: u32) < ticks then - 1
      else ucast ticks)"

definition retirement_snapshot_is_quiescent ::
  "u64 \<Rightarrow> u64 \<Rightarrow> bool \<Rightarrow> bool \<Rightarrow> bool \<Rightarrow> bool" where
  "retirement_snapshot_is_quiescent epoch_before epoch_after in_flight live_threads staged_threads \<longleftrightarrow>
     epoch_before = epoch_after \<and> \<not> in_flight \<and> \<not> live_threads \<and> \<not> staged_threads"

record thread_identity =
  tid :: u64
  thread_generation :: u64

datatype join_disposition = ObserveCurrent | AlreadyExited

definition classify_join :: "thread_identity \<Rightarrow> thread_identity option \<Rightarrow> join_disposition" where
  "classify_join captured current =
     (case current of
        Some c \<Rightarrow>
          if tid c = tid captured \<and> thread_generation c = thread_generation captured
          then ObserveCurrent else AlreadyExited
      | None \<Rightarrow> AlreadyExited)"

datatype timed_wait_outcome = Work | Timeout

definition claim_generation :: "u64 \<Rightarrow> (u64 \<times> u64) option" where
  "claim_generation next_gen =
     (if next_gen = 0 \<or> next_gen = - 1 then None else Some (next_gen, next_gen + 1))"

definition classify_timed_wait :: "u64 \<Rightarrow> u64 \<Rightarrow> timed_wait_outcome" where
  "classify_timed_wait registered_generation current_generation =
     (if current_generation = registered_generation then Timeout else Work)"

section \<open>Adaptive sizing\<close>

text \<open>\<open>Ord::clamp\<close> panics when its lower bound exceeds its upper bound.\<close>

definition clamp :: "usize \<Rightarrow> usize \<Rightarrow> usize \<Rightarrow> usize option" where
  "clamp x lo hi = (if hi < lo then None else Some (if x < lo then lo else if hi < x then hi else x))"

definition checked_next_multiple_of :: "usize \<Rightarrow> usize \<Rightarrow> usize option" where
  "checked_next_multiple_of x m =
     (let r = x mod m in if r = 0 then Some x else checked_add x (m - r))"

definition adaptive_stack_pages :: "u64 \<Rightarrow> usize \<Rightarrow> usize \<Rightarrow> usize option" where
  "adaptive_stack_pages previous_high_water_pages default_pages max_pages =
     (if previous_high_water_pages = 0 then Some default_pages
      else clamp (saturating_add previous_high_water_pages 1) default_pages max_pages)"

definition adaptive_heap_bytes :: "u64 \<Rightarrow> usize \<Rightarrow> usize \<Rightarrow> usize \<Rightarrow> usize option" where
  "adaptive_heap_bytes previous_peak_bytes default_bytes min_bytes max_bytes =
     (if previous_peak_bytes = 0 then Some default_bytes
      else
        let with_slack = saturating_add (saturating_mul previous_peak_bytes 2) (256 * 1024);
            rounded = (case checked_next_multiple_of with_slack 4096 of Some r \<Rightarrow> r | None \<Rightarrow> - 1)
        in clamp rounded min_bytes max_bytes)"

definition damp_stack_growth :: "usize \<Rightarrow> usize \<Rightarrow> u64 \<Rightarrow> u64 \<Rightarrow> usize" where
  "damp_stack_growth desired_pages floor_pages free_frames reserve_frames =
     (if free_frames < reserve_frames then min desired_pages floor_pages
      else max desired_pages floor_pages)"

section \<open>DMA completion commands\<close>

definition vtd_draining_command :: "u64 \<Rightarrow> u64 option" where
  "vtd_draining_command capabilities =
     (if capabilities AND push_bit 54 3 \<noteq> push_bit 54 3 then None
      else Some (push_bit 63 1 OR push_bit 60 1 OR push_bit 49 1 OR push_bit 48 1))"

definition amd_completion_command :: "u64 \<Rightarrow> u64 \<Rightarrow> (u64 \<times> u64) option" where
  "amd_completion_command address epoch =
     (if address AND 7 \<noteq> 0 \<or> drop_bit 52 address \<noteq> 0 \<or> epoch = 0 then None
      else Some (push_bit 60 1 OR address OR 5, epoch))"

definition completion_matches :: "u64 \<Rightarrow> u64 \<Rightarrow> bool" where
  "completion_matches observed expected \<longleftrightarrow> expected \<noteq> 0 \<and> observed = expected"

definition smmu_queue_has_space :: "u32 \<Rightarrow> u32 \<Rightarrow> u32 \<Rightarrow> bool" where
  "smmu_queue_has_space producer consumer entries \<longleftrightarrow>
     (entries \<noteq> 0 \<and> entries AND (entries - 1) = 0) \<and>
     entries \<le> (- 1) div 2 \<and> producer < entries * 2 \<and> consumer < entries * 2 \<and>
     producer \<noteq> consumer XOR entries"

section \<open>Properties\<close>

text \<open>
  The successive values issued by a generation counter: each claim stores back the
  counter it returns, and claiming stops when the counter refuses.
\<close>

fun claims :: "nat \<Rightarrow> u64 \<Rightarrow> u64 list" where
  "claims 0 next_gen = []"
| "claims (Suc n) next_gen =
     (case claim_generation next_gen of
        None \<Rightarrow> []
      | Some (g, next_gen') \<Rightarrow> g # claims n next_gen')"

lemma claim_generation_Some:
  "claim_generation n = Some (g, n') \<Longrightarrow> g = n \<and> 0 < unat n \<and> unat n' = Suc (unat n)"
proof -
  assume "claim_generation n = Some (g, n')"
  then have "n \<noteq> 0" "n \<noteq> - 1" "g = n" "n' = n + 1"
    by (auto simp: claim_generation_def split: if_splits)
  moreover have "unat n \<noteq> 0" using \<open>n \<noteq> 0\<close> by (simp add: unat_eq_0)
  moreover have "unat (n + 1) = Suc (unat n)"
    using \<open>n \<noteq> - 1\<close> by (metis add.commute unatSuc add_eq_0_iff2 minus_equation_iff)
  ultimately show ?thesis by simp
qed

lemma claims_above: "g \<in> set (claims k n) \<Longrightarrow> unat n \<le> unat g \<and> 0 < unat g"
proof (induction k arbitrary: n)
  case (Suc k)
  then obtain h n' where c: "claim_generation n = Some (h, n')"
    and g: "g = h \<or> g \<in> set (claims k n')"
    by (cases "claim_generation n") auto
  from claim_generation_Some [OF c] g Suc.IH [of n'] show ?case by auto
qed simp

text \<open>
  (C25) A generation counter never reissues a value: the generations of any number of
  successive claims are strictly increasing and nonzero, and at \<open>u64::MAX\<close> (or at a
  corrupt zero) the counter refuses for ever instead of wrapping.
\<close>

theorem generations_never_reused:
  "sorted_wrt (\<lambda>g h. unat g < unat h) (claims k start) \<and> 0 \<notin> set (claims k start) \<and>
   claims k (- 1) = [] \<and> claims k 0 = []"
proof -
  have "sorted_wrt (\<lambda>g h. unat g < unat h) (claims k start)"
  proof (induction k arbitrary: start)
    case (Suc k)
    show ?case
    proof (cases "claim_generation start")
      case (Some p)
      obtain g n' where p: "p = (g, n')" by (cases p)
      note gn = claim_generation_Some [OF Some [unfolded p]]
      have "\<forall>h \<in> set (claims k n'). unat g < unat h"
        using gn claims_above [of _ k n'] by fastforce
      with Suc.IH [of n'] show ?thesis by (simp add: Some p)
    qed simp
  qed simp
  moreover have "0 \<notin> set (claims k start)" using claims_above [of 0 k start] by auto
  moreover have "claims k (- 1) = []" "claims k 0 = []"
    by (cases k; simp add: claim_generation_def)+
  ultimately show ?thesis by simp
qed

text \<open>
  (C29) Timer arithmetic neither truncates nor wraps: a relative deadline is the exact sum
  when it is representable and \<open>u64::MAX\<close> otherwise, never before the present; a hardware
  checkpoint is nonzero and never later than the logical deadline it serves.
\<close>

theorem timer_bounds:
  "unat (saturating_timer_deadline now ticks) = min (unat now + unat ticks) (2 ^ 64 - 1) \<and>
   0 < timer_checkpoint_count ticks \<and>
   unat (timer_checkpoint_count ticks) = (if ticks = 0 then 1 else min (unat ticks) (2 ^ 32 - 1))"
proof -
  have m64: "unat (ucast (- 1 :: u64) :: u128) = 2 ^ 64 - 1"
    and m32: "unat (ucast (- 1 :: u32) :: u128) = 2 ^ 32 - 1"
    by (simp_all add: unsigned_ucast_eq take_bit_eq_mod unat_max_word)
  have d: "unat (saturating_timer_deadline now ticks) = min (unat now + unat ticks) (2 ^ 64 - 1)"
  proof (cases "ucast (- 1 :: u64) < ticks")
    case True
    with m64 have "2 ^ 64 - 1 < unat ticks" by (simp add: word_less_nat_alt)
    with True show ?thesis by (simp add: saturating_timer_deadline_def unat_max_word)
  next
    case False
    with m64 have "unat ticks \<le> 2 ^ 64 - 1" by (simp add: word_less_nat_alt)
    then have "unat (ucast ticks :: u64) = unat ticks"
      by (simp add: unsigned_ucast_eq take_bit_eq_mod)
    with False show ?thesis by (simp add: saturating_timer_deadline_def unat_saturating_add)
  qed
  have c: "unat (timer_checkpoint_count ticks) = (if ticks = 0 then 1 else min (unat ticks) (2 ^ 32 - 1))"
  proof (cases "ucast (- 1 :: u32) < ticks")
    case True
    with m32 have "2 ^ 32 - 1 < unat ticks" by (simp add: word_less_nat_alt)
    with True show ?thesis by (auto simp: timer_checkpoint_count_def unat_max_word)
  next
    case False
    with m32 have "unat ticks \<le> 2 ^ 32 - 1" by (simp add: word_less_nat_alt)
    then have "unat (ucast ticks :: u32) = unat ticks"
      by (simp add: unsigned_ucast_eq take_bit_eq_mod)
    with False \<open>unat ticks \<le> 2 ^ 32 - 1\<close> show ?thesis by (simp add: timer_checkpoint_count_def)
  qed
  have "unat ticks \<noteq> 0" if "ticks \<noteq> 0" using that by (simp add: unat_eq_0)
  with c have "0 < unat (timer_checkpoint_count ticks)" by auto
  with c d show ?thesis by (simp add: word_less_nat_alt)
qed

lemma clamp_bounds: "clamp x lo hi = Some y \<Longrightarrow> lo \<le> y \<and> y \<le> hi"
  by (auto simp: clamp_def split: if_splits)

lemma clamp_defined: "lo \<le> hi \<Longrightarrow> \<exists>y. clamp x lo hi = Some y"
  by (auto simp: clamp_def)

text \<open>
  (C28) With a consistent policy (default not above the maximum) the adaptive stack size
  never panics and stays between the default and the maximum, covers the previous
  generation's high-water mark with one spare page unless the maximum cuts it, and memory
  pressure withholds growth but never goes below the smaller of the wish and the floor.
\<close>

theorem adaptive_stack_bounds:
  assumes "default_pages \<le> max_pages"
  shows "\<exists>n. adaptive_stack_pages high_water default_pages max_pages = Some n \<and>
     default_pages \<le> n \<and> n \<le> max_pages \<and>
     (unat high_water < unat n \<or> n = max_pages \<or> high_water = 0) \<and>
     (damp_stack_growth n default_pages free_frames reserve_frames =
        (if free_frames < reserve_frames then default_pages else n))"
proof (cases "high_water = 0")
  case True
  with assms show ?thesis by (auto simp: adaptive_stack_pages_def damp_stack_growth_def)
next
  case False
  obtain n where n: "clamp (saturating_add high_water 1) default_pages max_pages = Some n"
    using clamp_defined [OF assms] by blast
  note b = clamp_bounds [OF n]
  have "unat high_water < unat n \<or> n = max_pages"
  proof (cases "max_pages < saturating_add high_water 1")
    case True
    with n assms show ?thesis by (auto simp: clamp_def split: if_splits)
  next
    case False
    then have le: "unat (saturating_add high_water 1) \<le> unat n"
      using n by (auto simp: clamp_def word_le_nat_alt word_less_nat_alt split: if_splits)
    show ?thesis
    proof (cases "high_water = - 1")
      case True
      then have "unat (saturating_add high_water 1) = 2 ^ 64 - 1"
        by (simp add: unat_saturating_add unat_max_word)
      with False have "2 ^ 64 - 1 \<le> unat max_pages" by (simp add: word_less_nat_alt)
      with le \<open>unat (saturating_add high_water 1) = 2 ^ 64 - 1\<close> b
      have "unat n = unat max_pages" using unat_u64_less [of max_pages] by (simp add: word_le_nat_alt)
      then show ?thesis by (simp add: word_unat_eq_iff)
    next
      case False
      then have "unat high_water \<noteq> 2 ^ 64 - 1"
        using unat_max_word [where 'a = 64] by (simp add: word_unat_eq_iff)
      with unat_u64_less [of high_water] have "unat (saturating_add high_water 1) = Suc (unat high_water)"
        by (simp add: unat_saturating_add)
      with le show ?thesis by simp
    qed
  qed
  with n b False show ?thesis
    by (auto simp: adaptive_stack_pages_def damp_stack_growth_def min_def max_def)
qed

theorem adaptive_stack_bounds_witness:
  "(4::usize) \<le> 64 \<and> adaptive_stack_pages 63 4 64 = Some 64 \<and>
   (\<exists>n. adaptive_stack_pages 63 4 64 = Some n \<and> 4 \<le> n \<and> n \<le> 64)"
proof -
  have "adaptive_stack_pages 63 4 64 = Some 64"
    by (simp add: adaptive_stack_pages_def clamp_def saturating_add_def)
  then show ?thesis using adaptive_stack_bounds [of 4 64 63 0 0] by auto
qed

end
