(* ===== verification/Irq_Wake.thy ===== *)
theory Irq_Wake
  imports Prelude
begin

text \<open>
  \<^verbatim>\<open>crates/charlotte-lifecycle/src/irq.rs\<close>: the one-word mailbox that carries deferred
  interrupt readiness. The three methods are modelled on the atomic word; \<open>claim\<close> is split
  at its two atomic accesses, so the step relation interleaves publishers, route managers
  and any number of claimers. The mailbox is proved equal to an abstract reading of the
  event history.
\<close>

section \<open>Route generations\<close>

definition MAX_ROUTE_GENERATION :: u64 where
  "MAX_ROUTE_GENERATION = drop_bit 1 (- 1)"

definition next_binding_generation :: "u64 \<Rightarrow> u64 option" where
  "next_binding_generation current =
     (if current < MAX_ROUTE_GENERATION - 1 then Some (current + 1) else None)"

definition retired_generation :: "u64 \<Rightarrow> u64" where
  "retired_generation current =
     (if current < MAX_ROUTE_GENERATION then current + 1 else current)"

section \<open>The mailbox word\<close>

definition publish :: "u64 \<Rightarrow> u64 \<Rightarrow> bool \<times> u64" where
  "publish state generation =
     (if generation = 0 \<or> MAX_ROUTE_GENERATION \<le> generation then (False, state)
      else (True, max state (push_bit 1 generation OR 1)))"

text \<open>\<open>advance\<close> asserts its argument; \<open>None\<close> is the panic.\<close>

definition advance :: "u64 \<Rightarrow> u64 \<Rightarrow> u64 option" where
  "advance state generation =
     (if 0 < generation \<and> generation \<le> MAX_ROUTE_GENERATION
      then Some (max state (push_bit 1 generation)) else None)"

definition claim_load :: "u64 \<Rightarrow> bool" where
  "claim_load state \<longleftrightarrow> state AND 1 \<noteq> 0"

definition claim_take :: "u64 \<Rightarrow> u64 option \<times> u64" where
  "claim_take previous =
     (if previous AND 1 = 0 then None else Some (drop_bit 1 previous), previous AND NOT 1)"

definition claim :: "u64 \<Rightarrow> u64 option \<times> u64" where
  "claim state = (if \<not> claim_load state then (None, state) else claim_take state)"

section \<open>Interleaved executions\<close>

datatype irq_event = Published u64 | Advanced u64 | Claimed u64

record irq_sys =
  mailbox :: u64
  loaded :: "nat set" \<comment> \<open>claimers between their load and their fetch-and\<close>
  history :: "irq_event list" \<comment> \<open>newest first\<close>

definition irq_new :: irq_sys where
  "irq_new = \<lparr>mailbox = 0, loaded = {}, history = []\<rparr>"

inductive irq_step :: "irq_sys \<Rightarrow> irq_sys \<Rightarrow> bool" where
  publish_ok: "publish (mailbox s) g = (True, m) \<Longrightarrow>
    irq_step s (s\<lparr>mailbox := m, history := Published g # history s\<rparr>)"
| publish_malformed: "publish (mailbox s) g = (False, m) \<Longrightarrow> irq_step s (s\<lparr>mailbox := m\<rparr>)"
| advance_ok: "advance (mailbox s) g = Some m \<Longrightarrow>
    irq_step s (s\<lparr>mailbox := m, history := Advanced g # history s\<rparr>)"
| claim_idle: "\<not> claim_load (mailbox s) \<Longrightarrow> irq_step s s"
| claim_seen: "claim_load (mailbox s) \<Longrightarrow> irq_step s (s\<lparr>loaded := insert t (loaded s)\<rparr>)"
| claim_miss: "t \<in> loaded s \<Longrightarrow> claim_take (mailbox s) = (None, m) \<Longrightarrow>
    irq_step s (s\<lparr>mailbox := m, loaded := loaded s - {t}\<rparr>)"
| claim_hit: "t \<in> loaded s \<Longrightarrow> claim_take (mailbox s) = (Some g, m) \<Longrightarrow>
    irq_step s (s\<lparr>mailbox := m, loaded := loaded s - {t}, history := Claimed g # history s\<rparr>)"

inductive irq_reach :: "irq_sys \<Rightarrow> bool" where
  start: "irq_reach irq_new"
| step: "irq_reach s \<Longrightarrow> irq_step s t \<Longrightarrow> irq_reach t"

section \<open>The abstract reading of a history\<close>

fun event_generation :: "irq_event \<Rightarrow> u64" where
  "event_generation (Published g) = g"
| "event_generation (Advanced g) = g"
| "event_generation (Claimed g) = g"

text \<open>The newest generation named so far, zero before any.\<close>

fun watermark :: "irq_event list \<Rightarrow> u64" where
  "watermark [] = 0"
| "watermark (e # es) = max (event_generation e) (watermark es)"

text \<open>Readiness of one generation: published after its last claim.\<close>

fun pending :: "u64 \<Rightarrow> irq_event list \<Rightarrow> bool" where
  "pending g [] = False"
| "pending g (Published h # es) = (h = g \<or> pending g es)"
| "pending g (Advanced h # es) = pending g es"
| "pending g (Claimed h # es) = (h \<noteq> g \<and> pending g es)"

definition expected_claim :: "irq_event list \<Rightarrow> u64 option" where
  "expected_claim es = (if pending (watermark es) es then Some (watermark es) else None)"

section \<open>Reading the word\<close>

lemma max_route: "unat MAX_ROUTE_GENERATION = 2 ^ 63 - 1"
  by (simp add: MAX_ROUTE_GENERATION_def unat_drop_bit_eq drop_bit_eq_div unat_max_word)

lemma max_route_value: "MAX_ROUTE_GENERATION = 9223372036854775807"
  by (simp add: word_unat_eq_iff max_route)

lemma unat_double: "unat (g :: u64) < 2 ^ 63 \<Longrightarrow> unat (push_bit 1 g) = 2 * unat g"
  by (simp add: push_bit_eq_mult unat_word_ariths)

lemma unat_ready:
  assumes "unat (g :: u64) < 2 ^ 63"
  shows "unat (push_bit 1 g OR 1) = 2 * unat g + 1"
proof -
  have "push_bit 1 g OR 1 = push_bit 1 g + 1" by (simp add: or_one_eq)
  moreover have "unat (push_bit 1 g + 1) = (2 * unat g + 1) mod 2 ^ 64"
    using unat_double [OF assms] by (simp add: unat_word_ariths)
  ultimately show ?thesis using assms by simp
qed

lemma unat_half [simp]: "unat (drop_bit (Suc 0) s :: u64) = unat s div 2"
  by (simp add: drop_bit_eq_div unat_div)

lemma unat_cleared [simp]: "unat (s AND - 2 :: u64) = 2 * (unat s div 2)"
proof -
  have "s AND NOT 1 = push_bit 1 (drop_bit 1 s)"
    by (rule bit_word_eqI)
      (unfold bit_and_iff bit_not_iff bit_push_bit_iff bit_drop_bit_eq, auto simp: bit_1_iff)
  moreover have "unat (drop_bit 1 s) = unat s div 2" by simp
  moreover have "unat s div 2 < 2 ^ 63" using unat_u64_less [of s] by simp
  ultimately show ?thesis using unat_double [of "drop_bit 1 s"] by (simp only: not_one_eq)
qed

lemma ready_bit: "s AND 1 \<noteq> (0 :: u64) \<longleftrightarrow> odd (unat s)"
  by (simp add: and_one_eq unat_mod word_unat_eq_iff odd_iff_mod_2_eq_one unat_word_ariths
      flip: even_iff_mod_2_eq_zero)

text \<open>The mailbox as a number: twice the watermark, plus one while readiness is pending.\<close>

lemma publish_reading:
  assumes "publish s g = (True, m)"
  shows "0 < unat g" "unat g < 2 ^ 63 - 1" "unat m = max (unat s) (2 * unat g + 1)"
proof -
  from assms have g: "g \<noteq> 0" "\<not> MAX_ROUTE_GENERATION \<le> g" and m: "m = max s (push_bit 1 g OR 1)"
    by (auto simp: publish_def split: if_splits)
  from g show "0 < unat g" "unat g < 2 ^ 63 - 1"
    by (auto simp: word_le_nat_alt max_route unat_gt_0 simp del: One_nat_def)
  then show "unat m = max (unat s) (2 * unat g + 1)"
    using unat_ready [of g] by (simp add: m max_def word_le_nat_alt)
qed

lemma advance_reading:
  assumes "advance s g = Some m"
  shows "0 < unat g" "unat g \<le> 2 ^ 63 - 1" "unat m = max (unat s) (2 * unat g)"
proof -
  from assms have g: "0 < g" "g \<le> MAX_ROUTE_GENERATION" and m: "m = max s (push_bit 1 g)"
    by (auto simp: advance_def split: if_splits)
  from g show "0 < unat g" "unat g \<le> 2 ^ 63 - 1"
    by (auto simp: word_le_nat_alt word_less_nat_alt max_route simp del: One_nat_def)
  then have "unat (push_bit 1 g) = 2 * unat g" by (intro unat_double) simp
  then show "unat m = max (unat s) (2 * unat g)"
    by (auto simp: m max_def word_le_nat_alt)
qed

lemma claim_take_reading:
  "claim_take s = (if odd (unat s) then Some (drop_bit 1 s) else None, s AND NOT 1)"
  "unat (drop_bit 1 s) = unat s div 2"
  using ready_bit [of s] by (auto simp: claim_take_def)

section \<open>The mailbox implements the history\<close>

definition irq_inv :: "irq_sys \<Rightarrow> bool" where
  "irq_inv s \<longleftrightarrow>
     unat (mailbox s) = 2 * unat (watermark (history s)) +
       of_bool (pending (watermark (history s)) (history s))"

lemma pending_watermark: "pending g es \<Longrightarrow> unat g \<le> unat (watermark es)"
  by (induction g es rule: pending.induct) (auto simp: max_def word_le_nat_alt)

lemma unat_max: "unat (max a b) = max (unat a) (unat b)"
  by (simp add: max_def word_le_nat_alt)

lemma irq_inv_step: "irq_step s t \<Longrightarrow> irq_inv s \<Longrightarrow> irq_inv t"
proof (induction rule: irq_step.induct)
  case (publish_ok s g m)
  let ?w = "watermark (history s)" and ?es = "history s"
  note r = publish_reading [OF publish_ok.hyps]
  show ?case
  proof (cases "unat g < unat ?w")
    case True
    then have "max g ?w = ?w" "g \<noteq> ?w" by (auto simp: max_def word_le_nat_alt)
    with True r publish_ok.prems show ?thesis by (auto simp: irq_inv_def)
  next
    case False
    then have "max g ?w = g" by (auto simp: max_def word_le_nat_alt word_unat_eq_iff)
    with False r publish_ok.prems show ?thesis by (auto simp: irq_inv_def of_bool_def)
  qed
next
  case (advance_ok s g m)
  let ?w = "watermark (history s)" and ?es = "history s"
  note r = advance_reading [OF advance_ok.hyps]
  show ?case
  proof (cases "unat g \<le> unat ?w")
    case True
    then have "max g ?w = ?w" by (auto simp: max_def word_le_nat_alt word_unat_eq_iff)
    with True r advance_ok.prems show ?thesis by (auto simp: irq_inv_def)
  next
    case False
    then have "max g ?w = g" "\<not> pending g ?es"
      using pending_watermark [of g ?es] by (auto simp: max_def word_le_nat_alt)
    with False r advance_ok.prems show ?thesis by (auto simp: irq_inv_def of_bool_def split: if_splits)
  qed
next
  case (publish_malformed s g m)
  then show ?case by (auto simp: publish_def irq_inv_def split: if_splits)
next
  case (claim_miss t s m)
  then have "even (unat (mailbox s))" "m = mailbox s AND NOT 1"
    by (auto simp: claim_take_reading(1) split: if_splits)
  with claim_miss.prems show ?case by (auto simp: irq_inv_def of_bool_def split: if_splits)
next
  case (claim_hit t s g m)
  let ?w = "watermark (history s)"
  from claim_hit have o: "odd (unat (mailbox s))" "m = mailbox s AND NOT 1" "g = drop_bit 1 (mailbox s)"
    by (auto simp: claim_take_reading(1) split: if_splits)
  with claim_hit.prems have "unat g = unat ?w"
    by (auto simp: irq_inv_def claim_take_reading(2) of_bool_def split: if_splits)
  then have "g = ?w" by (simp add: word_unat_eq_iff)
  with o claim_hit.prems show ?case
    by (auto simp: irq_inv_def of_bool_def split: if_splits)
qed (auto simp: irq_inv_def)

lemma irq_reach_inv: "irq_reach s \<Longrightarrow> irq_inv s"
proof (induction rule: irq_reach.induct)
  case start
  show ?case by (simp add: irq_inv_def irq_new_def)
next
  case (step s t)
  then show ?case by (blast intro: irq_inv_step)
qed

lemma irq_claims_counted:
  "irq_step s t \<Longrightarrow> irq_inv s \<Longrightarrow>
   count_list (history s) (Claimed g) + of_bool (pending g (history s)) \<le> count_list (history s) (Published g) \<Longrightarrow>
   count_list (history t) (Claimed g) + of_bool (pending g (history t)) \<le> count_list (history t) (Published g)"
proof (induction rule: irq_step.induct)
  case (claim_hit t s h m)
  let ?w = "watermark (history s)"
  from claim_hit have o: "odd (unat (mailbox s))" "h = drop_bit 1 (mailbox s)"
    by (auto simp: claim_take_reading(1) split: if_splits)
  with claim_hit.prems(1) have "unat h = unat ?w" "pending ?w (history s)"
    by (auto simp: irq_inv_def of_bool_def split: if_splits)
  then have "h = ?w" by (simp add: word_unat_eq_iff)
  with \<open>pending ?w (history s)\<close> have "pending h (history s)" by simp
  with claim_hit.prems(2) show ?case by (auto simp: of_bool_def split: if_splits)
qed (auto simp: of_bool_def split: if_splits)

section \<open>Properties\<close>

text \<open>
  (C22) In every interleaving of publishers, route managers and claimers, a claim at the
  mailbox returns exactly what the event history calls for: the newest generation named so
  far when it was published after its last claim, and nothing otherwise. So a wake is never
  lost, a retired or superseded generation is never resurrected by a late publisher, and no
  generation is claimed more often than it was published.
\<close>

theorem irq_claim_exact:
  assumes "irq_reach s"
  shows "fst (claim (mailbox s)) = expected_claim (history s) \<and>
     (\<forall>g. count_list (history s) (Claimed g) \<le> count_list (history s) (Published g))"
proof
  let ?w = "watermark (history s)"
  have inv: "unat (mailbox s) = 2 * unat ?w + of_bool (pending ?w (history s))"
    using irq_reach_inv [OF assms] by (simp add: irq_inv_def)
  have half: "drop_bit 1 (mailbox s) = ?w"
    by (rule word_unat_eq_iff [THEN iffD2]) (simp add: inv)
  show "fst (claim (mailbox s)) = expected_claim (history s)"
  proof (cases "pending ?w (history s)")
    case True
    then have "mailbox s AND 1 \<noteq> 0" unfolding ready_bit inv by simp
    with True show ?thesis
      unfolding claim_def claim_load_def claim_take_def half expected_claim_def by simp
  next
    case False
    then have "\<not> mailbox s AND 1 \<noteq> 0" unfolding ready_bit inv by simp
    with False show ?thesis unfolding claim_def claim_load_def expected_claim_def by simp
  qed
  have "count_list (history s) (Claimed g) + of_bool (pending g (history s)) \<le> count_list (history s) (Published g)" for g
    using assms
  proof (induction rule: irq_reach.induct)
    case start
    show ?case by (simp add: irq_new_def)
  next
    case (step s t)
    show ?case
      by (rule irq_claims_counted [OF step.hyps(2) irq_reach_inv [OF step.hyps(1)] step.IH])
  qed
  then show "\<forall>g. count_list (history s) (Claimed g) \<le> count_list (history s) (Published g)"
    by (auto intro: add_leD1)
qed

theorem irq_claim_exact_witness:
  "\<exists>s. irq_reach s \<and> history s = [Published 1, Advanced 2, Published 1] \<and>
     fst (claim (mailbox s)) = expected_claim (history s) \<and> expected_claim (history s) = None"
proof -
  have ops: "publish 0 1 = (True, 3)" "advance 3 2 = Some 4" "publish 4 1 = (True, 4)"
    by code_simp+
  have 1: "irq_reach (irq_new\<lparr>mailbox := 3, history := [Published 1]\<rparr>)"
    using irq_reach.step [OF irq_reach.start irq_step.publish_ok [of irq_new 1 3]] ops(1)
    by (simp add: irq_new_def)
  have 2: "irq_reach (irq_new\<lparr>mailbox := 4, history := [Advanced 2, Published 1]\<rparr>)"
    using irq_reach.step [OF 1 irq_step.advance_ok [of "irq_new\<lparr>mailbox := 3, history := [Published 1]\<rparr>" 2 4]] ops(2)
    by (simp add: irq_new_def)
  have 3: "irq_reach (irq_new\<lparr>mailbox := 4, history := [Published 1, Advanced 2, Published 1]\<rparr>)"
    using irq_reach.step [OF 2 irq_step.publish_ok [of "irq_new\<lparr>mailbox := 4, history := [Advanced 2, Published 1]\<rparr>" 1 4]] ops(3)
    by (simp add: irq_new_def)
  show ?thesis
    using 3 irq_claim_exact [OF 3]
    by (intro exI [of _ "irq_new\<lparr>mailbox := 4, history := [Published 1, Advanced 2, Published 1]\<rparr>"])
      (simp add: expected_claim_def)
qed

end
