(* ===== verification/Shootdown.thy ===== *)
theory Shootdown
  imports Prelude
begin

text \<open>
  \<^verbatim>\<open>crates/charlotte-lifecycle/src/shootdown.rs\<close>: the epoch protocol of TLB shootdowns. The
  methods are modelled on the atomic words they touch; the step relation then interleaves
  them at their atomic accesses: an initiator acquires the coordinator, publishes an epoch
  and scans the acknowledgements one by one, while the handlers on every target capture
  the requested epoch, invalidate and acknowledge.
\<close>

section \<open>The coordinator and its acknowledgements\<close>

datatype begin_error = Busy | Exhausted

record shootdown =
  owned :: bool
  requested :: u64

definition sd_new :: shootdown where
  "sd_new = \<lparr>owned = False, requested = 0\<rparr>"

text \<open>\<open>try_begin\<close> in its two atomic parts: taking ownership, and publishing the epoch.\<close>

definition sd_acquire :: "shootdown \<Rightarrow> (begin_error + unit) \<times> shootdown" where
  "sd_acquire s = (if owned s then (Inl Busy, s) else (Inr (), s\<lparr>owned := True\<rparr>))"

definition sd_publish :: "shootdown \<Rightarrow> (begin_error + u64) \<times> shootdown" where
  "sd_publish s =
     (case checked_add (requested s) 1 of
        None \<Rightarrow> (Inl Exhausted, s\<lparr>owned := False\<rparr>)
      | Some epoch \<Rightarrow> (Inr epoch, s\<lparr>requested := epoch\<rparr>))"

definition try_begin :: "shootdown \<Rightarrow> (begin_error + u64) \<times> shootdown" where
  "try_begin s = (case sd_acquire s of (Inl e, s') \<Rightarrow> (Inl e, s') | (Inr _, s') \<Rightarrow> sd_publish s')"

definition complete :: "u64 \<Rightarrow> u64 \<Rightarrow> u64" where
  "complete ack epoch = max ack epoch"

definition attempt_drop :: "shootdown \<Rightarrow> shootdown" where
  "attempt_drop s = s\<lparr>owned := False\<rparr>"

fun first_incomplete_from :: "nat \<Rightarrow> u64 \<Rightarrow> u64 list \<Rightarrow> nat option" where
  "first_incomplete_from i epoch [] = None"
| "first_incomplete_from i epoch (ack # acks) =
     (if ack < epoch then Some i else first_incomplete_from (Suc i) epoch acks)"

definition first_incomplete :: "u64 \<Rightarrow> u64 list \<Rightarrow> nat option" where
  "first_incomplete epoch acks = first_incomplete_from 0 epoch acks"

definition completed :: "u64 \<Rightarrow> u64 list \<Rightarrow> bool" where
  "completed epoch acks \<longleftrightarrow> first_incomplete epoch acks = None"

datatype observation = Complete | Pending | TimedOut nat

text \<open>\<open>observe\<close> samples the acknowledgements, the deadline, and the acknowledgements again.\<close>

definition observe :: "u64 \<Rightarrow> u64 list \<Rightarrow> bool \<Rightarrow> u64 list \<Rightarrow> observation" where
  "observe epoch acks expired acks' =
     (if completed epoch acks then Complete
      else if expired then
        (case first_incomplete epoch acks' of Some target \<Rightarrow> TimedOut target | None \<Rightarrow> Complete)
      else Pending)"

lemma first_incomplete_from_None:
  "first_incomplete_from i epoch acks = None \<longleftrightarrow> (\<forall>a \<in> set acks. epoch \<le> a)"
  by (induction i epoch acks rule: first_incomplete_from.induct) auto

lemma first_incomplete_from_Some:
  "first_incomplete_from i epoch acks = Some t \<Longrightarrow>
   i \<le> t \<and> t - i < length acks \<and> acks ! (t - i) < epoch \<and> (\<forall>j < t - i. epoch \<le> acks ! j)"
proof (induction i epoch acks rule: first_incomplete_from.induct)
  case (2 i epoch ack acks)
  show ?case
  proof (cases "ack < epoch")
    case True
    with 2 show ?thesis by simp
  next
    case False
    with 2 have ih: "Suc i \<le> t" "t - Suc i < length acks" "acks ! (t - Suc i) < epoch"
      "\<forall>j < t - Suc i. epoch \<le> acks ! j" by auto
    from ih(1) have t: "t - i = Suc (t - Suc i)" by simp
    from ih False show ?thesis by (auto simp: t nth_Cons less_Suc_eq_0_disj)
  qed
qed simp

lemma completed_iff: "completed epoch acks \<longleftrightarrow> (\<forall>a \<in> set acks. epoch \<le> a)"
  by (simp add: completed_def first_incomplete_def first_incomplete_from_None)

section \<open>Interleaved executions\<close>

datatype sd_event = Published u64 | Flushed nat

datatype sd_phase = Idle | Acquired | Holding u64 | Scanning u64 nat | Finished u64

text \<open>A handler run: the target, the epoch captured from the request, whether it has flushed.\<close>

type_synonym handler = "nat \<times> u64 \<times> bool"

record sd_sys =
  coord :: shootdown
  acks :: "u64 list"
  phase :: sd_phase
  handlers :: "handler list"
  trace :: "sd_event list" \<comment> \<open>newest first\<close>

definition sd_start :: "nat \<Rightarrow> sd_sys" where
  "sd_start n = \<lparr>coord = sd_new, acks = replicate n 0, phase = Idle, handlers = [], trace = []\<rparr>"

inductive sd_step :: "sd_sys \<Rightarrow> sd_sys \<Rightarrow> bool" where
  begin_busy: "sd_acquire (coord s) = (Inl e, c) \<Longrightarrow> sd_step s (s\<lparr>coord := c\<rparr>)"
| begin_acquire: "sd_acquire (coord s) = (Inr u, c) \<Longrightarrow>
    sd_step s (s\<lparr>coord := c, phase := Acquired\<rparr>)"
| begin_exhausted: "phase s = Acquired \<Longrightarrow> sd_publish (coord s) = (Inl e, c) \<Longrightarrow>
    sd_step s (s\<lparr>coord := c, phase := Idle\<rparr>)"
| begin_publish: "phase s = Acquired \<Longrightarrow> sd_publish (coord s) = (Inr epoch, c) \<Longrightarrow>
    sd_step s (s\<lparr>coord := c, phase := Holding epoch, trace := Published epoch # trace s\<rparr>)"
| scan_start: "phase s = Holding epoch \<Longrightarrow> sd_step s (s\<lparr>phase := Scanning epoch 0\<rparr>)"
| scan_next: "phase s = Scanning epoch i \<Longrightarrow> i < length (acks s) \<Longrightarrow> \<not> acks s ! i < epoch \<Longrightarrow>
    sd_step s (s\<lparr>phase := Scanning epoch (Suc i)\<rparr>)"
| scan_missing: "phase s = Scanning epoch i \<Longrightarrow> i < length (acks s) \<Longrightarrow> acks s ! i < epoch \<Longrightarrow>
    sd_step s (s\<lparr>phase := Holding epoch\<rparr>)"
| scan_end: "phase s = Scanning epoch (length (acks s)) \<Longrightarrow> sd_step s (s\<lparr>phase := Finished epoch\<rparr>)"
| give_up: "phase s = Holding epoch \<or> phase s = Finished epoch \<Longrightarrow>
    sd_step s (s\<lparr>coord := attempt_drop (coord s), phase := Idle\<rparr>)"
| capture: "t < length (acks s) \<Longrightarrow>
    sd_step s (s\<lparr>handlers := (t, requested (coord s), False) # handlers s\<rparr>)"
| flush: "(t, e, False) \<in> set (handlers s) \<Longrightarrow>
    sd_step s (s\<lparr>handlers := (t, e, True) # remove1 (t, e, False) (handlers s),
                 trace := Flushed t # trace s\<rparr>)"
| acknowledge: "(t, e, True) \<in> set (handlers s) \<Longrightarrow>
    sd_step s (s\<lparr>handlers := remove1 (t, e, True) (handlers s),
                 acks := (acks s)[t := complete (acks s ! t) e]\<rparr>)"

inductive sd_reach :: "nat \<Rightarrow> sd_sys \<Rightarrow> bool" for n where
  start: "sd_reach n (sd_start n)"
| step: "sd_reach n s \<Longrightarrow> sd_step s t \<Longrightarrow> sd_reach n t"

text \<open>Target \<open>t\<close> has invalidated since epoch \<open>e\<close> was published.\<close>

definition flushed_since :: "u64 \<Rightarrow> nat \<Rightarrow> sd_event list \<Rightarrow> bool" where
  "flushed_since e t tr \<longleftrightarrow>
     Published e \<in> set tr \<and> Flushed t \<in> set (takeWhile (\<lambda>ev. ev \<noteq> Published e) tr)"

lemma flushed_since_Cons:
  "flushed_since e t tr \<Longrightarrow> ev \<noteq> Published e \<Longrightarrow> flushed_since e t (ev # tr)"
  by (auto simp: flushed_since_def)

lemma flushed_since_now: "Published e \<in> set tr \<Longrightarrow> flushed_since e t (Flushed t # tr)"
  by (simp add: flushed_since_def)

section \<open>The invariant\<close>

fun phase_ok :: "sd_sys \<Rightarrow> sd_phase \<Rightarrow> bool" where
  "phase_ok s Idle = (\<not> owned (coord s))"
| "phase_ok s Acquired = owned (coord s)"
| "phase_ok s (Holding e) = (owned (coord s) \<and> e = requested (coord s) \<and> e \<noteq> 0)"
| "phase_ok s (Scanning e i) = (owned (coord s) \<and> e = requested (coord s) \<and> e \<noteq> 0 \<and>
     (\<forall>t < i. flushed_since e t (trace s)))"
| "phase_ok s (Finished e) = (owned (coord s) \<and> e = requested (coord s) \<and> e \<noteq> 0 \<and>
     (\<forall>t < length (acks s). flushed_since e t (trace s)))"

definition epoch_ok :: "sd_sys \<Rightarrow> nat \<Rightarrow> u64 \<Rightarrow> bool" where
  "epoch_ok s t e \<longleftrightarrow> (e \<noteq> 0 \<longrightarrow> flushed_since e t (trace s))"

definition sd_inv :: "nat \<Rightarrow> sd_sys \<Rightarrow> bool" where
  "sd_inv n s \<longleftrightarrow> length (acks s) = n \<and> phase_ok s (phase s) \<and>
     (\<forall>e. Published e \<in> set (trace s) \<longleftrightarrow> e \<noteq> 0 \<and> e \<le> requested (coord s)) \<and>
     (\<forall>t < n. acks s ! t \<le> requested (coord s) \<and> epoch_ok s t (acks s ! t)) \<and>
     (\<forall>t e b. (t, e, b) \<in> set (handlers s) \<longrightarrow>
        t < n \<and> e \<le> requested (coord s) \<and> (b \<longrightarrow> epoch_ok s t e))"

lemma sd_inv_unfold:
  assumes "sd_inv n s"
  shows "length (acks s) = n" "phase_ok s (phase s)"
    "Published e \<in> set (trace s) \<longleftrightarrow> e \<noteq> 0 \<and> e \<le> requested (coord s)"
    "t < n \<Longrightarrow> acks s ! t \<le> requested (coord s)" "t < n \<Longrightarrow> epoch_ok s t (acks s ! t)"
    "(t, e, b) \<in> set (handlers s) \<Longrightarrow> t < n \<and> e \<le> requested (coord s)"
    "(t, e, True) \<in> set (handlers s) \<Longrightarrow> epoch_ok s t e"
  using assms unfolding sd_inv_def by blast+

lemma sd_inv_start: "sd_inv n (sd_start n)"
  by (simp add: sd_inv_def sd_start_def sd_new_def epoch_ok_def)

lemma sd_publish_ok:
  assumes "sd_publish c = (Inr e, c')"
  shows "c' = c\<lparr>requested := e\<rparr>" "unat e = Suc (unat (requested c))"
  using assms checked_add_SomeD [of "requested c" 1 e]
  by (auto simp: sd_publish_def split: option.splits)

lemma sd_publish_err: "sd_publish c = (Inl e, c') \<Longrightarrow> c' = c\<lparr>owned := False\<rparr>"
  by (auto simp: sd_publish_def split: option.splits)

lemma sd_acquire_cases:
  "sd_acquire c = (Inl e, c') \<Longrightarrow> c' = c"
  "sd_acquire c = (Inr u, c') \<Longrightarrow> \<not> owned c \<and> c' = c\<lparr>owned := True\<rparr>"
  by (auto simp: sd_acquire_def split: if_splits)

lemma sd_inv_publish:
  assumes inv: "sd_inv n s" and ph: "phase s = Acquired"
    and pub: "sd_publish (coord s) = (Inr e, c)"
  shows "sd_inv n (s\<lparr>coord := c, phase := Holding e, trace := Published e # trace s\<rparr>)"
    (is "sd_inv n ?s")
proof -
  note c = sd_publish_ok [OF pub]
  let ?r = "requested (coord s)"
  have less: "\<And>x. x \<le> ?r \<Longrightarrow> x \<noteq> e \<and> x \<le> e"
    using c(2) by (auto simp: word_le_nat_alt)
  have upto: "\<And>x. x \<le> e \<longleftrightarrow> x = e \<or> x \<le> ?r"
    using c(2) by (auto simp: word_le_nat_alt word_unat_eq_iff)
  have e0: "e \<noteq> 0" using c(2) by auto
  have keep: "epoch_ok ?s t x" if "epoch_ok s t x" "x \<le> ?r" for t x
    using less [OF that(2)] that(1) by (auto simp: epoch_ok_def intro: flushed_since_Cons)
  from inv have old: "length (acks s) = n" "owned (coord s)"
    "\<And>x. Published x \<in> set (trace s) \<longleftrightarrow> x \<noteq> 0 \<and> x \<le> ?r"
    "\<And>t. t < n \<Longrightarrow> acks s ! t \<le> ?r \<and> epoch_ok s t (acks s ! t)"
    "\<And>t x b. (t, x, b) \<in> set (handlers s) \<Longrightarrow> t < n \<and> x \<le> ?r \<and> (b \<longrightarrow> epoch_ok s t x)"
    using ph by (auto simp: sd_inv_def)
  have "phase_ok ?s (phase ?s)" using old(2) e0 by (simp add: c(1))
  moreover have "\<forall>x. Published x \<in> set (trace ?s) \<longleftrightarrow> x \<noteq> 0 \<and> x \<le> requested (coord ?s)"
    using old(3) e0 by (auto simp: c(1) upto)
  moreover have "\<forall>t < n. acks ?s ! t \<le> requested (coord ?s) \<and> epoch_ok ?s t (acks ?s ! t)"
    using old(4) keep by (simp add: c(1) upto)
  moreover have "\<forall>t x b. (t, x, b) \<in> set (handlers ?s) \<longrightarrow>
      t < n \<and> x \<le> requested (coord ?s) \<and> (b \<longrightarrow> epoch_ok ?s t x)"
    using old(5) keep by (simp add: c(1) upto)
  moreover have "length (acks ?s) = n" using old(1) by simp
  ultimately show ?thesis unfolding sd_inv_def by (intro conjI)
qed

lemma sd_inv_flush:
  assumes inv: "sd_inv n s" and h: "(t, e, False) \<in> set (handlers s)"
  shows "sd_inv n (s\<lparr>handlers := (t, e, True) # remove1 (t, e, False) (handlers s),
           trace := Flushed t # trace s\<rparr>)" (is "sd_inv n ?s")
proof -
  have keep: "epoch_ok s u x \<Longrightarrow> epoch_ok ?s u x" for u x
    by (auto simp: epoch_ok_def intro: flushed_since_Cons)
  have keep': "flushed_since x u (trace s) \<Longrightarrow> flushed_since x u (Flushed t # trace s)" for u x
    by (auto intro: flushed_since_Cons)
  note old = sd_inv_unfold [OF inv]
  from old(6) [OF h] have te: "t < n" "e \<le> requested (coord s)" by auto
  then have now: "epoch_ok ?s t e"
    by (simp add: epoch_ok_def old(3) flushed_since_now)
  have ph: "phase_ok ?s (phase s)"
    using old(2) keep' by (cases "phase s") simp_all
  have "u < n \<and> x \<le> requested (coord s) \<and> (b \<longrightarrow> epoch_ok ?s u x)"
    if "(u, x, b) \<in> set (handlers ?s)" for u x b
  proof (cases "(u, x, b) = (t, e, True)")
    case True
    with te now show ?thesis by simp
  next
    case False
    with that have h': "(u, x, b) \<in> set (handlers s)"
      using set_remove1_subset [of "(t, e, False)" "handlers s"] by auto
    with old(6) [OF h'] old(7) [of u x] keep [of u x] show ?thesis by (cases b) simp_all
  qed
  then show ?thesis
    using old(1,4,5) keep ph unfolding sd_inv_def by (simp add: old(3))
qed

lemma sd_inv_ack:
  assumes inv: "sd_inv n s" and h: "(t, e, True) \<in> set (handlers s)"
  shows "sd_inv n (s\<lparr>handlers := remove1 (t, e, True) (handlers s),
           acks := (acks s)[t := complete (acks s ! t) e]\<rparr>)" (is "sd_inv n ?s")
proof -
  have same: "epoch_ok ?s = epoch_ok s" by (intro ext) (simp add: epoch_ok_def)
  note old = sd_inv_unfold [OF inv]
  from old(6) [OF h] old(7) [OF h] have te: "t < n" "e \<le> requested (coord s)" "epoch_ok s t e" by auto
  have ph: "phase_ok ?s (phase s)" using old(1,2) by (cases "phase s") simp_all
  have "u < n \<and> x \<le> requested (coord s) \<and> (b \<longrightarrow> epoch_ok s u x)"
    if "(u, x, b) \<in> set (handlers ?s)" for u x b
  proof -
    from that have h': "(u, x, b) \<in> set (handlers s)"
      using set_remove1_subset [of "(t, e, True)" "handlers s"] by auto
    from old(6) [OF h'] old(7) [of u x] h' show ?thesis by (cases b) simp_all
  qed
  then show ?thesis
    using old(1,4,5) te ph unfolding sd_inv_def same
    by (simp add: old(3) complete_def max_def nth_list_update)
qed

lemma sd_inv_scan:
  assumes inv: "sd_inv n s" and ph: "phase s = Scanning e i" and i: "i < length (acks s)"
    and ack: "\<not> acks s ! i < e"
  shows "sd_inv n (s\<lparr>phase := Scanning e (Suc i)\<rparr>)"
proof -
  note old = sd_inv_unfold [OF inv]
  from old(2) ph have e: "e = requested (coord s)" "e \<noteq> 0" by auto
  with old(4,5) [of i] i old(1) ack have "flushed_since e i (trace s)" by (auto simp: epoch_ok_def)
  with inv ph show ?thesis by (auto simp: sd_inv_def epoch_ok_def less_Suc_eq)
qed

lemma sd_inv_step: "sd_step s t \<Longrightarrow> sd_inv n s \<Longrightarrow> sd_inv n t"
proof (induction rule: sd_step.induct)
  case (begin_busy s e c)
  then show ?case using sd_acquire_cases(1) [of "coord s" e c] by simp
next
  case (begin_acquire s u c)
  then show ?case using sd_acquire_cases(2) [of "coord s" u c] by (simp add: sd_inv_def epoch_ok_def)
next
  case (begin_exhausted s e c)
  then show ?case using sd_publish_err [of "coord s" e c] by (simp add: sd_inv_def epoch_ok_def)
next
  case (give_up s e)
  then show ?case by (simp add: sd_inv_def epoch_ok_def attempt_drop_def)
next
  case (capture t s)
  have "phase_ok (s\<lparr>handlers := h\<rparr>) (phase s) = phase_ok s (phase s)" for h by (cases "phase s") auto
  with capture show ?case by (auto simp: sd_inv_def epoch_ok_def)
next
  case (scan_start s e)
  then show ?case by (auto simp add: sd_inv_def epoch_ok_def)
next
  case (scan_missing s e i)
  then show ?case by (auto simp add: sd_inv_def epoch_ok_def)
next
  case (scan_end s e)
  then show ?case by (auto simp add: sd_inv_def epoch_ok_def)
next
  case (begin_publish s e c)
  show ?case by (rule sd_inv_publish) fact+
next
  case (scan_next s e i)
  show ?case by (rule sd_inv_scan) fact+
next
  case (flush t e s)
  show ?case by (rule sd_inv_flush) fact+
next
  case (acknowledge t e s)
  show ?case by (rule sd_inv_ack) fact+
qed

lemma sd_reach_inv: "sd_reach n s \<Longrightarrow> sd_inv n s"
  by (induction rule: sd_reach.induct) (auto intro: sd_inv_start sd_inv_step)

section \<open>Properties\<close>



text \<open>
  (C27) What \<open>observe\<close> answers: \<open>Complete\<close> only when one of its two samples has every target
  at or past the epoch, \<open>TimedOut\<close> only after the deadline and naming the first target that
  was still missing in the second sample, \<open>Pending\<close> otherwise.
\<close>

theorem observe_outcomes:
  "(observe epoch now expired later = Complete \<longrightarrow>
      (\<forall>a \<in> set now. epoch \<le> a) \<or> expired \<and> (\<forall>a \<in> set later. epoch \<le> a)) \<and>
   (observe epoch now expired later = Pending \<longleftrightarrow> \<not> expired \<and> (\<exists>a \<in> set now. a < epoch)) \<and>
   (\<forall>t. observe epoch now expired later = TimedOut t \<longrightarrow>
      expired \<and> (\<exists>a \<in> set now. a < epoch) \<and> t < length later \<and> later ! t < epoch \<and>
      (\<forall>j < t. epoch \<le> later ! j))"
  using first_incomplete_from_Some [of 0 epoch later]
  by (auto simp: observe_def completed_iff first_incomplete_def first_incomplete_from_None not_le
      split: option.splits if_splits)

theorem observe_outcomes_witness: "observe 2 [2, 1] True [2, 1] = TimedOut 1 \<and> [2, 1 :: u64] ! 1 < 2"
proof -
  have o: "observe 2 [2, 1] True [2, 1] = TimedOut 1"
    by (simp add: observe_def completed_def first_incomplete_def)
  with observe_outcomes [of 2 "[2, 1]" True "[2, 1]"] show ?thesis by blast
qed

end
