(* ===== verification/Authorization.thy ===== *)
theory Authorization
  imports Prelude
begin

text \<open>
  \<^verbatim>\<open>crates/charlotte-authorization/src/lib.rs\<close> without its wire module: identities, roles and
  rights, the bounded audit log, and the policy store with every transition. Transitions
  return the result next to the store they leave behind, so what a failed call changes is
  part of the model. The lemmas follow arbitrary sequences of calls.
\<close>

section \<open>Identities, roles and rights\<close>

type_synonym principal_id = u64

text \<open>An address-space slot and the generation of its occupant, ordered lexicographically.\<close>

type_synonym domain_identity = "u64 \<times> u64"

abbreviation asid :: "domain_identity \<Rightarrow> u64" where "asid \<equiv> fst"

abbreviation generation :: "domain_identity \<Rightarrow> u64" where "generation \<equiv> snd"

definition principal_new :: "u64 \<Rightarrow> principal_id option" where
  "principal_new raw = (if raw = 0 then None else Some raw)"

definition domain_new :: "u64 \<Rightarrow> u64 \<Rightarrow> domain_identity option" where
  "domain_new a g = (if a = 0 \<or> g = 0 then None else Some (a, g))"

type_synonym roles = u8

definition ROLES_NONE :: roles where "ROLES_NONE = 0"

definition POLICY_ADMIN :: roles where "POLICY_ADMIN = push_bit 0 1"

definition SERVICE_MANAGER :: roles where "SERVICE_MANAGER = push_bit 1 1"

definition roles_contains :: "roles \<Rightarrow> roles \<Rightarrow> bool" where
  "roles_contains self required \<longleftrightarrow> self AND required = required"

definition roles_from_bits :: "u32 \<Rightarrow> roles option" where
  "roles_from_bits bits =
     (if bits AND NOT (ucast (POLICY_ADMIN OR SERVICE_MANAGER)) = 0 then Some (ucast bits) else None)"

type_synonym rights = u32

definition RIGHTS_SEND :: rights where "RIGHTS_SEND = push_bit 0 1"

definition RIGHTS_CALL :: rights where "RIGHTS_CALL = push_bit 1 1"

definition RIGHTS_CLIENT :: rights where "RIGHTS_CLIENT = RIGHTS_SEND OR RIGHTS_CALL"

definition RIGHTS_NONE :: rights where "RIGHTS_NONE = 0"

definition rights_from_bits :: "u32 \<Rightarrow> rights option" where
  "rights_from_bits bits = (if bits AND NOT RIGHTS_CLIENT = 0 then Some bits else None)"

definition rights_is_empty :: "rights \<Rightarrow> bool" where
  "rights_is_empty self \<longleftrightarrow> self = 0"

definition rights_contains :: "rights \<Rightarrow> rights \<Rightarrow> bool" where
  "rights_contains self required \<longleftrightarrow> self AND required = required"

definition rights_intersection :: "rights \<Rightarrow> rights \<Rightarrow> rights" where
  "rights_intersection self other = self AND other"

section \<open>Records\<close>

type_synonym service_id = "u8 list"

type_synonym ticket_id = u64

record identity_record =
  id_principal :: principal_id
  id_roles :: roles

record policy_rule =
  allowed :: rights
  version :: u64

record service_binding =
  sb_generation :: u64
  ceiling :: rights
  active :: bool

definition MAX_SERVICE_GENERATION :: u64 where
  "MAX_SERVICE_GENERATION = 2 ^ 63 - 1"

record decision =
  d_principal :: principal_id
  d_service :: service_id
  d_service_generation :: u64
  d_policy_version :: u64
  d_rights :: rights

record authorized_grant =
  g_principal :: principal_id
  g_service_generation :: u64
  g_policy_version :: u64
  g_rights :: rights

datatype authorization_error =
  AuditSequenceExhausted | InvalidService | InvalidLimits | InvalidAuditCapacity
| IdentityCapacity | IdentityConflict | PolicyCapacity | ServiceCapacity | TicketCapacity
| UnknownIdentity | PolicyAdministratorRequired | ServiceManagerRequired | PolicyMissing
| ServiceMissing | ServiceInactive | EmptyRights | RightsDenied | PolicyVersionConflict
| PolicyVersionExhausted | ServiceGenerationExhausted | TicketIdExhausted | TicketMissing
| PrincipalMismatch | StalePolicy | StaleIdentity | StaleServiceGeneration

section \<open>The audit log\<close>

datatype audit_outcome = Issued | Denied authorization_error | DelegationFailed

record audit_record =
  au_sequence :: u64
  au_caller :: domain_identity
  au_principal :: "principal_id option"
  au_service :: service_id
  au_requested :: rights
  au_granted :: rights
  au_service_generation :: u64
  au_policy_version :: u64
  au_outcome :: audit_outcome

record audit_log =
  au_capacity :: usize
  next_sequence :: u64
  records :: "audit_record list" \<comment> \<open>front first\<close>

definition audit_new :: "usize \<Rightarrow> authorization_error + audit_log" where
  "audit_new capacity =
     (if capacity = 0 then Inl InvalidAuditCapacity
      else Inr \<lparr>au_capacity = capacity, next_sequence = 1, records = []\<rparr>)"

definition can_record :: "audit_log \<Rightarrow> bool" where
  "can_record l \<longleftrightarrow> next_sequence l \<noteq> - 1"

text \<open>The entry argument carries the eight arguments of \<open>record\<close>; its sequence is set here.\<close>

definition audit_record_entry ::
    "audit_log \<Rightarrow> audit_record \<Rightarrow> (authorization_error + u64) \<times> audit_log" where
  "audit_record_entry l entry =
     (if \<not> can_record l then (Inl AuditSequenceExhausted, l)
      else let sequence = next_sequence l;
               l1 = l\<lparr>next_sequence := sequence + 1\<rparr>;
               l2 = (if length (records l1) = unat (au_capacity l1)
                     then l1\<lparr>records := tl (records l1)\<rparr> else l1)
           in (Inr sequence, l2\<lparr>records := records l2 @ [entry\<lparr>au_sequence := sequence\<rparr>]\<rparr>))"

section \<open>The policy store\<close>

record policy_limits =
  lim_identities :: usize
  lim_policies :: usize
  lim_services :: usize
  lim_tickets :: usize
  lim_service_id_bytes :: usize

definition LIMITS_DEFAULT :: policy_limits where
  "LIMITS_DEFAULT =
     \<lparr>lim_identities = 1024, lim_policies = 4096, lim_services = 1024, lim_tickets = 1024,
      lim_service_id_bytes = 256\<rparr>"

definition limits_valid :: "policy_limits \<Rightarrow> bool" where
  "limits_valid l \<longleftrightarrow> lim_identities l > 0 \<and> lim_policies l > 0 \<and> lim_services l > 0 \<and>
     lim_tickets l > 0 \<and> lim_service_id_bytes l > 0"

record policy_store =
  limits :: policy_limits
  identities :: "(domain_identity, identity_record) bmap"
  policies :: "(principal_id \<times> service_id, policy_rule) bmap"
  services :: "(service_id, service_binding) bmap"
  tickets :: "(ticket_id, decision) bmap"
  next_ticket :: u64

type_synonym 'a auth_result = "authorization_error + 'a"

definition store_new :: policy_store where
  "store_new = \<lparr>limits = LIMITS_DEFAULT, identities = bm_empty, policies = bm_empty,
     services = bm_empty, tickets = bm_empty, next_ticket = 1\<rparr>"

definition with_limits :: "policy_limits \<Rightarrow> policy_store auth_result" where
  "with_limits l =
     (if \<not> limits_valid l then Inl InvalidLimits
      else Inr \<lparr>limits = l, identities = bm_empty, policies = bm_empty,
        services = bm_empty, tickets = bm_empty, next_ticket = 1\<rparr>)"

fun min_by_key :: "('a \<Rightarrow> 'b::linorder) \<Rightarrow> 'a list \<Rightarrow> 'a option" where
  "min_by_key key [] = None"
| "min_by_key key (x # xs) = Some (foldl (\<lambda>m y. if key y < key m then y else m) x xs)"

definition provision_identity_from_supervisor ::
    "policy_store \<Rightarrow> domain_identity \<Rightarrow> principal_id \<Rightarrow> roles \<Rightarrow> unit auth_result \<times> policy_store" where
  "provision_identity_from_supervisor s identity princ roles =
     (case bm_get (identities s) identity of
        Some existing \<Rightarrow>
          if id_principal existing \<noteq> princ \<or> id_roles existing \<noteq> roles
          then (Inl IdentityConflict, s) else (Inr (), s)
      | None \<Rightarrow>
          if \<exists>known \<in> set (bm_keys (identities s)).
               asid known = asid identity \<and> generation known > generation identity
          then (Inl StaleIdentity, s)
          else
            let replaces_asid = (\<exists>known \<in> set (bm_keys (identities s)). asid known = asid identity);
                insert_new = (\<lambda>ids.
                  (Inr (), s\<lparr>identities :=
                     bm_insert identity \<lparr>id_principal = princ, id_roles = roles\<rparr>
                       (bm_retain (\<lambda>known _. asid known \<noteq> asid identity) ids)\<rparr>))
            in if \<not> replaces_asid \<and> bm_len (identities s) \<ge> unat (lim_identities (limits s))
               then (case min_by_key (\<lambda>known. (generation known, asid known)) (bm_keys (identities s)) of
                       None \<Rightarrow> (Inl IdentityCapacity, s)
                     | Some oldest \<Rightarrow> insert_new (bm_remove oldest (identities s)))
               else insert_new (identities s))"

definition remove_identity_from_supervisor ::
    "policy_store \<Rightarrow> domain_identity \<Rightarrow> bool \<times> policy_store" where
  "remove_identity_from_supervisor s identity =
     (bm_contains (identities s) identity, s\<lparr>identities := bm_remove identity (identities s)\<rparr>)"

definition principal_for :: "policy_store \<Rightarrow> domain_identity \<Rightarrow> principal_id option" where
  "principal_for s identity = map_option id_principal (bm_get (identities s) identity)"

definition roles_for :: "policy_store \<Rightarrow> domain_identity \<Rightarrow> roles option" where
  "roles_for s identity = map_option id_roles (bm_get (identities s) identity)"

definition require_role :: "policy_store \<Rightarrow> domain_identity \<Rightarrow> roles \<Rightarrow> principal_id auth_result" where
  "require_role s actor role =
     rbind (ok_or (bm_get (identities s) actor) UnknownIdentity) (\<lambda>record.
       if \<not> roles_contains (id_roles record) role
       then Inl (if role = POLICY_ADMIN then PolicyAdministratorRequired else ServiceManagerRequired)
       else Inr (id_principal record))"

definition active_binding :: "policy_store \<Rightarrow> service_id \<Rightarrow> service_binding auth_result" where
  "active_binding s service =
     rbind (ok_or (bm_get (services s) service) ServiceMissing) (\<lambda>binding.
       if \<not> active binding then Inl ServiceInactive else Inr binding)"

definition validate_service :: "policy_store \<Rightarrow> service_id \<Rightarrow> unit auth_result" where
  "validate_service s service =
     (if service = [] \<or> length service > unat (lim_service_id_bytes (limits s))
      then Inl InvalidService else Inr ())"

definition publish_service ::
    "policy_store \<Rightarrow> domain_identity \<Rightarrow> service_id \<Rightarrow> rights \<Rightarrow>
     service_binding auth_result \<times> policy_store" where
  "publish_service s actor service ceil = commit s (
     rbind (require_role s actor SERVICE_MANAGER) (\<lambda>_.
     rbind (validate_service s service) (\<lambda>_.
     if rights_is_empty ceil then Inl EmptyRights
     else if \<not> bm_contains (services s) service \<and> bm_len (services s) \<ge> unat (lim_services (limits s))
     then Inl ServiceCapacity
     else rbind
       (case bm_get (services s) service of
          Some binding \<Rightarrow>
            ok_or (case checked_add (sb_generation binding) 1 of
                     Some next \<Rightarrow> if next \<le> MAX_SERVICE_GENERATION then Some next else None
                   | None \<Rightarrow> None) ServiceGenerationExhausted
        | None \<Rightarrow> Inr 1) (\<lambda>gen.
       let binding = \<lparr>sb_generation = gen, ceiling = ceil, active = True\<rparr>
       in Inr (binding, s\<lparr>services := bm_insert service binding (services s)\<rparr>)))))"

definition unpublish_service ::
    "policy_store \<Rightarrow> domain_identity \<Rightarrow> service_id \<Rightarrow> u64 \<Rightarrow> unit auth_result \<times> policy_store" where
  "unpublish_service s actor service expected_generation = commit s (
     rbind (require_role s actor SERVICE_MANAGER) (\<lambda>_.
     rbind (ok_or (bm_get (services s) service) ServiceMissing) (\<lambda>binding.
     if \<not> active binding then Inl ServiceInactive
     else if sb_generation binding \<noteq> expected_generation then Inl StaleServiceGeneration
     else Inr ((), s\<lparr>services :=
            bm_insert service (binding\<lparr>active := False, ceiling := RIGHTS_NONE\<rparr>) (services s)\<rparr>))))"

definition set_policy ::
    "policy_store \<Rightarrow> domain_identity \<Rightarrow> principal_id \<Rightarrow> service_id \<Rightarrow> rights \<Rightarrow> u64 \<Rightarrow>
     policy_rule auth_result \<times> policy_store" where
  "set_policy s actor subject service allow expected_version = commit s (
     rbind (require_role s actor POLICY_ADMIN) (\<lambda>_.
     rbind (validate_service s service) (\<lambda>_.
     let key = (subject, service) in
     if \<not> bm_contains (policies s) key \<and> bm_len (policies s) \<ge> unat (lim_policies (limits s))
     then Inl PolicyCapacity
     else
       let current = (case bm_get (policies s) key of None \<Rightarrow> 0 | Some rule \<Rightarrow> version rule) in
       if current \<noteq> expected_version then Inl PolicyVersionConflict
       else rbind (ok_or (checked_add current 1) PolicyVersionExhausted) (\<lambda>v.
         let rule = \<lparr>allowed = allow, version = v\<rparr>
         in Inr (rule, s\<lparr>policies := bm_insert key rule (policies s)\<rparr>)))))"

definition issue_ticket ::
    "policy_store \<Rightarrow> domain_identity \<Rightarrow> service_id \<Rightarrow> rights \<Rightarrow> ticket_id auth_result \<times> policy_store" where
  "issue_ticket s caller service requested = commit s (
     if rights_is_empty requested then Inl EmptyRights
     else
     rbind (validate_service s service) (\<lambda>_.
     rbind (ok_or (principal_for s caller) UnknownIdentity) (\<lambda>princ.
     rbind (active_binding s service) (\<lambda>binding.
     rbind (ok_or (bm_get (policies s) (princ, service)) PolicyMissing) (\<lambda>rule.
     if \<not> rights_contains (rights_intersection (allowed rule) (ceiling binding)) requested
     then Inl RightsDenied
     else if bm_len (tickets s) \<ge> unat (lim_tickets (limits s)) then Inl TicketCapacity
     else
       let raw_ticket = next_ticket s in
       rbind (ok_or (checked_add raw_ticket 1) TicketIdExhausted) (\<lambda>n.
         Inr (raw_ticket, s\<lparr>next_ticket := n,
           tickets := bm_insert raw_ticket
             \<lparr>d_principal = princ, d_service = service,
              d_service_generation = sb_generation binding,
              d_policy_version = version rule, d_rights = requested\<rparr> (tickets s)\<rparr>)))))))"

definition redeem_decision ::
    "policy_store \<Rightarrow> domain_identity \<Rightarrow> decision \<Rightarrow> authorized_grant auth_result" where
  "redeem_decision s caller dec =
     rbind (ok_or (principal_for s caller) UnknownIdentity) (\<lambda>princ.
     if princ \<noteq> d_principal dec then Inl PrincipalMismatch
     else
     rbind (active_binding s (d_service dec)) (\<lambda>binding.
     if sb_generation binding \<noteq> d_service_generation dec then Inl StaleServiceGeneration
     else
     rbind (ok_or (bm_get (policies s) (princ, d_service dec)) PolicyMissing) (\<lambda>rule.
     if version rule \<noteq> d_policy_version dec then Inl StalePolicy
     else if \<not> rights_contains (rights_intersection (allowed rule) (ceiling binding)) (d_rights dec)
     then Inl RightsDenied
     else Inr \<lparr>g_principal = princ, g_service_generation = sb_generation binding,
                g_policy_version = version rule, g_rights = d_rights dec\<rparr>)))"

definition redeem_ticket ::
    "policy_store \<Rightarrow> domain_identity \<Rightarrow> ticket_id \<Rightarrow> authorized_grant auth_result \<times> policy_store" where
  "redeem_ticket s caller ticket =
     (case bm_get (tickets s) ticket of
        None \<Rightarrow> (Inl TicketMissing, s)
      | Some dec \<Rightarrow>
          let s' = s\<lparr>tickets := bm_remove ticket (tickets s)\<rparr>
          in (redeem_decision s' caller dec, s'))"

definition cancel_ticket ::
    "policy_store \<Rightarrow> domain_identity \<Rightarrow> ticket_id \<Rightarrow> unit auth_result \<times> policy_store" where
  "cancel_ticket s caller ticket = commit s (
     rbind (ok_or (principal_for s caller) UnknownIdentity) (\<lambda>princ.
     rbind (ok_or (bm_get (tickets s) ticket) TicketMissing) (\<lambda>dec.
     if d_principal dec \<noteq> princ then Inl PrincipalMismatch
     else Inr ((), s\<lparr>tickets := bm_remove ticket (tickets s)\<rparr>))))"

definition authorize_now ::
    "policy_store \<Rightarrow> domain_identity \<Rightarrow> service_id \<Rightarrow> rights \<Rightarrow>
     authorized_grant auth_result \<times> policy_store" where
  "authorize_now s caller service requested =
     (case issue_ticket s caller service requested of
        (Inl e, s') \<Rightarrow> (Inl e, s')
      | (Inr ticket, s') \<Rightarrow> redeem_ticket s' caller ticket)"

definition authorize_for_admin ::
    "policy_store \<Rightarrow> domain_identity \<Rightarrow> domain_identity \<Rightarrow> principal_id \<Rightarrow> service_id \<Rightarrow> rights \<Rightarrow>
     authorized_grant auth_result \<times> policy_store" where
  "authorize_for_admin s actor target princ service requested =
     (case rbind (require_role s actor POLICY_ADMIN) (\<lambda>_.
             if rights_is_empty requested then Inl EmptyRights else validate_service s service) of
        Inl e \<Rightarrow> (Inl e, s)
      | Inr _ \<Rightarrow>
          (case provision_identity_from_supervisor s target princ ROLES_NONE of
             (Inl e, s') \<Rightarrow> (Inl e, s')
           | (Inr _, s') \<Rightarrow>
               (rbind (active_binding s' service) (\<lambda>binding.
                  if \<not> rights_contains (ceiling binding) requested then Inl RightsDenied
                  else Inr \<lparr>g_principal = princ, g_service_generation = sb_generation binding,
                             g_policy_version = 0, g_rights = requested\<rparr>), s')))"

definition policy :: "policy_store \<Rightarrow> principal_id \<Rightarrow> service_id \<Rightarrow> policy_rule option" where
  "policy s subject service = bm_get (policies s) (subject, service)"

definition service :: "policy_store \<Rightarrow> service_id \<Rightarrow> service_binding option" where
  "service s name = bm_get (services s) name"

definition outstanding_tickets :: "policy_store \<Rightarrow> nat" where
  "outstanding_tickets s = bm_len (tickets s)"

end
