(* ===== verification/Policy_Safety.thy ===== *)
theory Policy_Safety
  imports Authorization
begin

text \<open>
  What the policy store guarantees over arbitrary sequences of calls. Every call is shown to
  be a sequence of elementary changes, each with the conditions under which the store makes
  it; the invariant and the monotonicity of versions, generations and ticket numbers are
  then proved once per elementary change.
\<close>

section \<open>Calls\<close>

datatype policy_call =
  Provision domain_identity principal_id roles
| RemoveIdentity domain_identity
| PublishService domain_identity service_id rights
| UnpublishService domain_identity service_id u64
| SetPolicy domain_identity principal_id service_id rights u64
| IssueTicket domain_identity service_id rights
| RedeemTicket domain_identity ticket_id
| CancelTicket domain_identity ticket_id
| AuthorizeNow domain_identity service_id rights
| AuthorizeForAdmin domain_identity domain_identity principal_id service_id rights

fun call :: "policy_store \<Rightarrow> policy_call \<Rightarrow> policy_store" where
  "call s (Provision i p r) = snd (provision_identity_from_supervisor s i p r)"
| "call s (RemoveIdentity i) = snd (remove_identity_from_supervisor s i)"
| "call s (PublishService a v c) = snd (publish_service s a v c)"
| "call s (UnpublishService a v g) = snd (unpublish_service s a v g)"
| "call s (SetPolicy a p v r n) = snd (set_policy s a p v r n)"
| "call s (IssueTicket i v r) = snd (issue_ticket s i v r)"
| "call s (RedeemTicket i t) = snd (redeem_ticket s i t)"
| "call s (CancelTicket i t) = snd (cancel_ticket s i t)"
| "call s (AuthorizeNow i v r) = snd (authorize_now s i v r)"
| "call s (AuthorizeForAdmin a i p v r) = snd (authorize_for_admin s a i p v r)"

definition calls :: "policy_store \<Rightarrow> policy_call list \<Rightarrow> policy_store" where
  "calls s cs = foldl call s cs"

definition reachable_store :: "policy_store \<Rightarrow> bool" where
  "reachable_store s \<longleftrightarrow> (\<exists>l s0 cs. with_limits l = Inr s0 \<and> s = calls s0 cs)"

section \<open>Elementary changes\<close>

definition holds_role :: "policy_store \<Rightarrow> domain_identity \<Rightarrow> roles \<Rightarrow> bool" where
  "holds_role s actor role \<longleftrightarrow>
     (\<exists>r. bm_get (identities s) actor = Some r \<and> roles_contains (id_roles r) role)"

text \<open>Every address-space slot has at most one known occupant.\<close>

definition ids_wf :: "nat \<Rightarrow> (domain_identity, identity_record) bmap \<Rightarrow> bool" where
  "ids_wf n ids \<longleftrightarrow> bm_len ids \<le> n \<and>
     (\<forall>k \<in> dom (bm_get ids). \<forall>l \<in> dom (bm_get ids). asid k = asid l \<longrightarrow> k = l)"

inductive change :: "policy_store \<Rightarrow> policy_store \<Rightarrow> bool" where
  identity:
    "(ids_wf (unat (lim_identities (limits s))) (identities s) \<Longrightarrow>
       ids_wf (unat (lim_identities (limits s))) ids) \<Longrightarrow>
     change s (s\<lparr>identities := ids\<rparr>)"
| published:
    "holds_role s actor SERVICE_MANAGER \<Longrightarrow> name \<noteq> [] \<Longrightarrow>
     length name \<le> unat (lim_service_id_bytes (limits s)) \<Longrightarrow> active b \<Longrightarrow> ceiling b \<noteq> 0 \<Longrightarrow>
     (bm_get (services s) name = None \<Longrightarrow>
        bm_len (services s) < unat (lim_services (limits s)) \<and> sb_generation b = 1) \<Longrightarrow>
     (\<And>old. bm_get (services s) name = Some old \<Longrightarrow>
        sb_generation old < sb_generation b \<and> sb_generation b \<le> MAX_SERVICE_GENERATION) \<Longrightarrow>
     change s (s\<lparr>services := bm_insert name b (services s)\<rparr>)"
| unpublished:
    "holds_role s actor SERVICE_MANAGER \<Longrightarrow> bm_get (services s) name = Some b \<Longrightarrow> active b \<Longrightarrow>
     change s (s\<lparr>services := bm_insert name (b\<lparr>active := False, ceiling := 0\<rparr>) (services s)\<rparr>)"
| policy_set:
    "holds_role s actor POLICY_ADMIN \<Longrightarrow> name \<noteq> [] \<Longrightarrow>
     length name \<le> unat (lim_service_id_bytes (limits s)) \<Longrightarrow>
     (bm_get (policies s) (p, name) = None \<Longrightarrow>
        bm_len (policies s) < unat (lim_policies (limits s)) \<and> version rule \<noteq> 0) \<Longrightarrow>
     (\<And>old. bm_get (policies s) (p, name) = Some old \<Longrightarrow> version old < version rule) \<Longrightarrow>
     change s (s\<lparr>policies := bm_insert (p, name) rule (policies s)\<rparr>)"
| ticket_issued:
    "d_rights d \<noteq> 0 \<Longrightarrow> bm_len (tickets s) < unat (lim_tickets (limits s)) \<Longrightarrow>
     next_ticket s < n \<Longrightarrow>
     bm_get (services s) (d_service d) = Some b \<Longrightarrow> sb_generation b = d_service_generation d \<Longrightarrow>
     bm_get (policies s) (d_principal d, d_service d) = Some rule \<Longrightarrow>
     version rule = d_policy_version d \<Longrightarrow>
     rights_contains (rights_intersection (allowed rule) (ceiling b)) (d_rights d) \<Longrightarrow>
     change s (s\<lparr>next_ticket := n, tickets := bm_insert (next_ticket s) d (tickets s)\<rparr>)"
| ticket_dropped: "change s (s\<lparr>tickets := bm_remove t (tickets s)\<rparr>)"

inductive changes :: "policy_store \<Rightarrow> policy_store \<Rightarrow> bool" where
  none: "changes s s"
| more: "changes s t \<Longrightarrow> change t u \<Longrightarrow> changes s u"

lemma changes_trans: "changes t u \<Longrightarrow> changes s t \<Longrightarrow> changes s u"
  by (induction rule: changes.induct) (auto intro: changes.intros)

lemma changes_one: "change s t \<Longrightarrow> changes s t"
  by (rule changes.more [OF changes.none])

section \<open>Every call is a sequence of elementary changes\<close>

lemma checked_succ: "checked_add (c :: u64) 1 = Some v \<Longrightarrow> c < v \<and> v \<noteq> 0"
  using checked_add_SomeD [of c 1 v] by (auto simp: word_less_nat_alt)

abbreviation others :: "domain_identity \<Rightarrow> (domain_identity, identity_record) bmap \<Rightarrow>
    (domain_identity, identity_record) bmap" where
  "others i ids \<equiv> bm_retain (\<lambda>known _. asid known \<noteq> asid i) ids"

lemma ids_wf_insert:
  assumes "ids_wf m ids" and "bm_len (others i ids) < n"
  shows "ids_wf n (bm_insert i r (others i ids))"
proof -
  have "\<forall>k \<in> dom (bm_get ids). \<forall>l \<in> dom (bm_get ids). asid k = asid l \<longrightarrow> k = l"
    using assms(1) by (simp add: ids_wf_def)
  then have "\<forall>k \<in> insert i {k \<in> dom (bm_get ids). asid k \<noteq> asid i}.
      \<forall>l \<in> insert i {k \<in> dom (bm_get ids). asid k \<noteq> asid i}. asid k = asid l \<longrightarrow> k = l"
    by (intro ballI impI) (elim insertE, auto)
  moreover have "dom (bm_get (bm_insert i r (others i ids))) =
      insert i {k \<in> dom (bm_get ids). asid k \<noteq> asid i}"
    using dom_bm_get_retain [of "\<lambda>known. asid known \<noteq> asid i" ids] by (simp only: bm_get_insert dom_fun_upd) simp
  ultimately show ?thesis
    using assms(2) by (simp only: ids_wf_def) (simp add: bm_len_insert)
qed

lemma others_less:
  assumes "k \<in> dom (bm_get ids)" "asid k = asid i"
  shows "bm_len (others i ids) < bm_len ids"
proof -
  have "{k \<in> dom (bm_get ids). asid k \<noteq> asid i} \<subset> dom (bm_get ids)" using assms by auto
  then show ?thesis
    by (simp only: bm_len_eq_card dom_bm_get_retain) (rule psubset_card_mono, simp_all)
qed

lemma min_by_key_mem: "min_by_key key xs = Some x \<Longrightarrow> x \<in> set xs"
proof (cases xs)
  case (Cons y ys)
  have "foldl (\<lambda>m z. if key z < key m then z else m) y ys \<in> insert y (set ys)" for y
    by (induction ys arbitrary: y) auto
  moreover assume "min_by_key key xs = Some x"
  ultimately show ?thesis using Cons by auto
qed simp

lemma ids_wf_remove: "ids_wf n ids \<Longrightarrow> ids_wf n (bm_remove k ids)"
  by (auto simp: ids_wf_def bm_len_remove)

lemma provision_ids:
  assumes "provision_identity_from_supervisor s i p r = (res, s')"
  shows "\<exists>ids. s' = s\<lparr>identities := ids\<rparr> \<and>
     (ids_wf (unat (lim_identities (limits s))) (identities s) \<longrightarrow>
      ids_wf (unat (lim_identities (limits s))) ids)"
proof -
  let ?ids = "identities s" and ?n = "unat (lim_identities (limits s))"
  let ?new = "\<lambda>ids. bm_insert i \<lparr>id_principal = p, id_roles = r\<rparr> (others i ids)"
  consider "s' = s"
    | k where "s' = s\<lparr>identities := ?new ?ids\<rparr>" "k \<in> dom (bm_get ?ids)" "asid k = asid i"
    | "s' = s\<lparr>identities := ?new ?ids\<rparr>" "bm_len ?ids < ?n"
    | k where "s' = s\<lparr>identities := ?new (bm_remove k ?ids)\<rparr>" "k \<in> dom (bm_get ?ids)"
    using assms unfolding provision_identity_from_supervisor_def Let_def
    by (auto simp: set_bm_keys not_le split: option.splits if_splits dest!: min_by_key_mem)
  then show ?thesis
  proof cases
    case 1
    then show ?thesis by (intro exI [of _ ?ids]) simp
  next
    case (2 k)
    have "ids_wf ?n ?ids \<Longrightarrow> ids_wf ?n (?new ?ids)"
      using others_less [OF 2(2,3)] by (intro ids_wf_insert) (auto simp: ids_wf_def)
    with 2(1) show ?thesis by blast
  next
    case 3
    have "ids_wf ?n ?ids \<Longrightarrow> ids_wf ?n (?new ?ids)"
      using 3(2) bm_len_retain [of "\<lambda>known _. asid known \<noteq> asid i" ?ids] by (intro ids_wf_insert) auto
    with 3(1) show ?thesis by blast
  next
    case (4 k)
    have pos: "0 < bm_len ?ids" using 4(2) by (auto simp: bm_len_eq_card card_gt_0_iff)
    have "ids_wf ?n ?ids \<Longrightarrow> ids_wf ?n (?new (bm_remove k ?ids))"
      using pos 4(2) bm_len_retain [of "\<lambda>known _. asid known \<noteq> asid i" "bm_remove k ?ids"]
      by (intro ids_wf_insert [of ?n] ids_wf_remove) (auto simp: ids_wf_def bm_len_remove bm_contains_iff)
    with 4(1) show ?thesis by blast
  qed
qed

lemma require_role_holds: "require_role s actor role = Inr p \<Longrightarrow> holds_role s actor role"
  by (auto simp: require_role_def holds_role_def rbind_Inr_iff split: if_splits)

lemma validate_service_ok:
  "validate_service s name = Inr u \<longleftrightarrow> name \<noteq> [] \<and> length name \<le> unat (lim_service_id_bytes (limits s))"
  by (auto simp: validate_service_def)

lemma active_binding_ok:
  "active_binding s name = Inr b \<longleftrightarrow> bm_get (services s) name = Some b \<and> active b"
  by (auto simp: active_binding_def rbind_Inr_iff split: if_splits)

lemma commit_changes:
  assumes "\<And>v s'. r = Inr (v, s') \<Longrightarrow> change s s'"
  shows "changes s (snd (commit s r))"
proof (cases r)
  case (Inl e)
  then show ?thesis by (simp add: changes.none)
next
  case (Inr vs)
  then show ?thesis using assms by (cases vs) (auto intro: changes_one)
qed

lemma provision_changes: "changes s (snd (provision_identity_from_supervisor s i p r))"
proof -
  obtain res s' where ps: "provision_identity_from_supervisor s i p r = (res, s')" by force
  from provision_ids [OF ps] obtain ids where "s' = s\<lparr>identities := ids\<rparr>"
    "ids_wf (unat (lim_identities (limits s))) (identities s) \<Longrightarrow>
      ids_wf (unat (lim_identities (limits s))) ids" by blast
  then show ?thesis unfolding ps by (auto intro!: changes_one change.identity)
qed

lemma remove_identity_changes: "changes s (snd (remove_identity_from_supervisor s i))"
  unfolding remove_identity_from_supervisor_def snd_conv
  by (intro changes_one change.identity ids_wf_remove)

lemma publish_changes: "changes s (snd (publish_service s actor name c))"
  unfolding publish_service_def
proof (rule commit_changes, goal_cases)
  case (1 v s')
  then obtain p gen where ok: "require_role s actor SERVICE_MANAGER = Inr p" "validate_service s name = Inr ()"
      "c \<noteq> 0" "bm_contains (services s) name \<or> bm_len (services s) < unat (lim_services (limits s))"
    and gen: "(case bm_get (services s) name of
          Some binding \<Rightarrow>
            ok_or (case checked_add (sb_generation binding) 1 of
                     Some next \<Rightarrow> if next \<le> MAX_SERVICE_GENERATION then Some next else None
                   | None \<Rightarrow> None) ServiceGenerationExhausted
        | None \<Rightarrow> Inr 1) = Inr gen"
    and s': "s' = s\<lparr>services := bm_insert name \<lparr>sb_generation = gen, ceiling = c, active = True\<rparr> (services s)\<rparr>"
    by (auto simp: rbind_Inr_iff rights_is_empty_def not_le Let_def split: if_splits)
  show ?case
    unfolding s'
  proof (rule change.published [where actor = actor], goal_cases)
    case 6
    with ok(4) gen show ?case by (auto simp: bm_contains_iff)
  next
    case (7 old)
    with gen checked_succ [of "sb_generation old"] show ?case by (auto split: option.splits if_splits)
  qed (use ok in \<open>auto intro: require_role_holds simp: validate_service_ok\<close>)
qed

lemma unpublish_changes: "changes s (snd (unpublish_service s actor name g))"
  unfolding unpublish_service_def
proof (rule commit_changes, goal_cases)
  case (1 v s')
  then obtain p b where ok: "require_role s actor SERVICE_MANAGER = Inr p"
      "bm_get (services s) name = Some b" "active b"
    and s': "s' = s\<lparr>services := bm_insert name (b\<lparr>active := False, ceiling := 0\<rparr>) (services s)\<rparr>"
    by (auto simp: rbind_Inr_iff RIGHTS_NONE_def split: if_splits)
  show ?case unfolding s' by (rule change.unpublished [OF require_role_holds [OF ok(1)] ok(2,3)])
qed

lemma set_policy_changes: "changes s (snd (set_policy s actor p name r n))"
  unfolding set_policy_def
proof (rule commit_changes, goal_cases)
  case (1 v s')
  then obtain q w where ok: "require_role s actor POLICY_ADMIN = Inr q" "validate_service s name = Inr ()"
      "bm_contains (policies s) (p, name) \<or> bm_len (policies s) < unat (lim_policies (limits s))"
    and w: "checked_add (case bm_get (policies s) (p, name) of None \<Rightarrow> 0 | Some rule \<Rightarrow> version rule) 1 = Some w"
    and s': "s' = s\<lparr>policies := bm_insert (p, name) \<lparr>allowed = r, version = w\<rparr> (policies s)\<rparr>"
    by (auto simp: rbind_Inr_iff not_le Let_def split: if_splits)
  show ?case
    unfolding s'
  proof (rule change.policy_set [where actor = actor], goal_cases)
    case 4
    with ok(3) checked_succ [OF w] show ?case by (auto simp: bm_contains_iff)
  next
    case (5 old)
    with checked_succ [OF w] show ?case by simp
  qed (use ok in \<open>auto intro: require_role_holds simp: validate_service_ok\<close>)
qed

lemma issue_ticket_cases:
  assumes "issue_ticket s caller name r = (Inr t, s')"
  obtains p b rule n where
    "r \<noteq> 0" "name \<noteq> []" "principal_for s caller = Some p" "bm_get (services s) name = Some b" "active b"
    "bm_get (policies s) (p, name) = Some rule"
    "rights_contains (rights_intersection (allowed rule) (ceiling b)) r"
    "bm_len (tickets s) < unat (lim_tickets (limits s))"
    "t = next_ticket s" "checked_add (next_ticket s) 1 = Some n"
    "s' = s\<lparr>next_ticket := n, tickets := bm_insert (next_ticket s)
        \<lparr>d_principal = p, d_service = name, d_service_generation = sb_generation b,
         d_policy_version = version rule, d_rights = r\<rparr> (tickets s)\<rparr>"
  using assms unfolding issue_ticket_def commit_Inr_iff
  by (auto simp: rbind_Inr_iff rights_is_empty_def active_binding_ok validate_service_ok not_le Let_def
      split: if_splits)

lemma issue_changes: "changes s (snd (issue_ticket s caller name r))"
proof (cases "issue_ticket s caller name r")
  case (Pair res s')
  show ?thesis
  proof (cases res)
    case (Inl e)
    with Pair have "s' = s" by (simp add: issue_ticket_def commit_Inl_iff)
    with Pair show ?thesis by (simp add: changes.none)
  next
    case (Inr t)
    with Pair have "issue_ticket s caller name r = (Inr t, s')" by simp
    then show ?thesis
    proof (cases rule: issue_ticket_cases)
      case (1 p b rule n)
      let ?d = "\<lparr>d_principal = p, d_service = name, d_service_generation = sb_generation b,
         d_policy_version = version rule, d_rights = r\<rparr>"
      have "change s (s\<lparr>next_ticket := n, tickets := bm_insert (next_ticket s) ?d (tickets s)\<rparr>)"
        by (rule change.ticket_issued [of _ _ _ b rule]) (use 1 checked_succ in auto)
      with 1 Pair show ?thesis by (auto intro: changes_one)
    qed
  qed
qed

lemma redeem_changes: "changes s (snd (redeem_ticket s caller t))"
  by (auto simp: redeem_ticket_def Let_def intro: changes.none changes_one change.ticket_dropped
      split: option.splits)

lemma cancel_changes: "changes s (snd (cancel_ticket s caller t))"
  unfolding cancel_ticket_def
  by (rule commit_changes) (auto simp: rbind_Inr_iff intro: change.ticket_dropped split: if_splits)

lemma authorize_now_changes: "changes s (snd (authorize_now s caller name r))"
  using issue_changes [of s caller name r]
  by (auto simp: authorize_now_def split: prod.splits sum.splits intro: changes_trans [OF redeem_changes])

lemma admin_changes: "changes s (snd (authorize_for_admin s actor i p name r))"
  using provision_changes [of s i p ROLES_NONE]
  by (auto simp: authorize_for_admin_def split: prod.splits sum.splits intro: changes.none)

lemma call_changes: "changes s (call s c)"
  by (cases c)
    (simp_all only: call.simps provision_changes remove_identity_changes publish_changes
      unpublish_changes set_policy_changes issue_changes redeem_changes cancel_changes
      authorize_now_changes admin_changes)

lemma calls_changes: "changes s (calls s cs)"
proof (induction cs arbitrary: s)
  case Nil
  show ?case by (simp add: calls_def changes.none)
next
  case (Cons c cs)
  from changes_trans [OF Cons.IH call_changes] show ?case by (simp add: calls_def)
qed

section \<open>The invariant\<close>

definition binding_ok :: "service_binding \<Rightarrow> bool" where
  "binding_ok b \<longleftrightarrow> 0 < sb_generation b \<and> sb_generation b \<le> MAX_SERVICE_GENERATION \<and>
     (\<not> active b \<longrightarrow> ceiling b = 0)"

text \<open>
  An outstanding ticket is no newer than the rule and the binding it was issued under, and
  while both are unchanged they still cover its rights.
\<close>

definition ticket_ok :: "policy_store \<Rightarrow> decision \<Rightarrow> bool" where
  "ticket_ok s d \<longleftrightarrow> d_rights d \<noteq> 0 \<and>
     (\<exists>rule b. bm_get (policies s) (d_principal d, d_service d) = Some rule \<and>
        bm_get (services s) (d_service d) = Some b \<and>
        d_policy_version d \<le> version rule \<and> d_service_generation d \<le> sb_generation b \<and>
        (version rule = d_policy_version d \<and> sb_generation b = d_service_generation d \<and> active b \<longrightarrow>
         rights_contains (rights_intersection (allowed rule) (ceiling b)) (d_rights d)))"

definition store_inv :: "policy_store \<Rightarrow> bool" where
  "store_inv s \<longleftrightarrow>
     ids_wf (unat (lim_identities (limits s))) (identities s) \<and>
     bm_len (policies s) \<le> unat (lim_policies (limits s)) \<and>
     bm_len (services s) \<le> unat (lim_services (limits s)) \<and>
     bm_len (tickets s) \<le> unat (lim_tickets (limits s)) \<and>
     (\<forall>k rule. bm_get (policies s) k = Some rule \<longrightarrow> version rule \<noteq> 0) \<and>
     (\<forall>n b. bm_get (services s) n = Some b \<longrightarrow> binding_ok b) \<and>
     (\<forall>t d. bm_get (tickets s) t = Some d \<longrightarrow> t < next_ticket s \<and> ticket_ok s d)"

lemma store_invD:
  assumes "store_inv s"
  shows "ids_wf (unat (lim_identities (limits s))) (identities s)"
    "bm_len (policies s) \<le> unat (lim_policies (limits s))"
    "bm_len (services s) \<le> unat (lim_services (limits s))"
    "bm_len (tickets s) \<le> unat (lim_tickets (limits s))"
    "bm_get (policies s) k = Some rule \<Longrightarrow> version rule \<noteq> 0"
    "bm_get (services s) n = Some b \<Longrightarrow> binding_ok b"
    "bm_get (tickets s) t = Some d \<Longrightarrow> t < next_ticket s"
    "bm_get (tickets s) t = Some d \<Longrightarrow> ticket_ok s d"
  using assms unfolding store_inv_def by blast+

lemma store_inv_start: "with_limits l = Inr s \<Longrightarrow> store_inv s"
  by (auto simp: with_limits_def store_inv_def ids_wf_def split: if_splits)

lemma ticket_ok_published:
  assumes "ticket_ok s d"
    and "\<And>old. bm_get (services s) name = Some old \<Longrightarrow> sb_generation old < sb_generation b"
  shows "ticket_ok (s\<lparr>services := bm_insert name b (services s)\<rparr>) d"
  using assms unfolding ticket_ok_def by (cases "d_service d = name") fastforce+

lemma ticket_ok_unpublished:
  assumes "ticket_ok s d" and "bm_get (services s) name = Some b"
  shows "ticket_ok (s\<lparr>services := bm_insert name (b\<lparr>active := False, ceiling := 0\<rparr>) (services s)\<rparr>) d"
  using assms unfolding ticket_ok_def by (cases "d_service d = name") auto

lemma ticket_ok_policy:
  assumes "ticket_ok s d"
    and "\<And>old. bm_get (policies s) (p, name) = Some old \<Longrightarrow> version old < version rule"
  shows "ticket_ok (s\<lparr>policies := bm_insert (p, name) rule (policies s)\<rparr>) d"
  using assms unfolding ticket_ok_def by (cases "(d_principal d, d_service d) = (p, name)") fastforce+

lemma ticket_ok_frame:
  "policies s' = policies s \<Longrightarrow> services s' = services s \<Longrightarrow> ticket_ok s' d = ticket_ok s d"
  by (simp add: ticket_ok_def)

lemma store_inv_change: "change s s' \<Longrightarrow> store_inv s \<Longrightarrow> store_inv s'"
proof (induction rule: change.induct)
  case (identity s ids)
  then show ?case by (simp add: store_inv_def ticket_ok_def)
next
  case (published s actor name b)
  note inv = store_invD [OF published.prems]
  have b: "binding_ok b"
  proof (cases "bm_get (services s) name")
    case None
    with published.hyps(4,6) show ?thesis by (simp add: binding_ok_def MAX_SERVICE_GENERATION_def)
  next
    case (Some old)
    with published.hyps(4) published.hyps(7) [of old] inv(6) [of name old] show ?thesis by (auto simp: binding_ok_def)
  qed
  have "bm_len (bm_insert name b (services s)) \<le> unat (lim_services (limits s))"
    using published.hyps(6) inv(3)
    by (cases "bm_get (services s) name") (auto simp: bm_len_insert bm_contains_iff)
  moreover have "\<forall>t d. bm_get (tickets s) t = Some d \<longrightarrow>
      ticket_ok (s\<lparr>services := bm_insert name b (services s)\<rparr>) d"
    using inv(8) published.hyps(7) by (auto intro: ticket_ok_published)
  ultimately show ?case
    unfolding store_inv_def using b inv(1,2,4,5,6,7) by simp
next
  case (unpublished s actor name b)
  note inv = store_invD [OF unpublished.prems]
  have "binding_ok (b\<lparr>active := False, ceiling := 0\<rparr>)"
    using inv(6) [OF unpublished.hyps(2)] by (simp add: binding_ok_def)
  moreover have "bm_len (bm_insert name (b\<lparr>active := False, ceiling := 0\<rparr>) (services s)) \<le>
      unat (lim_services (limits s))"
    using inv(3) unpublished.hyps(2) by (auto simp: bm_len_insert bm_contains_iff)
  moreover have "\<forall>t d. bm_get (tickets s) t = Some d \<longrightarrow>
      ticket_ok (s\<lparr>services := bm_insert name (b\<lparr>active := False, ceiling := 0\<rparr>) (services s)\<rparr>) d"
    using inv(8) unpublished.hyps(2) by (auto intro: ticket_ok_unpublished)
  ultimately show ?case
    unfolding store_inv_def using inv(1,2,4,5,6,7) by simp
next
  case (policy_set s actor name p rule)
  note inv = store_invD [OF policy_set.prems]
  have "version rule \<noteq> 0"
    using policy_set.hyps(4,5) by (cases "bm_get (policies s) (p, name)") auto
  moreover have "bm_len (bm_insert (p, name) rule (policies s)) \<le> unat (lim_policies (limits s))"
    using policy_set.hyps(4) inv(2)
    by (cases "bm_get (policies s) (p, name)") (auto simp: bm_len_insert bm_contains_iff)
  moreover have "\<forall>t d. bm_get (tickets s) t = Some d \<longrightarrow>
      ticket_ok (s\<lparr>policies := bm_insert (p, name) rule (policies s)\<rparr>) d"
    using inv(8) policy_set.hyps(5) by (auto intro: ticket_ok_policy)
  ultimately show ?case
    unfolding store_inv_def using inv(1,3,4,5,6,7) by simp
next
  case (ticket_issued d s n b rule)
  note inv = store_invD [OF ticket_issued.prems]
  let ?s = "s\<lparr>next_ticket := n, tickets := bm_insert (next_ticket s) d (tickets s)\<rparr>"
  have "ticket_ok ?s d" using ticket_issued.hyps by (simp add: ticket_ok_def)
  moreover have "\<forall>t d. bm_get (tickets s) t = Some d \<longrightarrow> t < n \<and> ticket_ok ?s d"
  proof (intro allI impI)
    fix t e
    assume "bm_get (tickets s) t = Some e"
    then show "t < n \<and> ticket_ok ?s e"
      using inv(7,8) [of t e] ticket_issued.hyps(3) ticket_ok_frame [of ?s s e] by simp
  qed
  moreover have "bm_len (bm_insert (next_ticket s) d (tickets s)) \<le> unat (lim_tickets (limits s))"
    using ticket_issued.hyps(2) by (simp add: bm_len_insert)
  ultimately show ?case
    unfolding store_inv_def using inv(1,2,3,5,6) ticket_issued.hyps(3) by simp
next
  case (ticket_dropped s t)
  then show ?case by (auto simp: store_inv_def bm_len_remove ticket_ok_def)
qed

lemma store_inv_changes: "changes s s' \<Longrightarrow> store_inv s \<Longrightarrow> store_inv s'"
  by (induction rule: changes.induct) (auto intro: store_inv_change)

lemma reachable_inv: "reachable_store s \<Longrightarrow> store_inv s"
  by (auto simp: reachable_store_def intro: store_inv_changes [OF calls_changes] store_inv_start)

section \<open>Versions, generations and ticket numbers only grow\<close>

definition later :: "policy_store \<Rightarrow> policy_store \<Rightarrow> bool" where
  "later s s' \<longleftrightarrow> limits s' = limits s \<and> next_ticket s \<le> next_ticket s' \<and>
     (\<forall>k r. bm_get (policies s) k = Some r \<longrightarrow>
        (\<exists>r'. bm_get (policies s') k = Some r' \<and> (r' = r \<or> version r < version r'))) \<and>
     (\<forall>n b. bm_get (services s) n = Some b \<longrightarrow>
        (\<exists>b'. bm_get (services s') n = Some b' \<and>
          (b' = b \<or> sb_generation b < sb_generation b' \<or>
           b' = b\<lparr>active := False, ceiling := 0\<rparr>))) \<and>
     (\<forall>t < next_ticket s. \<forall>d. bm_get (tickets s') t = Some d \<longrightarrow> bm_get (tickets s) t = Some d)"

lemma later_refl: "later s s"
  by (simp add: later_def)

lemma later_trans:
  assumes "later s t" "later t u"
  shows "later s u"
proof -
  have "\<exists>r'. bm_get (policies u) k = Some r' \<and> (r' = r \<or> version r < version r')"
    if r: "bm_get (policies s) k = Some r" for k r
  proof -
    obtain q where q: "bm_get (policies t) k = Some q" "q = r \<or> version r < version q"
      using assms(1) r unfolding later_def by blast
    obtain r' where "bm_get (policies u) k = Some r'" "r' = q \<or> version q < version r'"
      using assms(2) q(1) unfolding later_def by blast
    with q(2) show ?thesis by auto
  qed
  moreover have "\<exists>b'. bm_get (services u) n = Some b' \<and> (b' = b \<or> sb_generation b < sb_generation b' \<or>
      b' = b\<lparr>active := False, ceiling := 0\<rparr>)" if b: "bm_get (services s) n = Some b" for n b
  proof -
    obtain c where c: "bm_get (services t) n = Some c"
      "c = b \<or> sb_generation b < sb_generation c \<or> c = b\<lparr>active := False, ceiling := 0\<rparr>"
      using assms(1) b unfolding later_def by blast
    obtain d where "bm_get (services u) n = Some d"
      "d = c \<or> sb_generation c < sb_generation d \<or> d = c\<lparr>active := False, ceiling := 0\<rparr>"
      using assms(2) c(1) unfolding later_def by blast
    with c(2) show ?thesis by auto
  qed
  moreover have "bm_get (tickets s) x = Some d"
    if "x < next_ticket s" "bm_get (tickets u) x = Some d" for x d
    using assms that unfolding later_def by (meson order_less_le_trans)
  moreover have "limits u = limits s" "next_ticket s \<le> next_ticket u"
    using assms by (auto simp: later_def)
  ultimately show ?thesis unfolding later_def by blast
qed

lemma later_change: "change s s' \<Longrightarrow> later s s'"
  by (induction rule: change.induct) (auto simp: later_def)

lemma later_changes: "changes s s' \<Longrightarrow> later s s'"
  by (induction rule: changes.induct) (auto intro: later_refl later_trans later_change)

lemma later_calls: "later s (calls s cs)"
  by (rule later_changes [OF calls_changes])

lemma reachable_calls: "reachable_store s \<Longrightarrow> reachable_store (calls s cs)"
proof -
  assume "reachable_store s"
  then obtain l s0 ds where "with_limits l = Inr s0" "calls s cs = calls s0 (ds @ cs)"
    by (auto simp: reachable_store_def calls_def)
  then show ?thesis unfolding reachable_store_def by blast
qed

lemma reachable_call: "reachable_store s \<Longrightarrow> reachable_store (call s c)"
  using reachable_calls [of s "[c]"] by (simp add: calls_def)

section \<open>Redemption\<close>

lemma redeem_decision_ok:
  "redeem_decision s caller d = Inr g \<longleftrightarrow>
   (\<exists>b rule. principal_for s caller = Some (d_principal d) \<and>
      bm_get (services s) (d_service d) = Some b \<and> active b \<and> sb_generation b = d_service_generation d \<and>
      bm_get (policies s) (d_principal d, d_service d) = Some rule \<and> version rule = d_policy_version d \<and>
      rights_contains (rights_intersection (allowed rule) (ceiling b)) (d_rights d) \<and>
      g = \<lparr>g_principal = d_principal d, g_service_generation = d_service_generation d,
           g_policy_version = d_policy_version d, g_rights = d_rights d\<rparr>)"
  unfolding redeem_decision_def by (auto simp: rbind_Inr_iff active_binding_ok split: if_splits)

lemma redeem_decision_frame:
  "redeem_decision (s\<lparr>tickets := ts\<rparr>) caller d = redeem_decision s caller d"
  by (simp add: redeem_decision_def principal_for_def active_binding_def cong: if_cong)

lemma spent_ticket:
  assumes "bm_get (tickets s) t = None" "t < next_ticket s"
  shows "fst (redeem_ticket (calls s cs) caller t) = Inl TicketMissing"
proof -
  have "bm_get (tickets (calls s cs)) t = None"
    using later_calls [of s cs] assms unfolding later_def by (cases "bm_get (tickets (calls s cs)) t") auto
  then show ?thesis by (simp add: redeem_ticket_def)
qed

lemma contains_both:
  "rights_contains (rights_intersection a c) r \<longleftrightarrow> rights_contains a r \<and> rights_contains c r"
proof -
  have "(a AND c) AND r = r \<longleftrightarrow> a AND r = r \<and> c AND r = r"
    by (simp add: bit_eq_iff bit_and_iff) blast
  then show ?thesis by (simp add: rights_contains_def rights_intersection_def)
qed

lemma set_policy_row:
  assumes "set_policy s actor p name r n = (Inr rule, s')"
  shows "bm_get (policies s') (p, name) = Some rule"
    "bm_get (policies s) (p, name) = Some old \<Longrightarrow> version old < version rule"
  using assms checked_succ unfolding set_policy_def commit_Inr_iff
  by (auto simp: rbind_Inr_iff Let_def split: if_splits)

lemma publish_row:
  assumes "publish_service s actor name c = (Inr b, s')"
  shows "bm_get (services s') name = Some b"
    "bm_get (services s) name = Some old \<Longrightarrow> sb_generation old < sb_generation b"
  using assms checked_succ unfolding publish_service_def commit_Inr_iff
  by (auto simp: rbind_Inr_iff Let_def split: if_splits option.splits)

lemma unpublish_row:
  assumes "unpublish_service s actor name g = (Inr u, s')"
  shows "\<exists>b. bm_get (services s) name = Some b \<and> active b \<and> sb_generation b = g \<and>
     bm_get (services s') name = Some (b\<lparr>active := False, ceiling := 0\<rparr>)"
  using assms unfolding unpublish_service_def commit_Inr_iff
  by (auto simp: rbind_Inr_iff RIGHTS_NONE_def split: if_splits)

text \<open>A ticket whose rule or binding has moved on can no longer be redeemed, ever.\<close>

lemma stale_policy_refused:
  assumes old: "bm_get (tickets s) t = Some d" "t < next_ticket s"
    and row: "bm_get (policies s) (d_principal d, d_service d) = Some rule"
      "d_policy_version d < version rule"
  shows "\<exists>e. fst (redeem_ticket (calls s cs) caller t) = Inl e"
proof -
  let ?s = "calls s cs"
  note l = later_calls [of s cs, unfolded later_def]
  from l row(1) obtain r' where r': "bm_get (policies ?s) (d_principal d, d_service d) = Some r'"
    "r' = rule \<or> version rule < version r'" by blast
  with row(2) have v: "version r' \<noteq> d_policy_version d" by auto
  have "bm_get (tickets ?s) t = Some e \<Longrightarrow> e = d" for e using l old by auto
  then show ?thesis
  proof (cases "fst (redeem_ticket ?s caller t)")
    case (Inr g)
    then obtain e where e: "bm_get (tickets ?s) t = Some e" "redeem_decision ?s caller e = Inr g"
      by (auto simp: redeem_ticket_def redeem_decision_frame Let_def split: option.splits)
    with l old have "e = d" by auto
    with e(2) r'(1) v have False by (auto simp: redeem_decision_ok)
    then show ?thesis ..
  qed blast
qed

lemma stale_service_refused:
  assumes old: "bm_get (tickets s) t = Some d" "t < next_ticket s"
    and row: "bm_get (services s) (d_service d) = Some b"
      "d_service_generation d < sb_generation b \<or> d_service_generation d \<le> sb_generation b \<and> \<not> active b"
  shows "\<exists>e. fst (redeem_ticket (calls s cs) caller t) = Inl e"
proof -
  let ?s = "calls s cs"
  note l = later_calls [of s cs, unfolded later_def]
  from l row(1) obtain b' where b': "bm_get (services ?s) (d_service d) = Some b'"
    "b' = b \<or> sb_generation b < sb_generation b' \<or> b' = b\<lparr>active := False, ceiling := 0\<rparr>" by blast
  with row(2) have v: "\<not> active b' \<or> sb_generation b' \<noteq> d_service_generation d" by auto
  show ?thesis
  proof (cases "fst (redeem_ticket ?s caller t)")
    case (Inr g)
    then obtain e where e: "bm_get (tickets ?s) t = Some e" "redeem_decision ?s caller e = Inr g"
      by (auto simp: redeem_ticket_def redeem_decision_frame Let_def split: option.splits)
    with l old have "e = d" by auto
    with e(2) b'(1) v have False by (auto simp: redeem_decision_ok)
    then show ?thesis ..
  qed blast
qed

section \<open>Frames\<close>

lemma provision_frame:
  "policies (snd (provision_identity_from_supervisor s i p r)) = policies s"
  "services (snd (provision_identity_from_supervisor s i p r)) = services s"
  using provision_ids [of s i p r] by (metis policy_store.select_convs(3,4) policy_store.surjective
      policy_store.update_convs(2) prod.collapse)+

lemma commit_frame: "(\<And>v s'. r = Inr (v, s') \<Longrightarrow> f s' = f s) \<Longrightarrow> f (snd (commit s r)) = f s"
  by (cases r) (auto simp: commit_def split: prod.splits)

lemma issue_frame:
  "policies (snd (issue_ticket s i n r)) = policies s" "services (snd (issue_ticket s i n r)) = services s"
  unfolding issue_ticket_def
  by (rule commit_frame, auto simp: rbind_Inr_iff Let_def split: if_splits)+

lemma redeem_frame:
  "policies (snd (redeem_ticket s i t)) = policies s" "services (snd (redeem_ticket s i t)) = services s"
  by (auto simp: redeem_ticket_def Let_def split: option.splits)

lemma cancel_frame:
  "policies (snd (cancel_ticket s i t)) = policies s" "services (snd (cancel_ticket s i t)) = services s"
  unfolding cancel_ticket_def
  by (rule commit_frame, auto simp: rbind_Inr_iff split: if_splits)+

lemma authorize_now_frame:
  "policies (snd (authorize_now s i n r)) = policies s" "services (snd (authorize_now s i n r)) = services s"
  using issue_frame [of s i n r] redeem_frame
  by (auto simp: authorize_now_def split: prod.splits sum.splits)

lemma admin_frame:
  "policies (snd (authorize_for_admin s a i p n r)) = policies s"
  "services (snd (authorize_for_admin s a i p n r)) = services s"
  using provision_frame [of s i p ROLES_NONE]
  by (auto simp: authorize_for_admin_def split: prod.splits sum.splits)

lemma service_frame:
  "policies (snd (publish_service s a n c)) = policies s"
  "policies (snd (unpublish_service s a n g)) = policies s"
  unfolding publish_service_def unpublish_service_def
  by (rule commit_frame, auto simp: rbind_Inr_iff Let_def split: if_splits)+

lemma set_policy_frame: "services (snd (set_policy s a p n r v)) = services s"
  unfolding set_policy_def by (rule commit_frame, auto simp: rbind_Inr_iff Let_def split: if_splits)

lemma without_role:
  "\<not> holds_role s a POLICY_ADMIN \<Longrightarrow> snd (set_policy s a p n r v) = s"
  "\<not> holds_role s a SERVICE_MANAGER \<Longrightarrow> snd (publish_service s a n r) = s"
  "\<not> holds_role s a SERVICE_MANAGER \<Longrightarrow> snd (unpublish_service s a n g) = s"
  unfolding set_policy_def publish_service_def unpublish_service_def
  by (auto intro!: commit_frame [where f = "\<lambda>s. s"] simp: rbind_Inr_iff dest: require_role_holds)

lemma remove_identity_frame:
  "policies (snd (remove_identity_from_supervisor s i)) = policies s"
  "services (snd (remove_identity_from_supervisor s i)) = services s"
  by (simp_all add: remove_identity_from_supervisor_def)

lemmas call_frames = provision_frame issue_frame redeem_frame cancel_frame authorize_now_frame
  admin_frame service_frame set_policy_frame remove_identity_frame

section \<open>The decision behind a ticket\<close>

definition decide :: "policy_store \<Rightarrow> domain_identity \<Rightarrow> service_id \<Rightarrow> rights \<Rightarrow> authorized_grant auth_result" where
  "decide s caller name r =
     (if r = 0 then Inl EmptyRights
      else rbind (validate_service s name) (\<lambda>_.
        rbind (ok_or (principal_for s caller) UnknownIdentity) (\<lambda>p.
        rbind (active_binding s name) (\<lambda>b.
        rbind (ok_or (policy s p name) PolicyMissing) (\<lambda>rule.
        if \<not> (rights_contains (allowed rule) r \<and> rights_contains (ceiling b) r) then Inl RightsDenied
        else if unat (lim_tickets (limits s)) \<le> outstanding_tickets s then Inl TicketCapacity
        else if next_ticket s = - 1 then Inl TicketIdExhausted
        else Inr \<lparr>g_principal = p, g_service_generation = sb_generation b,
                   g_policy_version = version rule, g_rights = r\<rparr>)))))"

lemma checked_succ_eq: "checked_add (x :: u64) 1 = (if x = - 1 then None else Some (x + 1))"
proof -
  have "x \<le> x + 1 \<longleftrightarrow> x \<noteq> - 1"
    using add_fits_iff [of x 1] unat_u64_less [of x]
    by (auto simp: word_unat_eq_iff unat_max_word)
  then show ?thesis by (simp add: checked_add_code)
qed

definition decided_ticket :: "service_id \<Rightarrow> authorized_grant \<Rightarrow> decision" where
  "decided_ticket name g =
     \<lparr>d_principal = g_principal g, d_service = name, d_service_generation = g_service_generation g,
      d_policy_version = g_policy_version g, d_rights = g_rights g\<rparr>"

lemma issue_decides:
  "issue_ticket s caller name r = (case decide s caller name r of
     Inl e \<Rightarrow> (Inl e, s)
   | Inr g \<Rightarrow> (Inr (next_ticket s), s\<lparr>next_ticket := next_ticket s + 1,
       tickets := bm_insert (next_ticket s) (decided_ticket name g) (tickets s)\<rparr>))"
  unfolding issue_ticket_def decide_def decided_ticket_def policy_def outstanding_tickets_def
    rights_is_empty_def contains_both checked_succ_eq Let_def
  by (cases "validate_service s name"; cases "principal_for s caller"; cases "active_binding s name";
      cases "bm_get (policies s) (the (principal_for s caller), name)") auto

lemma decide_ok:
  "decide s caller name r = Inr g \<Longrightarrow>
     redeem_decision (s\<lparr>next_ticket := k, tickets := ts\<rparr>) caller (decided_ticket name g) = Inr g"
  unfolding decide_def
  by (auto simp: redeem_decision_ok decided_ticket_def rbind_Inr_iff contains_both policy_def
      active_binding_ok principal_for_def split: if_splits)

lemma bm_remove_fresh: "bm_get m k = None \<Longrightarrow> bm_remove k (bm_insert k v m) = m"
  by (rule bmap_eqI) (auto simp: fun_eq_iff)

section \<open>The audit log\<close>

definition audit_all :: "audit_log \<Rightarrow> audit_record list \<Rightarrow> audit_log" where
  "audit_all l es = foldl (\<lambda>l e. snd (audit_record_entry l e)) l es"

text \<open>The first \<open>n\<close> entries with the sequence numbers they are given.\<close>

definition numbered :: "nat \<Rightarrow> audit_record list \<Rightarrow> audit_record list" where
  "numbered n es = map (\<lambda>i. (es ! i)\<lparr>au_sequence := of_nat (Suc i)\<rparr>) [0..<n]"

lemma numbered_snoc: "n \<le> length es \<Longrightarrow> numbered n (es @ [e]) = numbered n es"
  by (simp add: numbered_def nth_append)

lemma length_numbered [simp]: "length (numbered n es) = n"
  by (simp add: numbered_def)

lemma numbered_Suc:
  "numbered (Suc (length es)) (es @ [e]) =
     numbered (length es) es @ [e\<lparr>au_sequence := of_nat (Suc (length es))\<rparr>]"
proof -
  have "map (\<lambda>i. ((es @ [e]) ! i)\<lparr>au_sequence := of_nat (Suc i)\<rparr>) [0..<length es] = numbered (length es) es"
    unfolding numbered_def by (simp add: nth_append)
  then show ?thesis by (simp add: numbered_def)
qed

lemma audit_capacity: "au_capacity (audit_all l es) = au_capacity l"
  by (induction es rule: rev_induct) (auto simp: audit_all_def audit_record_entry_def Let_def)

lemma drop_window:
  assumes "0 < c"
  shows "(if length (drop (length xs - c) xs) = c then tl (drop (length xs - c) xs)
          else drop (length xs - c) xs) @ [x] = drop (Suc (length xs) - c) (xs @ [x])"
proof (cases "c \<le> length xs")
  case True
  then have "tl (drop (length xs - c) xs) = drop (Suc (length xs) - c) xs"
    by (simp add: Suc_diff_le drop_Suc tl_drop)
  with True assms show ?thesis by simp
qed simp

lemma sequence_last:
  assumes "n \<le> 18446744073709551614"
  shows "(of_nat (Suc n) :: u64) = - 1 \<longleftrightarrow> n = 18446744073709551614"
proof -
  have "unat (of_nat (Suc n) :: u64) = Suc n mod 2 ^ LENGTH(64)" by (rule unat_of_nat)
  then have "unat (of_nat (Suc n) :: u64) = Suc n" using assms by (simp del: of_nat_Suc)
  then show ?thesis by (simp add: word_unat_eq_iff unat_max_word del: of_nat_Suc)
qed

lemma audit_all_stream:
  assumes "audit_new cap = Inr l" and "n = min (length es) (2 ^ 64 - 2)"
  shows "records (audit_all l es) = drop (n - unat cap) (numbered n es) \<and>
     next_sequence (audit_all l es) = of_nat (Suc n)"
  using assms(2)
proof (induction es arbitrary: n rule: rev_induct)
  case Nil
  with assms(1) show ?case by (auto simp: audit_all_def numbered_def audit_new_def split: if_splits)
next
  case (snoc e es)
  define m where "m = min (length es) ((2 :: nat) ^ 64 - 2)"
  note ih = snoc.IH [OF m_def]
  have step: "audit_all l (es @ [e]) = snd (audit_record_entry (audit_all l es) e)"
    by (simp add: audit_all_def)
  have m: "m \<le> 2 ^ 64 - 2" "m \<le> length es" by (simp_all add: m_def)
  then have seq: "(of_nat (Suc m) :: u64) = - 1 \<longleftrightarrow> m = 2 ^ 64 - 2" using sequence_last [of m] by simp
  have c: "0 < unat cap" "au_capacity (audit_all l es) = cap"
    using assms(1) by (auto simp: audit_capacity audit_new_def unat_gt_0 split: if_splits)
  show ?case
  proof (cases "m = 2 ^ 64 - 2")
    case True
    then have "n = m" using snoc.prems by (simp add: m_def)
    with True ih seq m(2) show ?thesis
      by (simp add: step audit_record_entry_def can_record_def numbered_snoc del: of_nat_Suc)
  next
    case False
    then have n: "n = Suc (length es)" "m = length es" using snoc.prems by (auto simp: m_def)
    from False ih seq c n drop_window [OF c(1), of "numbered m es" "e\<lparr>au_sequence := of_nat (Suc m)\<rparr>"]
    show ?thesis
      by (simp add: step audit_record_entry_def can_record_def Let_def numbered_Suc if_distrib [of records]
          del: of_nat_Suc length_drop cong: if_cong) simp
  qed
qed

section \<open>Properties\<close>

text \<open>A small store, used to instantiate the properties: one manager, one service, one rule.\<close>

definition sample_limits :: policy_limits where
  "sample_limits = \<lparr>lim_identities = 2, lim_policies = 2, lim_services = 2, lim_tickets = 2,
     lim_service_id_bytes = 4\<rparr>"

definition sample_calls :: "policy_call list" where
  "sample_calls = [Provision (1, 1) 7 3, PublishService (1, 1) [65] 3, SetPolicy (1, 1) 7 [65] 1 0,
     IssueTicket (1, 1) [65] 1]"

definition sample_store :: policy_store where
  "sample_store = (case with_limits sample_limits of Inr s \<Rightarrow> calls s sample_calls | Inl _ \<Rightarrow> store_new)"

lemma sample_reachable: "reachable_store sample_store"
  unfolding reachable_store_def
  by - (rule exI [of _ sample_limits], simp add: with_limits_def limits_valid_def sample_store_def sample_limits_def, blast)

lemma sample_ticket:
  "bm_get (tickets sample_store) 1 =
     Some \<lparr>d_principal = 7, d_service = [65], d_service_generation = 1, d_policy_version = 1, d_rights = 1\<rparr>"
  by code_simp

text \<open>
  (C7) A redemption that succeeds does so on current authority: the caller is the principal the
  ticket was issued to, the service is active in the generation of the ticket, the policy
  rule has the version of the ticket, and the granted rights are nonempty and within both
  the rule and the ceiling of the service. The ticket is spent: no later call sequence
  makes it redeemable again, by anyone.
\<close>

theorem redeem_current_authority:
  assumes "reachable_store s" and "redeem_ticket s caller t = (Inr g, s')"
  shows "(\<exists>d rule b. bm_get (tickets s) t = Some d \<and>
      principal_for s caller = Some (g_principal g) \<and> g_principal g = d_principal d \<and>
      service s (d_service d) = Some b \<and> active b \<and> g_service_generation g = sb_generation b \<and>
      policy s (g_principal g) (d_service d) = Some rule \<and> g_policy_version g = version rule \<and>
      g_rights g \<noteq> 0 \<and> rights_contains (allowed rule) (g_rights g) \<and>
      rights_contains (ceiling b) (g_rights g)) \<and>
    (\<forall>cs other. fst (redeem_ticket (calls s' cs) other t) = Inl TicketMissing)"
proof -
  from assms(2) obtain d where d: "bm_get (tickets s) t = Some d" "redeem_decision s caller d = Inr g"
    and s': "s' = s\<lparr>tickets := bm_remove t (tickets s)\<rparr>"
    by (auto simp: redeem_ticket_def redeem_decision_frame Let_def split: option.splits)
  note inv = store_invD [OF reachable_inv [OF assms(1)]]
  have "d_rights d \<noteq> 0" using inv(8) [OF d(1)] by (simp add: ticket_ok_def)
  with d have first: "\<exists>d rule b. bm_get (tickets s) t = Some d \<and>
      principal_for s caller = Some (g_principal g) \<and> g_principal g = d_principal d \<and>
      service s (d_service d) = Some b \<and> active b \<and> g_service_generation g = sb_generation b \<and>
      policy s (g_principal g) (d_service d) = Some rule \<and> g_policy_version g = version rule \<and>
      g_rights g \<noteq> 0 \<and> rights_contains (allowed rule) (g_rights g) \<and>
      rights_contains (ceiling b) (g_rights g)"
    by (auto simp: redeem_decision_ok contains_both service_def policy_def)
  have "fst (redeem_ticket (calls s' cs) other t) = Inl TicketMissing" for cs other
    using inv(7) [OF d(1)] by (intro spent_ticket) (simp_all add: s')
  with first show ?thesis by blast
qed

theorem redeem_current_authority_witness:
  "\<exists>g s'. redeem_ticket sample_store (1, 1) 1 = (Inr g, s') \<and> g_rights g \<noteq> 0 \<and>
     fst (redeem_ticket (calls s' []) (1, 1) 1) = Inl TicketMissing"
proof -
  have ok: "fst (redeem_ticket sample_store (1, 1) 1) =
      Inr \<lparr>g_principal = 7, g_service_generation = 1, g_policy_version = 1, g_rights = 1\<rparr>"
    by code_simp
  then obtain g s' where r: "redeem_ticket sample_store (1, 1) 1 = (Inr g, s')" by (metis prod.collapse)
  from redeem_current_authority [OF sample_reachable r] r show ?thesis by blast
qed

text \<open>
  (C8) Revocation is immediate and permanent: once the policy rule a ticket was issued under is
  replaced, or its service is republished or unpublished, no sequence of later calls ever
  lets anyone redeem that ticket.
\<close>

theorem revocation_permanent:
  assumes "reachable_store s" and "bm_get (tickets s) t = Some d"
    and "(\<exists>actor r n rule. set_policy s actor (d_principal d) (d_service d) r n = (Inr rule, s')) \<or>
         (\<exists>actor c b. publish_service s actor (d_service d) c = (Inr b, s')) \<or>
         (\<exists>actor n. unpublish_service s actor (d_service d) n = (Inr (), s'))"
  shows "\<exists>e. fst (redeem_ticket (calls s' cs) caller t) = Inl e"
proof -
  note inv = store_invD [OF reachable_inv [OF assms(1)]]
  have fresh: "t < next_ticket s" by (rule inv(7) [OF assms(2)])
  from inv(8) [OF assms(2)] obtain rule b where
    rows: "bm_get (policies s) (d_principal d, d_service d) = Some rule" "bm_get (services s) (d_service d) = Some b"
      "d_policy_version d \<le> version rule" "d_service_generation d \<le> sb_generation b"
    by (auto simp: ticket_ok_def)
  from assms(3) show ?thesis
  proof (elim disjE exE)
    fix actor r n rule'
    assume *: "set_policy s actor (d_principal d) (d_service d) r n = (Inr rule', s')"
    then have "tickets s' = tickets s" "next_ticket s' = next_ticket s"
      unfolding set_policy_def commit_Inr_iff by (auto simp: rbind_Inr_iff Let_def split: if_splits)
    with assms(2) fresh rows(1,3) set_policy_row [OF *] show ?thesis
      by (intro stale_policy_refused [of s' t d rule']) auto
  next
    fix actor c b'
    assume *: "publish_service s actor (d_service d) c = (Inr b', s')"
    then have "tickets s' = tickets s" "next_ticket s' = next_ticket s"
      unfolding publish_service_def commit_Inr_iff by (auto simp: rbind_Inr_iff Let_def split: if_splits)
    with assms(2) fresh rows(2,4) publish_row [OF *] show ?thesis
      by (intro stale_service_refused [of s' t d b']) auto
  next
    fix actor n
    assume *: "unpublish_service s actor (d_service d) n = (Inr (), s')"
    then have "tickets s' = tickets s" "next_ticket s' = next_ticket s"
      unfolding unpublish_service_def commit_Inr_iff by (auto simp: rbind_Inr_iff Let_def split: if_splits)
    with assms(2) fresh rows(2,4) unpublish_row [OF *] show ?thesis
      by (intro stale_service_refused [of s' t d "b\<lparr>active := False, ceiling := 0\<rparr>"]) auto
  qed
qed

theorem revocation_permanent_witness:
  "\<exists>s'. set_policy sample_store (1, 1) 7 [65] 1 1 = (Inr \<lparr>allowed = 1, version = 2\<rparr>, s') \<and>
     (\<exists>e. fst (redeem_ticket (calls s' []) (1, 1) 1) = Inl e)"
proof -
  have ok: "fst (set_policy sample_store (1, 1) 7 [65] 1 1) = Inr \<lparr>allowed = 1, version = 2\<rparr>"
    by code_simp
  then obtain s' where p: "set_policy sample_store (1, 1) 7 [65] 1 1 = (Inr \<lparr>allowed = 1, version = 2\<rparr>, s')"
    by (metis prod.collapse)
  from revocation_permanent [OF sample_reachable sample_ticket, of s' "[]" "(1, 1)"] p show ?thesis
    by simp blast
qed



text \<open>
  (C10) Every reachable store respects its limits, knows at most one occupant of each
  address-space slot, keeps service generations within the range the transport can carry,
  and has handed out only ticket numbers below the next one.
\<close>

theorem store_bounds:
  assumes "reachable_store s"
  shows "bm_len (identities s) \<le> unat (lim_identities (limits s)) \<and>
     bm_len (policies s) \<le> unat (lim_policies (limits s)) \<and>
     bm_len (services s) \<le> unat (lim_services (limits s)) \<and>
     outstanding_tickets s \<le> unat (lim_tickets (limits s)) \<and>
     (\<forall>a g h p q. principal_for s (a, g) = Some p \<and> principal_for s (a, h) = Some q \<longrightarrow> g = h) \<and>
     (\<forall>n b. service s n = Some b \<longrightarrow> 0 < sb_generation b \<and> sb_generation b \<le> MAX_SERVICE_GENERATION) \<and>
     (\<forall>t d. bm_get (tickets s) t = Some d \<longrightarrow> t < next_ticket s)"
proof -
  note inv = store_invD [OF reachable_inv [OF assms]]
  have "g = h" if "principal_for s (a, g) = Some p" "principal_for s (a, h) = Some q" for a g h p q
  proof -
    from that have k: "(a, g) \<in> dom (bm_get (identities s))" "(a, h) \<in> dom (bm_get (identities s))"
      by (auto simp: principal_for_def)
    have "asid (a, g) = asid (a, h) \<longrightarrow> (a, g) = (a, h)"
      using inv(1) k unfolding ids_wf_def by blast
    then show ?thesis by simp
  qed
  with inv show ?thesis
    by (auto simp: ids_wf_def outstanding_tickets_def service_def binding_ok_def)
qed

theorem store_bounds_witness:
  "outstanding_tickets sample_store = 1 \<and> outstanding_tickets sample_store \<le> unat (lim_tickets (limits sample_store))"
proof -
  have "outstanding_tickets sample_store = 1" by code_simp
  with store_bounds [OF sample_reachable] show ?thesis by blast
qed

text \<open>
  (C11) Policy rules change only in a \<open>set_policy\<close> call by an identity that holds the policy
  administrator role at that moment, and service bindings only in a publication or
  retirement by an identity that holds the service manager role.
\<close>

theorem privileged_changes:
  "(policies (call s c) \<noteq> policies s \<longrightarrow>
      (\<exists>actor p n r v. c = SetPolicy actor p n r v \<and> holds_role s actor POLICY_ADMIN)) \<and>
   (services (call s c) \<noteq> services s \<longrightarrow>
      (\<exists>actor n. holds_role s actor SERVICE_MANAGER \<and>
         ((\<exists>r. c = PublishService actor n r) \<or> (\<exists>g. c = UnpublishService actor n g))))"
proof (cases c)
  case (PublishService a n r)
  then show ?thesis using without_role(2) [of s a n r]
    by (cases "holds_role s a SERVICE_MANAGER") (auto simp: call_frames simp del: split_paired_Ex)
next
  case (UnpublishService a n g)
  then show ?thesis using without_role(3) [of s a n g]
    by (cases "holds_role s a SERVICE_MANAGER") (auto simp: call_frames simp del: split_paired_Ex)
next
  case (SetPolicy a p n r v)
  then show ?thesis using without_role(1) [of s a p n r v]
    by (cases "holds_role s a POLICY_ADMIN") (auto simp: call_frames simp del: split_paired_Ex)
qed (simp_all only: call.simps call_frames simp_thms)

theorem privileged_changes_witness:
  "services (call sample_store (PublishService (1, 1) [66] 1)) \<noteq> services sample_store \<and>
   (\<exists>actor. holds_role sample_store actor SERVICE_MANAGER)"
proof -
  have "bm_get (services (call sample_store (PublishService (1, 1) [66] 1))) [66] \<noteq> None"
    "bm_get (services sample_store) [66] = None"
    by code_simp+
  then have "services (call sample_store (PublishService (1, 1) [66] 1)) \<noteq> services sample_store"
    by metis
  with privileged_changes [of sample_store "PublishService (1, 1) [66] 1"] show ?thesis by blast
qed

text \<open>
  (C17) The co-located path is the decision it stands for: \<open>authorize_now\<close> answers what the pure
  decision below answers, and leaves nothing behind but one consumed ticket number.
\<close>

theorem authorize_now_decides:
  assumes "reachable_store s"
  shows "fst (authorize_now s caller name r) = decide s caller name r \<and>
     (\<exists>k. snd (authorize_now s caller name r) = s\<lparr>next_ticket := k\<rparr>)"
proof (cases "decide s caller name r")
  case (Inl e)
  then show ?thesis
    by (auto simp: authorize_now_def issue_decides intro: exI [of _ "next_ticket s"])
next
  case (Inr g)
  have fresh: "bm_get (tickets s) (next_ticket s) = None"
    using store_invD(7) [OF reachable_inv [OF assms], of "next_ticket s"]
    by (cases "bm_get (tickets s) (next_ticket s)") auto
  show ?thesis
    using decide_ok [OF Inr] Inr fresh
    by (auto simp: authorize_now_def issue_decides redeem_ticket_def Let_def redeem_decision_frame
        bm_remove_fresh)
qed

theorem authorize_now_decides_witness:
  "fst (authorize_now sample_store (1, 1) [65] 1) = decide sample_store (1, 1) [65] 1 \<and>
   decide sample_store (1, 1) [65] 1 =
     Inr \<lparr>g_principal = 7, g_service_generation = 1, g_policy_version = 1, g_rights = 1\<rparr>"
proof -
  have "decide sample_store (1, 1) [65] 1 =
      Inr \<lparr>g_principal = 7, g_service_generation = 1, g_policy_version = 1, g_rights = 1\<rparr>"
    by code_simp
  with authorize_now_decides [OF sample_reachable, of "(1, 1)" "[65]" 1] show ?thesis by simp
qed

text \<open>
  (C18) Provisioning an identity succeeds only for a slot with no newer occupant, and afterwards
  the slot resolves to exactly this generation with this principal and these roles; a
  failed call changes nothing.
\<close>

theorem provision_exclusive:
  "case provision_identity_from_supervisor s i p r of
     (Inl e, s') \<Rightarrow> s' = s
   | (Inr _, s') \<Rightarrow>
       principal_for s' i = Some p \<and> roles_for s' i = Some r \<and>
       (reachable_store s \<longrightarrow> (\<forall>g. principal_for s' (asid i, g) \<noteq> None \<longrightarrow> g = generation i)) \<and>
       (reachable_store s \<longrightarrow> (\<forall>g. generation i < g \<longrightarrow> principal_for s (asid i, g) = None))"
proof -
  obtain res s' where ps: "provision_identity_from_supervisor s i p r = (res, s')" by force
  show ?thesis
  proof (cases res)
    case (Inl e)
    with ps show ?thesis
      by (auto simp: provision_identity_from_supervisor_def Let_def split: option.splits if_splits)
  next
    case (Inr u)
    then have here: "principal_for s' i = Some p" "roles_for s' i = Some r"
      using ps by (auto simp: provision_identity_from_supervisor_def principal_for_def roles_for_def Let_def
          split: option.splits if_splits)
    have one: "g = generation i" if "reachable_store s" "principal_for s' (asid i, g) \<noteq> None" for g
    proof -
      have "reachable_store s'" using reachable_call [OF that(1), of "Provision i p r"] ps by simp
      then have "ids_wf (unat (lim_identities (limits s'))) (identities s')"
        by (rule store_invD(1) [OF reachable_inv])
      moreover have "i \<in> dom (bm_get (identities s'))" "(asid i, g) \<in> dom (bm_get (identities s'))"
        using here(1) that(2) by (auto simp: principal_for_def)
      ultimately have "asid i = asid (asid i, g) \<longrightarrow> i = (asid i, g)" unfolding ids_wf_def by blast
      then show ?thesis by (metis fst_conv snd_conv)
    qed
    have none: "principal_for s (asid i, g) = None" if "reachable_store s" "generation i < g" for g
    proof (rule ccontr)
      assume "principal_for s (asid i, g) \<noteq> None"
      then have g: "(asid i, g) \<in> dom (bm_get (identities s))" by (auto simp: principal_for_def)
      show False
      proof (cases "bm_get (identities s) i")
        case None
        with g that(2) ps Inr show False
          by (auto simp: provision_identity_from_supervisor_def set_bm_keys split: if_splits
              dest: bspec [of _ _ "(asid i, g)"])
      next
        case (Some x)
        have "asid i = asid (asid i, g) \<longrightarrow> i = (asid i, g)"
          using store_invD(1) [OF reachable_inv [OF that(1)]] g Some unfolding ids_wf_def by blast
        with that(2) show False by (metis fst_conv order_less_irrefl snd_conv)
      qed
    qed
    from ps Inr here one none show ?thesis by auto
  qed
qed

theorem provision_exclusive_witness:
  "fst (provision_identity_from_supervisor sample_store (1, 2) 9 0) = Inr () \<and>
   principal_for (snd (provision_identity_from_supervisor sample_store (1, 2) 9 0)) (1, 1) = None"
proof -
  have r: "fst (provision_identity_from_supervisor sample_store (1, 2) 9 0) = Inr ()" by code_simp
  with provision_exclusive [of sample_store "(1, 2)" 9 0] sample_reachable
  have "principal_for (snd (provision_identity_from_supervisor sample_store (1, 2) 9 0)) (1, 1) \<noteq> None
      \<longrightarrow> (1 :: u64) = 2"
    by (cases "provision_identity_from_supervisor sample_store (1, 2) 9 0") (auto split: sum.splits)
  with r show ?thesis by simp
qed

text \<open>
  (C20) The audit log keeps exactly the most recent records within its capacity, in order and
  numbered consecutively from one; when the sequence is exhausted it stops accepting.
\<close>

theorem audit_log_stream:
  assumes "audit_new cap = Inr l"
  shows "records (audit_all l es) =
       drop (min (length es) (2 ^ 64 - 2) - unat cap) (numbered (min (length es) (2 ^ 64 - 2)) es) \<and>
     length (records (audit_all l es)) \<le> unat cap \<and>
     (can_record (audit_all l es) \<longleftrightarrow> length es < 2 ^ 64 - 2)"
proof -
  define n where "n = min (length es) ((2 :: nat) ^ 64 - 2)"
  note st = audit_all_stream [OF assms n_def]
  have "(of_nat (Suc n) :: u64) = - 1 \<longleftrightarrow> n = 2 ^ 64 - 2"
    using sequence_last [of n] by (simp add: n_def)
  then have "can_record (audit_all l es) \<longleftrightarrow> length es < 2 ^ 64 - 2"
    using st by (auto simp: can_record_def n_def simp del: of_nat_Suc)
  with st show ?thesis by (simp add: n_def)
qed

theorem audit_log_stream_witness:
  "\<exists>l. audit_new 1 = Inr l \<and> (\<forall>e. length (records (audit_all l [e, e])) \<le> 1)"
proof -
  obtain l where l: "audit_new 1 = Inr l" by (simp add: audit_new_def)
  with audit_log_stream [OF l] show ?thesis by fastforce
qed

end
