(* ===== verification/Authorization_Wire.thy ===== *)
theory Authorization_Wire
  imports Authorization
begin

text \<open>
  The \<open>wire\<close> module of \<^verbatim>\<open>crates/charlotte-authorization/src/lib.rs\<close>: the bounded request format
  of the policy endpoint. Encoders write into a caller-supplied buffer, which is part of
  their result; the format is proved canonical in both directions.
\<close>

section \<open>Layout\<close>

definition MAGIC :: u32 where "MAGIC = 0x31545541"

definition HEADER_LEN :: nat where "HEADER_LEN = 32"

definition MAX_SERVICE_LEN :: nat where "MAX_SERVICE_LEN = 256"

definition GRANT_HEADER_LEN :: nat where "GRANT_HEADER_LEN = 40"

definition MAX_REQUEST_LEN :: nat where "MAX_REQUEST_LEN = GRANT_HEADER_LEN + MAX_SERVICE_LEN"

definition KIND_LOOKUP :: u16 where "KIND_LOOKUP = 1"

definition KIND_SET_POLICY :: u16 where "KIND_SET_POLICY = 2"

definition KIND_PUBLISH :: u16 where "KIND_PUBLISH = 3"

definition KIND_GRANT_LOOKUP :: u16 where "KIND_GRANT_LOOKUP = 4"

lemmas layout_defs = MAGIC_def HEADER_LEN_def MAX_SERVICE_LEN_def GRANT_HEADER_LEN_def
  KIND_LOOKUP_def KIND_SET_POLICY_def KIND_PUBLISH_def KIND_GRANT_LOOKUP_def

datatype request =
  Lookup (rq_service: service_id) (rq_rights: rights)
| SetPolicyRequest service_id u64 rights u64 \<comment> \<open>name, subject, allowed, expected version\<close>
| Publish service_id rights
| GrantLookup service_id rights u64 u64 u64 \<comment> \<open>name, requested, slot, generation, principal\<close>

section \<open>Decoding\<close>

definition read_u16 :: "u8 list \<Rightarrow> nat \<Rightarrow> u16 option" where
  "read_u16 bytes offset = map_option from_le_bytes (slice offset 2 bytes)"

definition read_u32 :: "u8 list \<Rightarrow> nat \<Rightarrow> u32 option" where
  "read_u32 bytes offset = map_option from_le_bytes (slice offset 4 bytes)"

definition read_u64 :: "u8 list \<Rightarrow> nat \<Rightarrow> u64 option" where
  "read_u64 bytes offset = map_option from_le_bytes (slice offset 8 bytes)"

definition decode_body :: "u16 \<Rightarrow> rights \<Rightarrow> u64 \<Rightarrow> u64 \<Rightarrow> u64 option \<Rightarrow> service_id \<Rightarrow> request option" where
  "decode_body kind rights subject ver target name =
     (if kind = KIND_LOOKUP \<and> subject = 0 \<and> ver = 0 \<and> \<not> rights_is_empty rights
      then Some (Lookup name rights)
      else if kind = KIND_SET_POLICY \<and> subject \<noteq> 0
      then Some (SetPolicyRequest name subject rights ver)
      else if kind = KIND_PUBLISH \<and> subject = 0 \<and> ver = 0 \<and> \<not> rights_is_empty rights
      then Some (Publish name rights)
      else if kind = KIND_GRANT_LOOKUP \<and> subject \<noteq> 0 \<and> ver \<noteq> 0 \<and>
              (case target of Some slot \<Rightarrow> slot \<noteq> 0 | None \<Rightarrow> False) \<and> \<not> rights_is_empty rights
      then map_option (\<lambda>slot. GrantLookup name rights slot ver subject) target
      else None)"

definition decode :: "u8 list \<Rightarrow> request option" where
  "decode bytes =
     (if length bytes < HEADER_LEN then None
      else Option.bind (read_u32 bytes 0) (\<lambda>magic.
        if magic \<noteq> MAGIC then None
        else Option.bind (read_u32 bytes 12) (\<lambda>reserved.
        if reserved \<noteq> 0 then None
        else Option.bind (read_u16 bytes 4) (\<lambda>kind.
          Option.bind (read_u16 bytes 6) (\<lambda>len.
          let name_len = unat len;
              header_len = (if kind = KIND_GRANT_LOOKUP then GRANT_HEADER_LEN else HEADER_LEN)
          in if name_len = 0 \<or> name_len > MAX_SERVICE_LEN \<or> length bytes \<noteq> header_len + name_len then None
          else Option.bind (read_u32 bytes 8) (\<lambda>bits.
            Option.bind (rights_from_bits bits) (\<lambda>rights.
            Option.bind (read_u64 bytes 16) (\<lambda>subject.
            Option.bind (read_u64 bytes 24) (\<lambda>ver.
            decode_body kind rights subject ver (read_u64 bytes 32) (drop header_len bytes))))))))))"

section \<open>Encoding\<close>

definition encode ::
    "u16 \<Rightarrow> service_id \<Rightarrow> rights \<Rightarrow> u64 \<Rightarrow> u64 \<Rightarrow> u8 list \<Rightarrow> nat option \<times> u8 list" where
  "encode kind name rights subject ver output =
     (if name = [] \<or> length name > MAX_SERVICE_LEN then (None, output)
      else let len = HEADER_LEN + length name in
        if length output < len then (None, output)
        else
          let bytes = replicate len 0;
              bytes = copy_at 0 (to_le_bytes 4 MAGIC) bytes;
              bytes = copy_at 4 (to_le_bytes 2 kind) bytes;
              bytes = copy_at 6 (to_le_bytes 2 (of_nat (length name) :: u16)) bytes;
              bytes = copy_at 8 (to_le_bytes 4 rights) bytes;
              bytes = copy_at 16 (to_le_bytes 8 subject) bytes;
              bytes = copy_at 24 (to_le_bytes 8 ver) bytes;
              bytes = copy_at HEADER_LEN name bytes
          in (Some len, bytes @ drop len output))"

definition encode_lookup :: "service_id \<Rightarrow> rights \<Rightarrow> u8 list \<Rightarrow> nat option \<times> u8 list" where
  "encode_lookup name requested output =
     (if rights_is_empty requested then (None, output)
      else encode KIND_LOOKUP name requested 0 0 output)"

definition encode_set_policy ::
    "service_id \<Rightarrow> u64 \<Rightarrow> rights \<Rightarrow> u64 \<Rightarrow> u8 list \<Rightarrow> nat option \<times> u8 list" where
  "encode_set_policy name subject allow expected_version output =
     (if subject = 0 then (None, output)
      else encode KIND_SET_POLICY name allow subject expected_version output)"

definition encode_publish :: "service_id \<Rightarrow> rights \<Rightarrow> u8 list \<Rightarrow> nat option \<times> u8 list" where
  "encode_publish name ceil output =
     (if rights_is_empty ceil then (None, output)
      else encode KIND_PUBLISH name ceil 0 0 output)"

definition encode_grant_lookup ::
    "service_id \<Rightarrow> rights \<Rightarrow> u64 \<Rightarrow> u64 \<Rightarrow> u64 \<Rightarrow> u8 list \<Rightarrow> nat option \<times> u8 list" where
  "encode_grant_lookup name requested target_asid target_generation target_principal output =
     (if rights_is_empty requested \<or> target_asid = 0 \<or> target_generation = 0 \<or> target_principal = 0 \<or>
         name = [] \<or> length name > MAX_SERVICE_LEN then (None, output)
      else let len = GRANT_HEADER_LEN + length name in
        if length output < len then (None, output)
        else
          let bytes = replicate len 0;
              bytes = copy_at 0 (to_le_bytes 4 MAGIC) bytes;
              bytes = copy_at 4 (to_le_bytes 2 KIND_GRANT_LOOKUP) bytes;
              bytes = copy_at 6 (to_le_bytes 2 (of_nat (length name) :: u16)) bytes;
              bytes = copy_at 8 (to_le_bytes 4 requested) bytes;
              bytes = copy_at 16 (to_le_bytes 8 target_principal) bytes;
              bytes = copy_at 24 (to_le_bytes 8 target_generation) bytes;
              bytes = copy_at 32 (to_le_bytes 8 target_asid) bytes;
              bytes = copy_at GRANT_HEADER_LEN name bytes
          in (Some len, bytes @ drop len output))"

text \<open>The encoder of each request.\<close>

fun encode_request :: "request \<Rightarrow> u8 list \<Rightarrow> nat option \<times> u8 list" where
  "encode_request (Lookup name r) output = encode_lookup name r output"
| "encode_request (SetPolicyRequest name subject r v) output = encode_set_policy name subject r v output"
| "encode_request (Publish name r) output = encode_publish name r output"
| "encode_request (GrantLookup name r a g p) output = encode_grant_lookup name r a g p output"

fun request_rights :: "request \<Rightarrow> rights" where
  "request_rights (Lookup _ r) = r"
| "request_rights (SetPolicyRequest _ _ r _) = r"
| "request_rights (Publish _ r) = r"
| "request_rights (GrantLookup _ r _ _ _) = r"

section \<open>The bytes of a request\<close>

definition header :: "u16 \<Rightarrow> nat \<Rightarrow> rights \<Rightarrow> u64 \<Rightarrow> u64 \<Rightarrow> u8 list" where
  "header kind n r subject ver =
     to_le_bytes 4 MAGIC @ to_le_bytes 2 kind @ to_le_bytes 2 (of_nat n :: u16) @ to_le_bytes 4 r @
     replicate 4 0 @ to_le_bytes 8 subject @ to_le_bytes 8 ver"

lemma length_header [simp]: "length (header kind n r subject ver) = 32"
  by (simp add: header_def)

lemma encode_bytes:
  "encode kind name r subject ver output =
     (if name = [] \<or> 256 < length name \<or> length output < 32 + length name then (None, output)
      else (Some (32 + length name),
        header kind (length name) r subject ver @ name @ drop (32 + length name) output))"
  unfolding encode_def Let_def
  by (simp add: layout_defs copy_at_def header_def flip: replicate_add)

lemma encode_grant_bytes:
  "encode_grant_lookup name r a g p output =
     (if rights_is_empty r \<or> a = 0 \<or> g = 0 \<or> p = 0 \<or> name = [] \<or> 256 < length name \<or>
         length output < 40 + length name then (None, output)
      else (Some (40 + length name),
        header KIND_GRANT_LOOKUP (length name) r p g @ to_le_bytes 8 a @ name @
        drop (40 + length name) output))"
  unfolding encode_grant_lookup_def Let_def
  by (simp add: layout_defs copy_at_def header_def flip: replicate_add)

lemma from_zero_bytes [simp]: "from_le_bytes (replicate n 0) = 0"
  by (induction n) simp_all

lemma to_zero_bytes: "to_le_bytes n 0 = replicate n 0"
  by (rule nth_equalityI) (simp_all add: to_le_bytes_def)

lemma read_header:
  fixes kind :: u16
  shows "read_u32 (header kind n r subject ver @ rest) 0 = Some MAGIC"
    "read_u16 (header kind n r subject ver @ rest) 4 = Some kind"
    "read_u16 (header kind n r subject ver @ rest) 6 = Some (of_nat n)"
    "read_u32 (header kind n r subject ver @ rest) 8 = Some r"
    "read_u32 (header kind n r subject ver @ rest) 12 = Some 0"
    "read_u64 (header kind n r subject ver @ rest) 16 = Some subject"
    "read_u64 (header kind n r subject ver @ rest) 24 = Some ver"
    "read_u64 (header kind n r subject ver @ to_le_bytes 8 a @ rest) 32 = Some a"
  by (simp_all add: read_u32_def read_u16_def read_u64_def slice_def header_def from_to_le_bytes)

lemma decode_header:
  fixes kind :: u16
  assumes "rights_from_bits r = Some r" "0 < n" "n \<le> 256"
    "length rest = (if kind = KIND_GRANT_LOOKUP then 8 else 0) + n"
  shows "decode (header kind n r subject ver @ rest) =
     decode_body kind r subject ver (read_u64 (header kind n r subject ver @ rest) 32)
       (drop (if kind = KIND_GRANT_LOOKUP then 8 else 0) rest)"
proof -
  have "unat (of_nat n :: u16) = n" using assms(3) by (simp add: unat_of_nat)
  with assms show ?thesis
    by (simp add: decode_def read_header Let_def HEADER_LEN_def GRANT_HEADER_LEN_def MAX_SERVICE_LEN_def)
qed

lemma slice_bytes:
  "read_u16 bytes i = Some w \<Longrightarrow> take 2 (drop i bytes) = to_le_bytes 2 w"
  "read_u32 bytes i = Some x \<Longrightarrow> take 4 (drop i bytes) = to_le_bytes 4 x"
  "read_u64 bytes i = Some y \<Longrightarrow> take 8 (drop i bytes) = to_le_bytes 8 y"
  using to_from_le_bytes [of "take 2 (drop i bytes)", where 'a = 16]
    to_from_le_bytes [of "take 4 (drop i bytes)", where 'a = 32]
    to_from_le_bytes [of "take 8 (drop i bytes)", where 'a = 64]
  by (auto simp: read_u16_def read_u32_def read_u64_def slice_def split: if_splits)

lemma take_drop_split: "drop i bytes = take n (drop i bytes) @ drop (i + n) bytes"
  by (metis add.commute append_take_drop_id drop_drop)

lemma header_of_reads:
  assumes "read_u32 bytes 0 = Some MAGIC" "read_u16 bytes 4 = Some kind" "read_u16 bytes 6 = Some len"
    "read_u32 bytes 8 = Some r" "read_u32 bytes 12 = Some 0" "read_u64 bytes 16 = Some subject"
    "read_u64 bytes 24 = Some ver"
  shows "bytes = header kind (unat len) r subject ver @ drop 32 bytes"
proof -
  note seg = slice_bytes(2) [OF assms(1)] slice_bytes(1) [OF assms(2)] slice_bytes(1) [OF assms(3)]
    slice_bytes(2) [OF assms(4)] slice_bytes(2) [OF assms(5)] slice_bytes(3) [OF assms(6)]
    slice_bytes(3) [OF assms(7)]
  have "bytes = take 4 (drop 0 bytes) @ drop 4 bytes" by simp
  also have "drop 4 bytes = take 2 (drop 4 bytes) @ drop 6 bytes" using take_drop_split [of 4 bytes 2] by simp
  also have "drop 6 bytes = take 2 (drop 6 bytes) @ drop 8 bytes" using take_drop_split [of 6 bytes 2] by simp
  also have "drop 8 bytes = take 4 (drop 8 bytes) @ drop 12 bytes" using take_drop_split [of 8 bytes 4] by simp
  also have "drop 12 bytes = take 4 (drop 12 bytes) @ drop 16 bytes" using take_drop_split [of 12 bytes 4] by simp
  also have "drop 16 bytes = take 8 (drop 16 bytes) @ drop 24 bytes" using take_drop_split [of 16 bytes 8] by simp
  also have "drop 24 bytes = take 8 (drop 24 bytes) @ drop 32 bytes" using take_drop_split [of 24 bytes 8] by simp
  finally have "bytes = to_le_bytes 4 MAGIC @ to_le_bytes 2 kind @ to_le_bytes 2 len @ to_le_bytes 4 r @
      replicate 4 0 @ to_le_bytes 8 subject @ to_le_bytes 8 ver @ drop 32 bytes"
    by (simp only: seg to_zero_bytes)
  moreover have "(of_nat (unat len) :: u16) = len" by simp
  ultimately show ?thesis by (simp only: header_def append_assoc)
qed

lemma decode_encode_plain:
  assumes "encode kind name r subject ver output = (Some n, output')" "rights_from_bits r = Some r"
    "kind \<noteq> KIND_GRANT_LOOKUP"
  shows "n \<le> length output \<and> length output' = length output \<and> drop n output' = drop n output \<and>
     decode (take n output') = decode_body kind r subject ver (read_u64 (take n output') 32) name"
proof -
  from assms(1) have ok: "name \<noteq> []" "length name \<le> 256" "32 + length name \<le> length output"
    and n: "n = 32 + length name"
    and out: "output' = header kind (length name) r subject ver @ name @ drop n output"
    by (auto simp: encode_bytes split: if_splits)
  have "take n output' = header kind (length name) r subject ver @ name" by (simp add: out n)
  with decode_header [of r "length name" name kind subject ver] assms(2,3) ok show ?thesis
    by (simp add: out n)
qed

lemma decode_encode_grant:
  assumes "encode_grant_lookup name r a g p output = (Some n, output')" "rights_from_bits r = Some r"
  shows "n \<le> length output \<and> length output' = length output \<and> drop n output' = drop n output \<and>
     decode (take n output') = Some (GrantLookup name r a g p)"
proof -
  from assms(1) have ok: "name \<noteq> []" "length name \<le> 256" "40 + length name \<le> length output"
      "\<not> rights_is_empty r" "a \<noteq> 0" "g \<noteq> 0" "p \<noteq> 0"
    and n: "n = 40 + length name"
    and out: "output' = header KIND_GRANT_LOOKUP (length name) r p g @ to_le_bytes 8 a @ name @ drop n output"
    by (auto simp: encode_grant_bytes split: if_splits)
  have "take n output' = header KIND_GRANT_LOOKUP (length name) r p g @ to_le_bytes 8 a @ name"
    by (simp add: out n)
  with decode_header [of r "length name" "to_le_bytes 8 a @ name" KIND_GRANT_LOOKUP p g] assms(2) ok
  show ?thesis
    by (simp add: out n read_header decode_body_def layout_defs)
qed

lemma decode_cases:
  assumes "decode bytes = Some rq"
  obtains kind r subject ver and len :: u16 where
    "bytes = header kind (unat len) r subject ver @ drop 32 bytes" "rights_from_bits r = Some r"
    "0 < unat len" "unat len \<le> 256"
    "length bytes = (if kind = KIND_GRANT_LOOKUP then 40 else 32) + unat len"
    "decode_body kind r subject ver (read_u64 bytes 32)
       (drop (if kind = KIND_GRANT_LOOKUP then 40 else 32) bytes) = Some rq"
proof -
  from assms obtain kind len r subject ver where
    "read_u32 bytes 0 = Some MAGIC" "read_u16 bytes 4 = Some kind" "read_u16 bytes 6 = Some len"
    "read_u32 bytes 8 = Some r" "read_u32 bytes 12 = Some 0" "read_u64 bytes 16 = Some subject"
    "read_u64 bytes 24 = Some ver" "rights_from_bits r = Some r" "0 < unat len" "unat len \<le> 256"
    "length bytes = (if kind = KIND_GRANT_LOOKUP then 40 else 32) + unat len"
    "decode_body kind r subject ver (read_u64 bytes 32)
       (drop (if kind = KIND_GRANT_LOOKUP then 40 else 32) bytes) = Some rq"
    unfolding decode_def HEADER_LEN_def GRANT_HEADER_LEN_def MAX_SERVICE_LEN_def
    by (auto simp: Let_def bind_eq_Some_conv rights_from_bits_def split: if_splits)
  with header_of_reads [of bytes kind len r subject ver] that show thesis by blast
qed

lemma decode_body_cases:
  assumes "decode_body kind r subject ver target name = Some rq"
  shows "rq = Lookup name r \<and> kind = KIND_LOOKUP \<and> subject = 0 \<and> ver = 0 \<and> \<not> rights_is_empty r \<or>
     rq = SetPolicyRequest name subject r ver \<and> kind = KIND_SET_POLICY \<and> subject \<noteq> 0 \<or>
     rq = Publish name r \<and> kind = KIND_PUBLISH \<and> subject = 0 \<and> ver = 0 \<and> \<not> rights_is_empty r \<or>
     (\<exists>a. rq = GrantLookup name r a ver subject \<and> kind = KIND_GRANT_LOOKUP \<and> target = Some a \<and> a \<noteq> 0 \<and>
        subject \<noteq> 0 \<and> ver \<noteq> 0 \<and> \<not> rights_is_empty r)"
  using assms unfolding decode_body_def by (auto split: if_splits option.splits)

lemma encode_decode:
  assumes "decode bytes = Some rq"
  shows "encode_request rq bytes = (Some (length bytes), bytes)"
  using assms
proof (cases rule: decode_cases)
  case (1 kind r subject ver len)
  let ?h = "if kind = KIND_GRANT_LOOKUP then 40 else (32 :: nat)"
  have len: "length (drop ?h bytes) = unat len" using 1(5) by simp
  then have ne: "drop ?h bytes \<noteq> []" using 1(3) by auto
  have plain: "encode kind (drop 32 bytes) r subject ver bytes = (Some (length bytes), bytes)"
    if "kind \<noteq> KIND_GRANT_LOOKUP"
    using that 1 len ne by (simp add: encode_bytes)
  from decode_body_cases [OF 1(6)] show ?thesis
  proof (elim disjE exE conjE)
    fix a assume rq: "rq = GrantLookup (drop ?h bytes) r a ver subject" and k: "kind = KIND_GRANT_LOOKUP"
      and a: "read_u64 bytes 32 = Some a" and ok: "a \<noteq> 0" "subject \<noteq> 0" "ver \<noteq> 0" "\<not> rights_is_empty r"
    have "drop 32 bytes = to_le_bytes 8 a @ drop 40 bytes"
      using take_drop_split [of 32 bytes 8] slice_bytes(3) [OF a] by simp
    with 1(1) k have "bytes = header KIND_GRANT_LOOKUP (unat len) r subject ver @ to_le_bytes 8 a @ drop 40 bytes"
      by simp
    with 1(3,4,5) k ok len ne show ?thesis by (simp add: rq encode_grant_bytes)
  qed (use plain in \<open>simp_all add: layout_defs encode_lookup_def encode_set_policy_def encode_publish_def\<close>)
qed

section \<open>Properties\<close>

text \<open>
  (C19) The format is canonical. Encoding a request with valid rights into a buffer writes a
  prefix that decodes to that request and leaves the rest of the buffer alone; and any
  bytes that decode are the encoding of what they decode to.
\<close>

theorem wire_canonical:
  "(encode_request rq output = (Some n, output') \<and> rights_from_bits (request_rights rq) = Some (request_rights rq)
      \<longrightarrow> n \<le> length output \<and> length output' = length output \<and> drop n output' = drop n output \<and>
          decode (take n output') = Some rq) \<and>
   (decode bytes = Some rq \<longrightarrow> encode_request rq bytes = (Some (length bytes), bytes))"
proof (rule conjI; rule impI)
  assume *: "encode_request rq output = (Some n, output') \<and> rights_from_bits (request_rights rq) = Some (request_rights rq)"
  show "n \<le> length output \<and> length output' = length output \<and> drop n output' = drop n output \<and>
      decode (take n output') = Some rq"
  proof (cases rq)
    case (Lookup name r)
    with * decode_encode_plain [of KIND_LOOKUP name r 0 0 "output" n output'] show ?thesis
      by (simp add: encode_lookup_def decode_body_def layout_defs split: if_splits)
  next
    case (SetPolicyRequest name subject r ver)
    with * decode_encode_plain [of KIND_SET_POLICY name r subject ver "output" n output'] show ?thesis
      by (simp add: encode_set_policy_def decode_body_def layout_defs split: if_splits)
  next
    case (Publish name r)
    with * decode_encode_plain [of KIND_PUBLISH name r 0 0 "output" n output'] show ?thesis
      by (simp add: encode_publish_def decode_body_def layout_defs split: if_splits)
  next
    case (GrantLookup name r a g p)
    with * decode_encode_grant [of name r a g p "output" n output'] show ?thesis by simp
  qed
next
  assume "decode bytes = Some rq"
  then show "encode_request rq bytes = (Some (length bytes), bytes)" by (rule encode_decode)
qed

theorem wire_canonical_witness:
  "\<exists>output'. encode_request (Lookup [65] 1) (replicate 40 7) = (Some 33, output') \<and>
     decode (take 33 output') = Some (Lookup [65] 1)"
proof -
  let ?out = "replicate 40 7 :: u8 list"
  have "fst (encode_request (Lookup [65] 1) ?out) = Some 33"
    by (simp add: encode_lookup_def encode_bytes rights_is_empty_def)
  then obtain output' where e: "encode_request (Lookup [65] 1) ?out = (Some 33, output')"
    by (metis prod.collapse)
  have "rights_from_bits 1 = Some 1" by code_simp
  with e wire_canonical [of "Lookup [65] 1" ?out 33 output'] show ?thesis by auto
qed

end
