(* ===== verification/Raft_Types.thy ===== *)
theory Raft_Types
  imports Prelude "HOL-Library.Code_Target_Nat"
begin

text \<open>
  \<^verbatim>\<open>crates/catten-graft/src/types.rs\<close>, \<^verbatim>\<open>transport.rs\<close> and \<^verbatim>\<open>clock.rs\<close>: the data of the consensus
  library. Terms, indices and milliseconds are natural numbers bounded by \<open>u64\<close>; the places
  where the code saturates at that bound are written with \<open>sat_add\<close> and \<open>sat_mul\<close>. Identifiers are
  strings of UTF-8 bytes, payloads are byte lists, and the transport is the sequence of
  calls made on it.
\<close>

section \<open>Bounded counters\<close>

definition U64_MAX :: nat where "U64_MAX = 18446744073709551615"

definition sat_add :: "nat \<Rightarrow> nat \<Rightarrow> nat" where
  "sat_add a b = min (a + b) U64_MAX"

definition sat_mul :: "nat \<Rightarrow> nat \<Rightarrow> nat" where
  "sat_mul a b = min (a * b) U64_MAX"

lemma sat_add_ge: "a \<le> U64_MAX \<Longrightarrow> a \<le> sat_add a b"
  by (simp add: sat_add_def)

lemma sat_add_le: "sat_add a b \<le> U64_MAX"
  by (simp add: sat_add_def)

section \<open>Peers, entries and messages\<close>

type_synonym bytes = "u8 list"

datatype role = Voter | Learner

record peer =
  p_id :: string
  service_name :: u64
  p_role :: role

definition peer_voter :: "string \<Rightarrow> u64 \<Rightarrow> peer" where
  "peer_voter i s = \<lparr>p_id = i, service_name = s, p_role = Voter\<rparr>"

definition peer_learner :: "string \<Rightarrow> u64 \<Rightarrow> peer" where
  "peer_learner i s = \<lparr>p_id = i, service_name = s, p_role = Learner\<rparr>"

definition peer_is_voter :: "peer \<Rightarrow> bool" where
  "peer_is_voter p \<longleftrightarrow> p_role p = Voter"

definition peer_is_learner :: "peer \<Rightarrow> bool" where
  "peer_is_learner p \<longleftrightarrow> p_role p = Learner"

record log_entry =
  e_term :: nat
  e_peer_id :: string
  e_data :: bytes

definition entry_new :: "nat \<Rightarrow> string \<Rightarrow> bytes \<Rightarrow> log_entry" where
  "entry_new t p d = \<lparr>e_term = t, e_peer_id = p, e_data = d\<rparr>"

definition entry_noop :: "nat \<Rightarrow> string \<Rightarrow> log_entry" where
  "entry_noop t p = \<lparr>e_term = t, e_peer_id = p, e_data = []\<rparr>"

definition is_noop :: "log_entry \<Rightarrow> bool" where
  "is_noop e \<longleftrightarrow> e_data e = []"

datatype node_state = Follower | Candidate | Leader

record vote_request =
  vq_term :: nat
  vq_candidate_id :: string
  vq_last_log_index :: nat
  vq_last_log_term :: nat

record vote_response =
  vs_peer_id :: string
  vs_term :: nat
  vote_granted :: bool

record append_entries_request =
  aq_term :: nat
  aq_leader_id :: string
  aq_prev_log_index :: nat
  aq_prev_log_term :: nat
  aq_leader_commit :: nat
  aq_entries :: "log_entry list"

record append_entries_response =
  as_peer_id :: string
  as_term :: nat
  as_success :: bool
  as_match_index :: nat

record install_snapshot_request =
  iq_term :: nat
  iq_leader_id :: string
  iq_last_included_index :: nat
  iq_last_included_term :: nat
  iq_offset :: nat
  iq_data :: bytes
  iq_done :: bool

record install_snapshot_response =
  is_peer_id :: string
  is_term :: nat
  is_success :: bool
  is_last_included_index :: nat
  is_next_offset :: nat
  is_done :: bool

definition ERR_NOT_LEADER :: int where "ERR_NOT_LEADER = - 1"

definition ERR_TOO_LARGE :: int where "ERR_TOO_LARGE = - 5"

definition ERR_READ_BARRIER :: int where "ERR_READ_BARRIER = - 6"

definition ERR_NOT_COMMITTED :: int where "ERR_NOT_COMMITTED = - 7"

definition ERR_CONFIG_IN_PROGRESS :: int where "ERR_CONFIG_IN_PROGRESS = - 8"

definition ERR_RESOURCE_LIMIT :: int where "ERR_RESOURCE_LIMIT = - 9"

definition MAX_COMMAND_BYTES :: nat where "MAX_COMMAND_BYTES = 3000"

definition MAX_SNAPSHOT_BYTES :: nat where "MAX_SNAPSHOT_BYTES = 64 * 1024 * 1024"

section \<open>The transport\<close>

datatype rpc_completion =
  VoteCompletion string vote_response
| AppendCompletion string append_entries_response
| SnapshotCompletion string install_snapshot_response nat bool
    \<comment> \<open>peer, response, next offset sent, done sent\<close>

datatype transport_call =
  TReset
| TSetMillis nat
| TVoteRequest peer nat string nat nat \<comment> \<open>peer, term, candidate, last log index, last log term\<close>
| TAppendEntries peer append_entries_request
| TInstallSnapshot peer install_snapshot_request
| THeartbeatComplete

section \<open>The monotonic clock\<close>

datatype clock_error = InvalidFrequency | FrequencyChanged | CounterRegressed | MillisecondsExhausted

record monotonic_clock =
  ck_origin :: u64
  ck_last :: u64
  ck_frequency_hz :: u64

definition clock_new :: "u64 \<Rightarrow> u64 \<Rightarrow> clock_error + monotonic_clock" where
  "clock_new counter hz =
     (if hz = 0 then Inl InvalidFrequency
      else Inr \<lparr>ck_origin = counter, ck_last = counter, ck_frequency_hz = hz\<rparr>)"

definition clock_sample :: "monotonic_clock \<Rightarrow> u64 \<Rightarrow> u64 \<Rightarrow> (clock_error + u64) \<times> monotonic_clock" where
  "clock_sample c counter hz =
     (if hz \<noteq> ck_frequency_hz c then (Inl FrequencyChanged, c)
      else if counter < ck_last c then (Inl CounterRegressed, c)
      else
        let millis = (ucast (counter - ck_origin c) :: u128) * 1000 div ucast hz in
        if ucast (- 1 :: u64) < millis then (Inl MillisecondsExhausted, c)
        else (Inr (ucast millis), c\<lparr>ck_last := counter\<rparr>))"

text \<open>The readings of a clock over a sequence of counter samples.\<close>

fun clock_readings :: "monotonic_clock \<Rightarrow> (u64 \<times> u64) list \<Rightarrow> (clock_error + u64) list" where
  "clock_readings c [] = []"
| "clock_readings c ((counter, hz) # samples) =
     (case clock_sample c counter hz of (r, c') \<Rightarrow> r # clock_readings c' samples)"

section \<open>Properties of the clock\<close>

lemma clock_sample_ok:
  assumes "clock_sample c counter hz = (Inr r, c')" and "ck_origin c \<le> ck_last c" "hz \<noteq> 0"
  shows "hz = ck_frequency_hz c" "ck_last c \<le> counter" "c' = c\<lparr>ck_last := counter\<rparr>"
    "unat r = (unat counter - unat (ck_origin c)) * 1000 div unat hz"
proof -
  let ?d = "(ucast (counter - ck_origin c) :: u128) * 1000 div ucast hz"
  from assms(1) have ok: "hz = ck_frequency_hz c" "ck_last c \<le> counter" "c' = c\<lparr>ck_last := counter\<rparr>"
    and r: "r = ucast ?d" and fits: "\<not> ucast (- 1 :: u64) < ?d"
    by (auto simp: clock_sample_def Let_def not_less split: if_splits)
  show "hz = ck_frequency_hz c" "ck_last c \<le> counter" "c' = c\<lparr>ck_last := counter\<rparr>"
    using ok by auto
  have le: "ck_origin c \<le> counter" using ok(2) assms(2) by order
  have sub: "unat (counter - ck_origin c) = unat counter - unat (ck_origin c)"
    using le by (simp add: unat_sub)
  have u: "unat (ucast (counter - ck_origin c) :: u128) = unat counter - unat (ck_origin c)"
    using sub unat_u64_less [of counter] by (simp add: unsigned_ucast_eq take_bit_eq_mod)
  have h: "unat (ucast hz :: u128) = unat hz"
    using unat_u64_less [of hz] by (simp add: unsigned_ucast_eq take_bit_eq_mod)
  have m: "unat ((ucast (counter - ck_origin c) :: u128) * 1000) = (unat counter - unat (ck_origin c)) * 1000"
    using u unat_u64_less [of counter] by (simp add: unat_word_ariths)
  have d: "unat ?d = (unat counter - unat (ck_origin c)) * 1000 div unat hz"
    by (simp add: unat_div m h)
  have "unat ?d < 2 ^ 64"
    using fits by (simp add: word_less_nat_alt unsigned_ucast_eq take_bit_eq_mod unat_max_word)
  then show "unat r = (unat counter - unat (ck_origin c)) * 1000 div unat hz"
    unfolding r d [symmetric] by (simp add: unsigned_ucast_eq take_bit_eq_mod)
qed

lemma clock_sample_err: "clock_sample c counter hz = (Inl e, c') \<Longrightarrow> c' = c"
  by (auto simp: clock_sample_def Let_def split: if_splits)

lemma clock_sample_keeps:
  assumes "clock_sample c counter hz = (r, c')" "ck_origin c \<le> ck_last c" "ck_frequency_hz c \<noteq> 0"
  shows "ck_origin c' = ck_origin c" "ck_frequency_hz c' = ck_frequency_hz c" "ck_origin c' \<le> ck_last c'"
    "ck_last c \<le> ck_last c'"
  using assms by (auto simp: clock_sample_def Let_def not_less split: if_splits)

lemma clock_readings_ok:
  assumes "ck_origin c \<le> ck_last c" "ck_frequency_hz c \<noteq> 0"
    and "i < length samples" "clock_readings c samples ! i = Inr r"
  shows "ck_last c \<le> fst (samples ! i) \<and> snd (samples ! i) = ck_frequency_hz c \<and>
     unat r = (unat (fst (samples ! i)) - unat (ck_origin c)) * 1000 div unat (ck_frequency_hz c) \<and>
     (\<forall>j q. i < j \<and> j < length samples \<and> clock_readings c samples ! j = Inr q \<longrightarrow>
        fst (samples ! i) \<le> fst (samples ! j))"
  using assms
proof (induction c samples arbitrary: i r rule: clock_readings.induct)
  case (2 c counter hz samples)
  obtain x c' where x: "clock_sample c counter hz = (x, c')" by force
  note keep = clock_sample_keeps [OF x "2.prems"(1,2)]
  have keep': "ck_frequency_hz c' \<noteq> 0" using keep(2) "2.prems"(2) by simp
  note ih = "2.IH" [OF x [symmetric] keep(3) keep']
  show ?case
  proof (cases i)
    case 0
    with "2.prems"(4) x have ok: "clock_sample c counter hz = (Inr r, c')" by simp
    then have hz: "hz = ck_frequency_hz c" by (auto simp: clock_sample_def Let_def split: if_splits)
    note s = clock_sample_ok [OF ok "2.prems"(1)]
    have "counter \<le> fst (samples ! j)" if "j < length samples" "clock_readings c' samples ! j = Inr q" for j q
      using ih [OF that] s(3) hz "2.prems"(2) by simp
    with 0 s hz "2.prems"(2) x show ?thesis by (auto simp: nth_Cons split: nat.splits)
  next
    case (Suc k)
    with "2.prems"(3,4) x have k: "k < length samples" "clock_readings c' samples ! k = Inr r" by auto
    from ih [OF k] Suc keep x show ?thesis by (auto simp: nth_Cons split: nat.splits)
  qed
qed simp

text \<open>
  (C39) The clock converts exactly and never runs backwards: every accepted sample reads the
  floor of the milliseconds since the first counter value, without accumulated drift, and
  later readings are never smaller, whatever rejected samples lie between.
\<close>

theorem clock_exact_monotone:
  assumes "clock_new origin hz = Inr c" and "i \<le> j" and "j < length samples"
    and "clock_readings c samples ! i = Inr q" and "clock_readings c samples ! j = Inr r"
  shows "unat r = (unat (fst (samples ! j)) - unat origin) * 1000 div unat hz \<and> q \<le> r"
proof -
  from assms(1) have c: "ck_origin c = origin" "ck_frequency_hz c = hz" "hz \<noteq> 0" "ck_origin c \<le> ck_last c"
    by (auto simp: clock_new_def split: if_splits)
  then have nz: "ck_frequency_hz c \<noteq> 0" by simp
  have i: "i < length samples" using assms(2,3) by simp
  note ri = clock_readings_ok [OF c(4) nz i assms(4)] and rj = clock_readings_ok [OF c(4) nz assms(3,5)]
  have le: "fst (samples ! i) \<le> fst (samples ! j)"
    using ri assms(2,3,5) by (cases "i = j") auto
  then have "(unat (fst (samples ! i)) - unat origin) * 1000 div unat hz \<le>
      (unat (fst (samples ! j)) - unat origin) * 1000 div unat hz"
    by (intro div_le_mono mult_le_mono1 diff_le_mono) (simp add: word_le_nat_alt)
  with ri rj c(1,2) show ?thesis by (simp add: word_le_nat_alt)
qed

theorem clock_exact_monotone_witness:
  "\<exists>c. clock_new 5 2000 = Inr c \<and>
     clock_readings c [(7, 2000), (6, 2000), (9, 2000)] = [Inr 1, Inl CounterRegressed, Inr 2] \<and>
     unat (2 :: u64) = (unat (9 :: u64) - unat (5 :: u64)) * 1000 div unat (2000 :: u64)"
proof -
  let ?c = "\<lparr>ck_origin = 5, ck_last = 5, ck_frequency_hz = 2000\<rparr>"
  have c: "clock_new 5 2000 = Inr ?c" by (simp add: clock_new_def)
  have r: "clock_readings ?c [(7, 2000), (6, 2000), (9, 2000)] = [Inr 1, Inl CounterRegressed, Inr 2]"
    by code_simp
  from clock_exact_monotone [OF c, of 0 2 "[(7, 2000), (6, 2000), (9, 2000)]" 1 2] c r show ?thesis by simp
qed

end
