(* ===== verification/Raft_Wire.thy ===== *)
theory Raft_Wire
  imports Raft_Types
begin

text \<open>
  \<^verbatim>\<open>crates/catten-graft/src/wire.rs\<close>: the message boundary. Messages are the structures of
  \<^verbatim>\<open>proto.rs\<close> with signed 64-bit fields; their serialisation is the protobuf library, a
  parameter of every encoder and decoder.
\<close>

section \<open>Messages\<close>

record proto_vote_request =
  pvq_term :: int
  pvq_candidate_id :: string
  pvq_last_log_index :: int
  pvq_last_log_term :: int

record proto_vote_response =
  pvs_peer_id :: string
  pvs_term :: int
  pvs_vote_granted :: bool
  pvs_current_term :: int

record proto_log_entry =
  ple_term :: int
  ple_peer_id :: string
  ple_data :: bytes

record proto_append_request =
  paq_term :: int
  paq_leader_id :: string
  paq_prev_log_index :: int
  paq_prev_log_term :: int
  paq_leader_commit :: int
  paq_entries :: "proto_log_entry list"

record proto_append_response =
  pas_term :: int
  pas_peer_id :: string
  pas_success :: bool
  pas_match_index :: int

record proto_snapshot_request =
  piq_term :: int
  piq_leader_id :: string
  piq_last_included_index :: int
  piq_last_included_term :: int
  piq_offset :: int
  piq_snapshot_data :: bytes
  piq_done :: bool

record proto_snapshot_response =
  pis_term :: int
  pis_peer_id :: string
  pis_success :: bool
  pis_last_included_index :: int
  pis_next_offset :: int
  pis_done :: bool

text \<open>The serialisation of one message type: its encoder, which may fail, and its decoder.\<close>

record 'm codec =
  cd_encode :: "'m \<Rightarrow> bytes option"
  cd_decode :: "bytes \<Rightarrow> 'm option"

section \<open>Tagged payloads\<close>

datatype wire_error = Invalid | Oversized

definition RAFT_RPC_MEMORY_SIZE :: nat where "RAFT_RPC_MEMORY_SIZE = 4096"

definition TAGGED_PAYLOAD_HEADER_SIZE :: nat where "TAGGED_PAYLOAD_HEADER_SIZE = 3"

definition MAX_PEER_ID_BYTES :: nat where "MAX_PEER_ID_BYTES = 255"

definition build_tagged_payload_header :: "u8 \<Rightarrow> nat \<Rightarrow> wire_error + u8 list" where
  "build_tagged_payload_header tag payload_len =
     (if payload_len < 2 ^ 16 then
        Inr [tag, of_nat (payload_len div 256), of_nat (payload_len mod 256)]
      else Inl Oversized)"

definition parse_tagged_payload :: "bytes \<Rightarrow> wire_error + (u8 \<times> bytes)" where
  "parse_tagged_payload frame =
     (if length frame < TAGGED_PAYLOAD_HEADER_SIZE then Inl Invalid
      else
        let payload_len = unat (frame ! 1) * 256 + unat (frame ! 2);
            end_at = TAGGED_PAYLOAD_HEADER_SIZE + payload_len
        in if length frame < end_at then Inl Invalid
           else Inr (frame ! 0, take payload_len (drop TAGGED_PAYLOAD_HEADER_SIZE frame)))"

section \<open>Conversions\<close>

definition wire_encode :: "'m codec \<Rightarrow> 'm \<Rightarrow> wire_error + bytes" where
  "wire_encode cd m =
     (case cd_encode cd m of
        None \<Rightarrow> Inl Invalid
      | Some bs \<Rightarrow> if length bs > RAFT_RPC_MEMORY_SIZE then Inl Oversized else Inr bs)"

definition wire_decode :: "'m codec \<Rightarrow> bytes \<Rightarrow> wire_error + 'm" where
  "wire_decode cd bs = ok_or (cd_decode cd bs) Invalid"

definition nonnegative :: "int \<Rightarrow> wire_error + nat" where
  "nonnegative v = (if 0 \<le> v then Inr (nat v) else Inl Invalid)"

definition signed_wire :: "nat \<Rightarrow> wire_error + int" where
  "signed_wire v = (if v < 2 ^ 63 then Inr (int v) else Inl Invalid)"

definition encode_vote_request :: "proto_vote_request codec \<Rightarrow> vote_request \<Rightarrow> wire_error + bytes" where
  "encode_vote_request cd r =
     rbind (signed_wire (vq_term r)) (\<lambda>t.
     rbind (signed_wire (vq_last_log_index r)) (\<lambda>i.
     rbind (signed_wire (vq_last_log_term r)) (\<lambda>lt.
     wire_encode cd \<lparr>pvq_term = t, pvq_candidate_id = vq_candidate_id r, pvq_last_log_index = i,
       pvq_last_log_term = lt\<rparr>)))"

definition decode_vote_request :: "proto_vote_request codec \<Rightarrow> bytes \<Rightarrow> wire_error + vote_request" where
  "decode_vote_request cd bs =
     rbind (wire_decode cd bs) (\<lambda>m.
     rbind (nonnegative (pvq_term m)) (\<lambda>t.
     rbind (nonnegative (pvq_last_log_index m)) (\<lambda>i.
     rbind (nonnegative (pvq_last_log_term m)) (\<lambda>lt.
     Inr \<lparr>vq_term = t, vq_candidate_id = pvq_candidate_id m, vq_last_log_index = i, vq_last_log_term = lt\<rparr>))))"

definition encode_vote_response :: "proto_vote_response codec \<Rightarrow> vote_response \<Rightarrow> wire_error + bytes" where
  "encode_vote_response cd r =
     rbind (signed_wire (vs_term r)) (\<lambda>t.
     wire_encode cd \<lparr>pvs_peer_id = vs_peer_id r, pvs_term = t, pvs_vote_granted = vote_granted r,
       pvs_current_term = t\<rparr>)"

definition decode_vote_response :: "proto_vote_response codec \<Rightarrow> bytes \<Rightarrow> wire_error + vote_response" where
  "decode_vote_response cd bs =
     rbind (wire_decode cd bs) (\<lambda>m.
     rbind (nonnegative (max (pvs_term m) (pvs_current_term m))) (\<lambda>t.
     Inr \<lparr>vs_peer_id = pvs_peer_id m, vs_term = t, vote_granted = pvs_vote_granted m\<rparr>))"

definition encode_entry :: "log_entry \<Rightarrow> wire_error + proto_log_entry" where
  "encode_entry e =
     (if length (e_peer_id e) > MAX_PEER_ID_BYTES then Inl Invalid
      else rbind (signed_wire (e_term e)) (\<lambda>t.
        Inr \<lparr>ple_term = t, ple_peer_id = e_peer_id e, ple_data = e_data e\<rparr>))"

definition decode_entry :: "proto_log_entry \<Rightarrow> wire_error + log_entry" where
  "decode_entry e =
     (if length (ple_peer_id e) > MAX_PEER_ID_BYTES then Inl Invalid
      else rbind (nonnegative (ple_term e)) (\<lambda>t.
        Inr \<lparr>e_term = t, e_peer_id = ple_peer_id e, e_data = ple_data e\<rparr>))"

fun collect_results :: "('a \<Rightarrow> 'e + 'b) \<Rightarrow> 'a list \<Rightarrow> 'e + 'b list" where
  "collect_results f [] = Inr []"
| "collect_results f (x # xs) = rbind (f x) (\<lambda>y. rbind (collect_results f xs) (\<lambda>ys. Inr (y # ys)))"

definition encode_append_request ::
    "proto_append_request codec \<Rightarrow> append_entries_request \<Rightarrow> wire_error + bytes" where
  "encode_append_request cd r =
     rbind (signed_wire (aq_term r)) (\<lambda>t.
     rbind (signed_wire (aq_prev_log_index r)) (\<lambda>pi.
     rbind (signed_wire (aq_prev_log_term r)) (\<lambda>pt.
     rbind (signed_wire (aq_leader_commit r)) (\<lambda>c.
     rbind (collect_results encode_entry (aq_entries r)) (\<lambda>es.
     wire_encode cd \<lparr>paq_term = t, paq_leader_id = aq_leader_id r, paq_prev_log_index = pi,
       paq_prev_log_term = pt, paq_leader_commit = c, paq_entries = es\<rparr>)))))"

definition decode_append_request ::
    "proto_append_request codec \<Rightarrow> bytes \<Rightarrow> wire_error + append_entries_request" where
  "decode_append_request cd bs =
     rbind (wire_decode cd bs) (\<lambda>m.
     rbind (nonnegative (paq_term m)) (\<lambda>t.
     rbind (nonnegative (paq_prev_log_index m)) (\<lambda>pi.
     rbind (nonnegative (paq_prev_log_term m)) (\<lambda>pt.
     rbind (nonnegative (paq_leader_commit m)) (\<lambda>c.
     rbind (collect_results decode_entry (paq_entries m)) (\<lambda>es.
     Inr \<lparr>aq_term = t, aq_leader_id = paq_leader_id m, aq_prev_log_index = pi, aq_prev_log_term = pt,
       aq_leader_commit = c, aq_entries = es\<rparr>))))))"

definition encode_append_response ::
    "proto_append_response codec \<Rightarrow> append_entries_response \<Rightarrow> wire_error + bytes" where
  "encode_append_response cd r =
     rbind (signed_wire (as_term r)) (\<lambda>t.
     rbind (signed_wire (as_match_index r)) (\<lambda>i.
     wire_encode cd \<lparr>pas_term = t, pas_peer_id = as_peer_id r, pas_success = as_success r,
       pas_match_index = i\<rparr>))"

definition decode_append_response ::
    "proto_append_response codec \<Rightarrow> bytes \<Rightarrow> wire_error + append_entries_response" where
  "decode_append_response cd bs =
     rbind (wire_decode cd bs) (\<lambda>m.
     rbind (nonnegative (pas_term m)) (\<lambda>t.
     rbind (nonnegative (pas_match_index m)) (\<lambda>i.
     Inr \<lparr>as_peer_id = pas_peer_id m, as_term = t, as_success = pas_success m, as_match_index = i\<rparr>)))"

definition encode_snapshot_request ::
    "proto_snapshot_request codec \<Rightarrow> install_snapshot_request \<Rightarrow> wire_error + bytes" where
  "encode_snapshot_request cd r =
     rbind (signed_wire (iq_term r)) (\<lambda>t.
     rbind (signed_wire (iq_last_included_index r)) (\<lambda>i.
     rbind (signed_wire (iq_last_included_term r)) (\<lambda>lt.
     rbind (signed_wire (iq_offset r)) (\<lambda>off.
     wire_encode cd \<lparr>piq_term = t, piq_leader_id = iq_leader_id r, piq_last_included_index = i,
       piq_last_included_term = lt, piq_offset = off, piq_snapshot_data = iq_data r, piq_done = iq_done r\<rparr>))))"

definition decode_snapshot_request ::
    "proto_snapshot_request codec \<Rightarrow> bytes \<Rightarrow> wire_error + install_snapshot_request" where
  "decode_snapshot_request cd bs =
     rbind (wire_decode cd bs) (\<lambda>m.
     rbind (nonnegative (piq_term m)) (\<lambda>t.
     rbind (nonnegative (piq_last_included_index m)) (\<lambda>i.
     rbind (nonnegative (piq_last_included_term m)) (\<lambda>lt.
     rbind (nonnegative (piq_offset m)) (\<lambda>off.
     Inr \<lparr>iq_term = t, iq_leader_id = piq_leader_id m, iq_last_included_index = i,
       iq_last_included_term = lt, iq_offset = off, iq_data = piq_snapshot_data m, iq_done = piq_done m\<rparr>)))))"

definition encode_snapshot_response ::
    "proto_snapshot_response codec \<Rightarrow> install_snapshot_response \<Rightarrow> wire_error + bytes" where
  "encode_snapshot_response cd r =
     rbind (signed_wire (is_term r)) (\<lambda>t.
     rbind (signed_wire (is_last_included_index r)) (\<lambda>i.
     rbind (signed_wire (is_next_offset r)) (\<lambda>off.
     wire_encode cd \<lparr>pis_term = t, pis_peer_id = is_peer_id r, pis_success = is_success r,
       pis_last_included_index = i, pis_next_offset = off, pis_done = is_done r\<rparr>)))"

definition decode_snapshot_response ::
    "proto_snapshot_response codec \<Rightarrow> bytes \<Rightarrow> wire_error + install_snapshot_response" where
  "decode_snapshot_response cd bs =
     rbind (wire_decode cd bs) (\<lambda>m.
     rbind (nonnegative (pis_term m)) (\<lambda>t.
     rbind (nonnegative (pis_last_included_index m)) (\<lambda>i.
     rbind (nonnegative (pis_next_offset m)) (\<lambda>off.
     Inr \<lparr>is_peer_id = pis_peer_id m, is_term = t, is_success = pis_success m,
       is_last_included_index = i, is_next_offset = off, is_done = pis_done m\<rparr>))))"

section \<open>Properties\<close>

definition codec_roundtrip :: "'m codec \<Rightarrow> bool" where
  "codec_roundtrip cd \<longleftrightarrow> (\<forall>m bs. cd_encode cd m = Some bs \<longrightarrow> cd_decode cd bs = Some m)"

lemma wire_roundtrip: "codec_roundtrip cd \<Longrightarrow> wire_encode cd m = Inr bs \<Longrightarrow> wire_decode cd bs = Inr m"
  by (auto simp: codec_roundtrip_def wire_encode_def wire_decode_def split: option.splits if_splits)

lemma nonnegative_signed [simp]: "signed_wire v = Inr i \<Longrightarrow> nonnegative i = Inr v"
  by (auto simp: signed_wire_def nonnegative_def split: if_splits)

lemma decode_encode_entry: "encode_entry e = Inr p \<Longrightarrow> decode_entry p = Inr e"
  by (auto simp: encode_entry_def decode_entry_def rbind_Inr_iff split: if_splits)

lemma decode_encode_entries:
  "collect_results encode_entry es = Inr ps \<Longrightarrow> collect_results decode_entry ps = Inr es"
  by (induction es arbitrary: ps) (auto simp: rbind_Inr_iff decode_encode_entry)

text \<open>
  (C34) Over a serialisation that decodes what it encodes, every Raft message that the encoder
  accepts is decoded to the same message, with all counters and log entries unchanged.
\<close>

theorem message_roundtrip:
  "(codec_roundtrip vq \<and> encode_vote_request vq a = Inr bs \<longrightarrow> decode_vote_request vq bs = Inr a) \<and>
   (codec_roundtrip vs \<and> encode_vote_response vs b = Inr bs \<longrightarrow> decode_vote_response vs bs = Inr b) \<and>
   (codec_roundtrip aq \<and> encode_append_request aq c = Inr bs \<longrightarrow> decode_append_request aq bs = Inr c) \<and>
   (codec_roundtrip as \<and> encode_append_response as d = Inr bs \<longrightarrow> decode_append_response as bs = Inr d) \<and>
   (codec_roundtrip iq \<and> encode_snapshot_request iq e = Inr bs \<longrightarrow> decode_snapshot_request iq bs = Inr e) \<and>
   (codec_roundtrip sr \<and> encode_snapshot_response sr f = Inr bs \<longrightarrow> decode_snapshot_response sr bs = Inr f)"
proof (intro conjI impI; elim conjE)
  assume "codec_roundtrip vq" "encode_vote_request vq a = Inr bs"
  then show "decode_vote_request vq bs = Inr a"
    by (auto simp: encode_vote_request_def decode_vote_request_def rbind_Inr_iff dest!: wire_roundtrip)
next
  assume "codec_roundtrip vs" "encode_vote_response vs b = Inr bs"
  then show "decode_vote_response vs bs = Inr b"
    by (auto simp: encode_vote_response_def decode_vote_response_def rbind_Inr_iff dest!: wire_roundtrip)
next
  assume "codec_roundtrip aq" "encode_append_request aq c = Inr bs"
  then show "decode_append_request aq bs = Inr c"
    by (auto simp: encode_append_request_def decode_append_request_def rbind_Inr_iff
        decode_encode_entries dest!: wire_roundtrip)
next
  assume "codec_roundtrip as" "encode_append_response as d = Inr bs"
  then show "decode_append_response as bs = Inr d"
    by (auto simp: encode_append_response_def decode_append_response_def rbind_Inr_iff dest!: wire_roundtrip)
next
  assume "codec_roundtrip iq" "encode_snapshot_request iq e = Inr bs"
  then show "decode_snapshot_request iq bs = Inr e"
    by (auto simp: encode_snapshot_request_def decode_snapshot_request_def rbind_Inr_iff dest!: wire_roundtrip)
next
  assume "codec_roundtrip sr" "encode_snapshot_response sr f = Inr bs"
  then show "decode_snapshot_response sr bs = Inr f"
    by (auto simp: encode_snapshot_response_def decode_snapshot_response_def rbind_Inr_iff dest!: wire_roundtrip)
qed

text \<open>A serialisation that can carry one message only.\<close>

definition one_message_codec :: "'m \<Rightarrow> 'm codec" where
  "one_message_codec m = \<lparr>cd_encode = (\<lambda>n. if n = m then Some [8] else None), cd_decode = (\<lambda>_. Some m)\<rparr>"

theorem message_roundtrip_witness:
  "\<exists>cd. codec_roundtrip cd \<and>
     encode_vote_request cd \<lparr>vq_term = 3, vq_candidate_id = ''a'', vq_last_log_index = 7, vq_last_log_term = 2\<rparr> = Inr [8] \<and>
     decode_vote_request cd [8] =
       Inr \<lparr>vq_term = 3, vq_candidate_id = ''a'', vq_last_log_index = 7, vq_last_log_term = 2\<rparr>"
proof -
  let ?r = "\<lparr>vq_term = 3, vq_candidate_id = ''a'', vq_last_log_index = 7, vq_last_log_term = 2\<rparr>"
  let ?cd = "one_message_codec \<lparr>pvq_term = 3, pvq_candidate_id = ''a'', pvq_last_log_index = 7, pvq_last_log_term = 2\<rparr>"
  have c: "codec_roundtrip ?cd" by (simp add: codec_roundtrip_def one_message_codec_def)
  have e: "encode_vote_request ?cd ?r = Inr [8]"
    by (simp add: encode_vote_request_def signed_wire_def wire_encode_def one_message_codec_def
        RAFT_RPC_MEMORY_SIZE_def)
  from message_roundtrip [of ?cd ?r "[8]"] c e show ?thesis by blast
qed

text \<open>
  (C35) A frame built from a header, its body and any amount of link-layer padding parses to
  the tag and exactly the body; bodies too long for the length field are refused.
\<close>

theorem tagged_payload_roundtrip:
  "case build_tagged_payload_header tag (length body) of
     Inr h \<Rightarrow> parse_tagged_payload (h @ body @ padding) = Inr (tag, body)
   | Inl e \<Rightarrow> 2 ^ 16 \<le> length body"
proof (cases "length body < 2 ^ 16")
  case True
  then have "unat (of_nat (length body div 256) :: u8) = length body div 256"
    "unat (of_nat (length body mod 256) :: u8) = length body mod 256"
    by (auto simp: unat_of_nat)
  with True show ?thesis
    by (simp add: build_tagged_payload_header_def parse_tagged_payload_def TAGGED_PAYLOAD_HEADER_SIZE_def
        Let_def numeral_3_eq_3)
next
  case False
  then show ?thesis by (simp add: build_tagged_payload_header_def)
qed

end
