(* ===== verification/Raft_Log.thy ===== *)
theory Raft_Log
  imports Raft_Types
begin

text \<open>
  \<^verbatim>\<open>crates/catten-graft/src/log_store.rs\<close>: the in-memory log with its snapshot base, and the
  persistent term, vote and admission record. The trait \<open>LogStore\<close> is the locale \<open>log_store\<close>;
  the loop that merges a leader's entries into a log is verified against the trait and
  interpreted on the in-memory store.
\<close>

section \<open>The in-memory log store\<close>

record mem_log =
  ls_entries :: "log_entry list"
  ls_snapshot_idx :: nat
  ls_snapshot_term :: nat
  ls_snapshot_bytes :: bytes

definition log_new :: mem_log where
  "log_new = \<lparr>ls_entries = [], ls_snapshot_idx = 0, ls_snapshot_term = 0, ls_snapshot_bytes = []\<rparr>"

definition log_reset :: "mem_log \<Rightarrow> mem_log" where
  "log_reset l = l\<lparr>ls_entries := [], ls_snapshot_idx := 0, ls_snapshot_term := 0, ls_snapshot_bytes := []\<rparr>"

definition snapshot_index :: "mem_log \<Rightarrow> nat" where
  "snapshot_index l = ls_snapshot_idx l"

definition snapshot_term :: "mem_log \<Rightarrow> nat" where
  "snapshot_term l = ls_snapshot_term l"

definition last_index :: "mem_log \<Rightarrow> nat" where
  "last_index l =
     (if ls_entries l = [] then ls_snapshot_idx l else ls_snapshot_idx l + length (ls_entries l))"

definition last_term :: "mem_log \<Rightarrow> nat" where
  "last_term l =
     (if ls_entries l = [] then ls_snapshot_term l
      else e_term (ls_entries l ! (length (ls_entries l) - 1)))"

definition term_at :: "mem_log \<Rightarrow> nat \<Rightarrow> nat" where
  "term_at l index =
     (if index = 0 then 0
      else if index = ls_snapshot_idx l then ls_snapshot_term l
      else if index > ls_snapshot_idx l \<and> index - ls_snapshot_idx l - 1 < length (ls_entries l)
      then e_term (ls_entries l ! (index - ls_snapshot_idx l - 1))
      else 0)"

definition entry_at :: "mem_log \<Rightarrow> nat \<Rightarrow> log_entry option" where
  "entry_at l index =
     (if index \<le> ls_snapshot_idx l then None
      else let offset = index - ls_snapshot_idx l - 1 in
        if offset < length (ls_entries l) then Some (ls_entries l ! offset) else None)"

definition log_append :: "mem_log \<Rightarrow> log_entry list \<Rightarrow> mem_log" where
  "log_append l es = l\<lparr>ls_entries := ls_entries l @ es\<rparr>"

definition truncate_from :: "mem_log \<Rightarrow> nat \<Rightarrow> mem_log" where
  "truncate_from l index =
     (if index \<le> ls_snapshot_idx l then l
      else l\<lparr>ls_entries := take (index - ls_snapshot_idx l - 1) (ls_entries l)\<rparr>)"

definition entries_from :: "mem_log \<Rightarrow> nat \<Rightarrow> log_entry list" where
  "entries_from l index =
     (if index > last_index l then []
      else drop (if index \<le> ls_snapshot_idx l then 0 else index - ls_snapshot_idx l - 1) (ls_entries l))"

definition snapshot_data :: "mem_log \<Rightarrow> bytes" where
  "snapshot_data l = ls_snapshot_bytes l"

definition log_install_snapshot :: "mem_log \<Rightarrow> nat \<Rightarrow> nat \<Rightarrow> bytes \<Rightarrow> mem_log" where
  "log_install_snapshot l last_included_index last_included_term data =
     (let old_base = ls_snapshot_idx l;
          retain_from =
            (if last_included_index = old_base \<and> last_included_term = ls_snapshot_term l then Some 0
             else if last_included_index > old_base then
               (let offset = last_included_index - old_base - 1 in
                if offset < length (ls_entries l) \<and> e_term (ls_entries l ! offset) = last_included_term
                then Some (offset + 1) else None)
             else None)
      in \<lparr>ls_entries = (case retain_from of Some n \<Rightarrow> drop n (ls_entries l) | None \<Rightarrow> []),
          ls_snapshot_idx = last_included_index, ls_snapshot_term = last_included_term,
          ls_snapshot_bytes = data\<rparr>)"

section \<open>Persistent state\<close>

record join_admission =
  ja_anchor_id :: string
  ja_snapshot_index :: nat

record persistent_state =
  ps_current_term :: nat
  ps_voted_for :: "string option"
  ps_join_admission :: "join_admission option"

definition persistent_new :: persistent_state where
  "persistent_new = \<lparr>ps_current_term = 0, ps_voted_for = None, ps_join_admission = None\<rparr>"

definition set_current_term :: "persistent_state \<Rightarrow> nat \<Rightarrow> persistent_state" where
  "set_current_term ps t = ps\<lparr>ps_current_term := t\<rparr>"

definition set_voted_for :: "persistent_state \<Rightarrow> string option \<Rightarrow> persistent_state" where
  "set_voted_for ps v = ps\<lparr>ps_voted_for := v\<rparr>"

definition set_join_admission :: "persistent_state \<Rightarrow> join_admission option \<Rightarrow> persistent_state" where
  "set_join_admission ps a = ps\<lparr>ps_join_admission := a\<rparr>"

lemmas persistent_defs = set_current_term_def set_voted_for_def set_join_admission_def

section \<open>Merging a leader's entries\<close>

text \<open>
  The loop of \<open>handle_append_entries\<close> over the methods of the store: skip what agrees,
  truncate at the first conflict, append the rest.
\<close>

fun merge_with ::
    "('s \<Rightarrow> nat) \<Rightarrow> ('s \<Rightarrow> nat \<Rightarrow> nat) \<Rightarrow> ('s \<Rightarrow> nat \<Rightarrow> 's) \<Rightarrow> ('s \<Rightarrow> log_entry list \<Rightarrow> 's) \<Rightarrow>
     's \<Rightarrow> nat \<Rightarrow> log_entry list \<Rightarrow> 's" where
  "merge_with last_idx trm trunc app s idx [] = s"
| "merge_with last_idx trm trunc app s idx (e # es) =
     (if idx \<le> last_idx s then
        if trm s idx \<noteq> e_term e then app (trunc s idx) (e # es)
        else merge_with last_idx trm trunc app s (Suc idx) es
      else app s (e # es))"

definition merge_entries :: "mem_log \<Rightarrow> nat \<Rightarrow> log_entry list \<Rightarrow> mem_log" where
  "merge_entries l idx es = merge_with last_index term_at truncate_from log_append l idx es"

locale log_store =
  fixes snap :: "'s \<Rightarrow> nat" and last_idx :: "'s \<Rightarrow> nat" and trm :: "'s \<Rightarrow> nat \<Rightarrow> nat"
    and entry :: "'s \<Rightarrow> nat \<Rightarrow> log_entry option" and trunc :: "'s \<Rightarrow> nat \<Rightarrow> 's"
    and app :: "'s \<Rightarrow> log_entry list \<Rightarrow> 's" and rest :: "'s \<Rightarrow> nat \<Rightarrow> log_entry list"
  assumes snap_le: "snap s \<le> last_idx s"
    and entry_None_iff: "entry s i = None \<longleftrightarrow> i \<le> snap s \<or> last_idx s < i"
    and trm_entry: "entry s i = Some e \<Longrightarrow> trm s i = e_term e"
    and app_snap: "snap (app s es) = snap s" and app_last: "last_idx (app s es) = last_idx s + length es"
    and app_entry: "entry (app s es) i =
      (if i \<le> last_idx s then entry s i
       else if i \<le> last_idx s + length es then Some (es ! (i - last_idx s - 1)) else None)"
    and trunc_snap: "snap (trunc s i) = snap s"
    and trunc_last: "snap s < i \<Longrightarrow> i \<le> last_idx s \<Longrightarrow> last_idx (trunc s i) = i - 1"
    and trunc_entry: "snap s < i \<Longrightarrow> i \<le> last_idx s \<Longrightarrow> entry (trunc s i) j = (if j < i then entry s j else None)"
    and from_nth: "snap s < i \<Longrightarrow> k < length (rest s i) \<Longrightarrow> entry s (i + k) = Some (rest s i ! k)"
    and from_length: "snap s < i \<Longrightarrow> length (rest s i) = Suc (last_idx s) - i"
begin

abbreviation merge :: "'s \<Rightarrow> nat \<Rightarrow> log_entry list \<Rightarrow> 's" where
  "merge \<equiv> merge_with last_idx trm trunc app"

definition agrees :: "'s \<Rightarrow> nat \<Rightarrow> log_entry list \<Rightarrow> bool" where
  "agrees s idx es \<longleftrightarrow> (\<forall>k < length es. idx + k \<le> last_idx s \<longrightarrow> trm s (idx + k) = e_term (es ! k))"

lemma agrees_Cons:
  "agrees s idx (e # es) \<longleftrightarrow> (idx \<le> last_idx s \<longrightarrow> trm s idx = e_term e) \<and> agrees s (Suc idx) es"
  unfolding agrees_def by (auto simp: less_Suc_eq_0_disj nth_Cons split: nat.splits)

lemma merge_snap: "snap (merge s idx es) = snap s"
  by (induction es arbitrary: idx) (auto simp: app_snap trunc_snap)

lemma merge_below:
  "snap s < idx \<Longrightarrow> idx \<le> Suc (last_idx s) \<Longrightarrow> j < idx \<Longrightarrow> entry (merge s idx es) j = entry s j"
proof (induction es arbitrary: idx)
  case (Cons e es)
  show ?case
  proof (cases "idx \<le> last_idx s")
    case True
    then show ?thesis using Cons by (auto simp: app_entry trunc_entry trunc_last)
  next
    case False
    then show ?thesis using Cons.prems by (auto simp: app_entry)
  qed
qed simp

lemma merge_last:
  "snap s < idx \<Longrightarrow> idx \<le> Suc (last_idx s) \<Longrightarrow>
   last_idx (merge s idx es) = (if agrees s idx es then max (last_idx s) (idx + length es - 1) else idx + length es - 1)"
proof (induction es arbitrary: idx)
  case Nil
  then show ?case by (auto simp: agrees_def)
next
  case (Cons e es)
  show ?case
  proof (cases "idx \<le> last_idx s")
    case True
    then show ?thesis using Cons by (auto simp: app_last trunc_last agrees_Cons)
  next
    case False
    then have "agrees s idx (e # es)" by (auto simp: agrees_def)
    with False Cons.prems show ?thesis by (auto simp: app_last)
  qed
qed

lemma merge_new:
  assumes "snap s < idx" "idx \<le> Suc (last_idx s)" "k < length es"
  shows "\<exists>x. entry (merge s idx es) (idx + k) = Some x \<and> e_term x = e_term (es ! k)"
  using assms
proof (induction es arbitrary: idx k)
  case (Cons e es)
  show ?case
  proof (cases "idx \<le> last_idx s \<and> trm s idx = e_term e")
    case True
    then have m: "merge s idx (e # es) = merge s (Suc idx) es" by simp
    show ?thesis
    proof (cases k)
      case 0
      obtain x where x: "entry s idx = Some x"
        using entry_None_iff [of s idx] True Cons.prems(1) by (cases "entry s idx") auto
      with trm_entry [OF x] True 0 merge_below [of s "Suc idx" idx es] Cons.prems(1) show ?thesis
        by (simp add: m)
    next
      case (Suc j)
      with Cons.IH [of "Suc idx" j] Cons.prems True show ?thesis by (simp add: m)
    qed
  next
    case conflict: False
    show ?thesis
    proof (cases "idx \<le> last_idx s")
      case True
      with conflict Cons.prems show ?thesis by (auto simp: app_entry trunc_last)
    next
      case False
      then have "Suc (last_idx s) = idx" using Cons.prems(2) by simp
      with False Cons.prems show ?thesis by (auto simp: app_entry)
    qed
  qed
qed simp

lemma merge_keeps:
  assumes "snap s < idx" "idx \<le> Suc (last_idx s)" "agrees s idx es" "j \<le> last_idx s"
  shows "entry (merge s idx es) j = entry s j"
  using assms
proof (induction es arbitrary: idx)
  case (Cons e es)
  then show ?case
    by (cases "idx \<le> last_idx s") (auto simp: agrees_Cons app_entry)
qed simp

text \<open>Entries up to a position the request agrees with survive.\<close>

lemma merge_prefix:
  assumes "snap s < idx" "idx \<le> Suc (last_idx s)" "c \<le> last_idx s"
    and "\<And>k. k < length es \<Longrightarrow> idx + k \<le> c \<Longrightarrow> trm s (idx + k) = e_term (es ! k)"
  shows "c \<le> last_idx (merge s idx es) \<and> (\<forall>j \<le> c. entry (merge s idx es) j = entry s j)"
  using assms
proof (induction es arbitrary: idx)
  case (Cons e es)
  have rest: "\<And>k. k < length es \<Longrightarrow> Suc idx + k \<le> c \<Longrightarrow> trm s (Suc idx + k) = e_term (es ! k)"
    using Cons.prems(4) [of "Suc k" for k] by simp
  show ?case
  proof (cases "idx \<le> last_idx s")
    case True
    show ?thesis
    proof (cases "trm s idx = e_term e")
      case True
      with \<open>idx \<le> last_idx s\<close> Cons.IH [OF _ _ Cons.prems(3) rest] Cons.prems(1) show ?thesis by simp
    next
      case False
      with Cons.prems(4) [of 0] have "c < idx" by fastforce
      with False True Cons.prems(1,3) show ?thesis by (auto simp: app_last app_entry trunc_last trunc_entry)
    qed
  next
    case False
    with Cons.prems(3) show ?thesis by (auto simp: app_last app_entry)
  qed
qed simp

end

section \<open>The in-memory store implements the trait\<close>

lemma last_index_eq: "last_index l = ls_snapshot_idx l + length (ls_entries l)"
  by (simp add: last_index_def)

lemma entry_at_Some: "entry_at l i = Some e \<longleftrightarrow>
    ls_snapshot_idx l < i \<and> i \<le> last_index l \<and> e = ls_entries l ! (i - ls_snapshot_idx l - 1)"
  by (auto simp: entry_at_def last_index_eq Let_def)

lemma entry_at_None: "entry_at l i = None \<longleftrightarrow> i \<le> snapshot_index l \<or> last_index l < i"
  by (auto simp: entry_at_def last_index_eq snapshot_index_def Let_def)

interpretation mem: log_store snapshot_index last_index term_at entry_at truncate_from log_append entries_from
proof
  show "entry_at s i = None \<longleftrightarrow> i \<le> snapshot_index s \<or> last_index s < i" for s i
    by (rule entry_at_None)
  show "entry_at s i = Some e \<Longrightarrow> term_at s i = e_term e" for s i e
    by (auto simp: entry_at_Some term_at_def last_index_eq)
  show "entry_at (log_append s es) i = (if i \<le> last_index s then entry_at s i
      else if i \<le> last_index s + length es then Some (es ! (i - last_index s - 1)) else None)" for s es i
    by (auto simp: entry_at_def last_index_eq log_append_def nth_append Let_def)
  show "snapshot_index s < i \<Longrightarrow> i \<le> last_index s \<Longrightarrow>
      entry_at (truncate_from s i) j = (if j < i then entry_at s j else None)" for s i j
    by (auto simp: entry_at_def truncate_from_def snapshot_index_def last_index_eq Let_def)
  show "snapshot_index s < i \<Longrightarrow> k < length (entries_from s i) \<Longrightarrow>
      entry_at s (i + k) = Some (entries_from s i ! k)" for s i k
    by (auto simp: entry_at_Some entries_from_def snapshot_index_def last_index_eq split: if_splits)
qed (auto simp: snapshot_index_def last_index_eq log_append_def truncate_from_def entries_from_def)

lemma merge_entries_eq: "merge_entries = mem.merge"
  by (intro ext) (simp add: merge_entries_def)

lemma install_snapshot_base [simp]:
  "snapshot_index (log_install_snapshot l i t d) = i" "snapshot_term (log_install_snapshot l i t d) = t"
  "snapshot_data (log_install_snapshot l i t d) = d"
  by (simp_all add: log_install_snapshot_def snapshot_index_def snapshot_term_def snapshot_data_def Let_def)

text \<open>Compacting up to an entry of the log keeps everything after it.\<close>

lemma install_snapshot_entries:
  assumes "snapshot_index l \<le> i" "i \<le> last_index l" "0 < i" "term_at l i = t"
  shows "ls_entries (log_install_snapshot l i t d) = drop (i - snapshot_index l) (ls_entries l)"
  using assms
  by (auto simp: log_install_snapshot_def term_at_def snapshot_index_def last_index_eq Let_def
      Suc_diff_Suc split: if_splits)

lemma install_snapshot_keeps:
  assumes "snapshot_index l \<le> i" "i \<le> last_index l" "0 < i" "term_at l i = t"
  shows "last_index (log_install_snapshot l i t d) = last_index l"
    "entry_at (log_install_snapshot l i t d) j = (if i < j then entry_at l j else None)"
    "i \<le> j \<Longrightarrow> term_at (log_install_snapshot l i t d) j = term_at l j"
proof -
  note * = install_snapshot_entries [OF assms, of d, unfolded snapshot_index_def]
  have b: "ls_snapshot_idx (log_install_snapshot l i t d) = i" "ls_snapshot_term (log_install_snapshot l i t d) = t"
    by (simp_all add: log_install_snapshot_def Let_def)
  show "last_index (log_install_snapshot l i t d) = last_index l"
    using assms by (simp add: last_index_eq * b snapshot_index_def)
  show "entry_at (log_install_snapshot l i t d) j = (if i < j then entry_at l j else None)"
    using assms by (auto simp: entry_at_def * b snapshot_index_def last_index_eq Let_def)
  show "i \<le> j \<Longrightarrow> term_at (log_install_snapshot l i t d) j = term_at l j"
    using assms by (auto simp: term_at_def * b snapshot_index_def last_index_eq)
qed

lemma install_snapshot_last: "i \<le> last_index (log_install_snapshot l i t d)"
  by (simp add: last_index_eq log_install_snapshot_def Let_def)

end
