(* ===== verification/Raft_Membership.thy ===== *)
theory Raft_Membership
  imports Raft_Types
begin

text \<open>
  \<^verbatim>\<open>crates/catten-graft/src/membership.rs\<close>: cluster configurations, stable and joint, and the
  majority tests every quorum decision goes through. \<open>None\<close> is the failed assertion on an
  empty member list.
\<close>

section \<open>Configurations\<close>

record cluster_configuration =
  current_members :: "(string, peer) bmap"
  next_members :: "(string, peer) bmap"

definition member_map :: "peer list \<Rightarrow> (string, peer) bmap" where
  "member_map members = bm_of_list (map (\<lambda>p. (p_id p, p)) members)"

definition stable :: "peer list \<Rightarrow> cluster_configuration option" where
  "stable members =
     (let current = member_map members in
      if bm_is_empty current then None
      else Some \<lparr>current_members = current, next_members = bm_empty\<rparr>)"

definition is_joint_consensus :: "cluster_configuration \<Rightarrow> bool" where
  "is_joint_consensus c \<longleftrightarrow> \<not> bm_is_empty (next_members c)"

definition current_voting_members :: "cluster_configuration \<Rightarrow> peer list" where
  "current_voting_members c = filter peer_is_voter (bm_values (current_members c))"

definition next_voting_members :: "cluster_configuration \<Rightarrow> peer list" where
  "next_voting_members c =
     (if is_joint_consensus c then filter peer_is_voter (bm_values (next_members c))
      else current_voting_members c)"

fun unseen_members :: "string set \<Rightarrow> peer list \<Rightarrow> peer list" where
  "unseen_members seen [] = []"
| "unseen_members seen (p # ps) =
     (if p_id p \<in> seen then unseen_members seen ps
      else p # unseen_members (insert (p_id p) seen) ps)"

definition all_members :: "cluster_configuration \<Rightarrow> peer list" where
  "all_members c = unseen_members {} (bm_values (current_members c) @ bm_values (next_members c))"

definition voter_in :: "(string, peer) bmap \<Rightarrow> string \<Rightarrow> bool" where
  "voter_in members i = (case bm_get members i of Some p \<Rightarrow> peer_is_voter p | None \<Rightarrow> False)"

definition active_voting_members :: "cluster_configuration \<Rightarrow> peer list" where
  "active_voting_members c =
     (if \<not> is_joint_consensus c then current_voting_members c
      else filter (\<lambda>p. peer_is_voter p \<and> voter_in (next_members c) (p_id p)) (bm_values (current_members c)))"

definition contains :: "cluster_configuration \<Rightarrow> string \<Rightarrow> bool" where
  "contains c i \<longleftrightarrow> bm_contains (current_members c) i \<or> bm_contains (next_members c) i"

definition is_voter :: "cluster_configuration \<Rightarrow> string \<Rightarrow> bool" where
  "is_voter c i \<longleftrightarrow> voter_in (current_members c) i \<or> voter_in (next_members c) i"

definition transition_to :: "cluster_configuration \<Rightarrow> peer list \<Rightarrow> cluster_configuration option" where
  "transition_to c proposed =
     (let nxt = member_map proposed in
      if bm_is_empty nxt then None
      else Some \<lparr>current_members = current_members c, next_members = nxt\<rparr>)"

definition finalize_transition :: "cluster_configuration \<Rightarrow> cluster_configuration" where
  "finalize_transition c =
     (if bm_is_empty (next_members c) then c
      else \<lparr>current_members = next_members c, next_members = bm_empty\<rparr>)"

definition has_majority :: "(string, peer) bmap \<Rightarrow> string set \<Rightarrow> bool" where
  "has_majority members ids =
     (let voter_count = length (filter peer_is_voter (bm_values members)) in
      0 < voter_count \<and>
      voter_count div 2 < length (filter (\<lambda>p. peer_is_voter p \<and> p_id p \<in> ids) (bm_values members)))"

definition has_joint_majority :: "cluster_configuration \<Rightarrow> string set \<Rightarrow> bool" where
  "has_joint_majority c ids \<longleftrightarrow>
     has_majority (current_members c) ids \<and>
     (\<not> is_joint_consensus c \<or> has_majority (next_members c) ids)"

section \<open>Well-formed configurations\<close>

text \<open>Members are filed under their own identifier.\<close>

definition members_wf :: "(string, peer) bmap \<Rightarrow> bool" where
  "members_wf m \<longleftrightarrow> (\<forall>i p. bm_get m i = Some p \<longrightarrow> p_id p = i)"

definition config_wf :: "cluster_configuration \<Rightarrow> bool" where
  "config_wf c \<longleftrightarrow> \<not> bm_is_empty (current_members c) \<and> members_wf (current_members c) \<and>
     members_wf (next_members c)"

definition voters :: "(string, peer) bmap \<Rightarrow> string set" where
  "voters m = {i. voter_in m i}"

lemma voters_eq: "voters m = {i. \<exists>p. bm_get m i = Some p \<and> peer_is_voter p}"
  by (auto simp: voters_def voter_in_def split: option.splits)

lemma finite_voters [simp]: "finite (voters m)"
  by (rule finite_subset [OF _ finite_dom_bm_get [of m]]) (auto simp: voters_eq)

lemma has_majority_iff:
  assumes "members_wf m"
  shows "has_majority m ids \<longleftrightarrow> card (voters m) div 2 < card (voters m \<inter> ids)"
proof -
  have "length (filter peer_is_voter (bm_values m)) = card (voters m)"
    by (simp add: length_filter_bm_values voters_eq)
  moreover have "{k. \<exists>v. bm_get m k = Some v \<and> peer_is_voter v \<and> p_id v \<in> ids} = voters m \<inter> ids"
    using assms by (auto simp: voters_eq members_wf_def)
  then have "length (filter (\<lambda>p. peer_is_voter p \<and> p_id p \<in> ids) (bm_values m)) = card (voters m \<inter> ids)"
    by (simp add: length_filter_bm_values)
  moreover have "card (voters m \<inter> ids) \<le> card (voters m)" by (intro card_mono) auto
  ultimately show ?thesis by (auto simp: has_majority_def Let_def)
qed

lemma majorities_meet:
  assumes wf: "members_wf m" and "has_majority m A" "has_majority m B"
  shows "\<exists>i \<in> A \<inter> B. voter_in m i"
proof (rule ccontr)
  assume none: "\<not> ?thesis"
  let ?V = "voters m"
  have "?V \<inter> A \<inter> (?V \<inter> B) = {}" using none by (auto simp: voters_def)
  then have "card (?V \<inter> A) + card (?V \<inter> B) = card (?V \<inter> A \<union> ?V \<inter> B)"
    by (simp add: card_Un_disjoint)
  also have "\<dots> \<le> card ?V" by (intro card_mono) auto
  finally show False
    using assms(2,3) unfolding has_majority_iff [OF wf] by linarith
qed

lemma has_majority_mono: "members_wf m \<Longrightarrow> has_majority m A \<Longrightarrow> A \<inter> voters m \<subseteq> B \<Longrightarrow> has_majority m B"
  unfolding has_majority_iff
  by (erule order_less_le_trans) (auto intro!: card_mono)

section \<open>Overlapping configurations\<close>

text \<open>
  The member sets a configuration must win: one when stable, two when joint. Two
  configurations overlap when they share one.
\<close>

definition components :: "cluster_configuration \<Rightarrow> (string, peer) bmap set" where
  "components c = {current_members c} \<union> (if is_joint_consensus c then {next_members c} else {})"

definition overlap :: "cluster_configuration \<Rightarrow> cluster_configuration \<Rightarrow> bool" where
  "overlap c d \<longleftrightarrow> (\<exists>m \<in> components c \<inter> components d. members_wf m)"

lemma joint_majority_components:
  "has_joint_majority c ids \<longleftrightarrow> (\<forall>m \<in> components c. has_majority m ids)"
  by (auto simp: has_joint_majority_def components_def)

lemma overlap_meet:
  assumes "overlap c d" "has_joint_majority c A" "has_joint_majority d B"
  shows "\<exists>i \<in> A \<inter> B. is_voter c i \<and> is_voter d i"
proof -
  from assms(1) obtain m where m: "m \<in> components c" "m \<in> components d" "members_wf m"
    by (auto simp: overlap_def)
  with assms(2,3) have "has_majority m A" "has_majority m B" by (auto simp: joint_majority_components)
  from majorities_meet [OF m(3) this] m(1,2) show ?thesis
    by (auto simp: components_def is_voter_def split: if_splits)
qed

lemma members_wf_map: "members_wf (member_map ps)"
  by (auto simp: members_wf_def member_map_def bm_get_of_list dest!: map_of_SomeD)

lemma config_wf_stable: "stable ps = Some c \<Longrightarrow> config_wf c"
  by (auto simp: stable_def Let_def config_wf_def members_wf_map split: if_splits)
    (simp add: members_wf_def)

lemma config_wf_transition: "transition_to c ps = Some d \<Longrightarrow> config_wf c \<Longrightarrow> config_wf d"
  by (auto simp: transition_to_def Let_def config_wf_def members_wf_map split: if_splits)

lemma config_wf_finalize: "config_wf c \<Longrightarrow> config_wf (finalize_transition c)"
  by (auto simp: finalize_transition_def config_wf_def members_wf_def)

lemma overlap_refl: "config_wf c \<Longrightarrow> overlap c c"
  by (auto simp: overlap_def components_def config_wf_def)

lemma overlap_transition: "config_wf c \<Longrightarrow> transition_to c ps = Some d \<Longrightarrow> overlap c d"
  by (auto simp: overlap_def components_def config_wf_def transition_to_def Let_def split: if_splits)

lemma overlap_finalize: "config_wf c \<Longrightarrow> overlap c (finalize_transition c)"
  by (auto simp: overlap_def components_def config_wf_def finalize_transition_def is_joint_consensus_def)

lemma overlap_sym: "overlap c d \<Longrightarrow> overlap d c"
  by (auto simp: overlap_def)

lemma member_map_empty_iff: "bm_is_empty (member_map ps) \<longleftrightarrow> ps = []"
proof (cases ps)
  case Nil
  then show ?thesis by (simp add: member_map_def bm_of_list_def bm_is_empty_iff)
next
  case (Cons p qs)
  have "bm_get (member_map ps) (p_id p) \<noteq> None"
    unfolding member_map_def bm_get_of_list map_of_eq_None_iff by (force simp: Cons)
  then have "member_map ps \<noteq> bm_empty" by auto
  with Cons show ?thesis by (simp add: bm_is_empty_iff)
qed

lemma transition_None_iff: "transition_to c ps = None \<longleftrightarrow> ps = []"
  by (simp add: transition_to_def Let_def member_map_empty_iff)

lemma set_unseen_members:
  "p_id ` set (unseen_members seen ps) = p_id ` set ps - seen"
  by (induction seen ps rule: unseen_members.induct) auto

lemma unseen_members_subset: "set (unseen_members seen ps) \<subseteq> set ps"
  by (induction seen ps rule: unseen_members.induct) auto

lemma all_members_ids: "config_wf c \<Longrightarrow> p_id ` set (all_members c) = {i. contains c i}"
  unfolding all_members_def set_unseen_members
  by (force simp: contains_def bm_contains_iff bm_values_iff config_wf_def members_wf_def image_iff)

section \<open>Properties\<close>

text \<open>
  (C30) Quorums of neighbouring configurations meet. Whatever two sets of acknowledgements win
  the configurations before and after entering a joint phase, before and after finalizing
  it, or the same configuration twice, some voter of both configurations is in both sets.
\<close>

theorem joint_quorums_meet:
  assumes "config_wf c"
    and "d = c \<or> (\<exists>ps. transition_to c ps = Some d) \<or> d = finalize_transition c"
    and "has_joint_majority c A" and "has_joint_majority d B"
  shows "\<exists>i \<in> A \<inter> B. is_voter c i \<and> is_voter d i"
  using assms by (auto intro!: overlap_meet intro: overlap_refl overlap_transition overlap_finalize)

theorem joint_quorums_meet_witness:
  "\<exists>c d. stable [peer_voter ''a'' 1, peer_voter ''b'' 2, peer_voter ''c'' 3] = Some c \<and>
     transition_to c [peer_voter ''b'' 2, peer_voter ''d'' 4] = Some d \<and>
     has_joint_majority c {''a'', ''b''} \<and> has_joint_majority d {''b'', ''c'', ''d''} \<and>
     (\<exists>i \<in> {''a'', ''b''} \<inter> {''b'', ''c'', ''d''}. is_voter c i \<and> is_voter d i)"
proof -
  define c where "c = the (stable [peer_voter ''a'' 1, peer_voter ''b'' 2, peer_voter ''c'' 3])"
  define d where "d = the (transition_to c [peer_voter ''b'' 2, peer_voter ''d'' 4])"
  have c: "stable [peer_voter ''a'' 1, peer_voter ''b'' 2, peer_voter ''c'' 3] = Some c"
    by (simp add: c_def stable_def Let_def member_map_empty_iff)
  have d: "transition_to c [peer_voter ''b'' 2, peer_voter ''d'' 4] = Some d"
    by (simp add: d_def transition_to_def Let_def member_map_empty_iff)
  have "has_joint_majority c {''a'', ''b''}" unfolding c_def by code_simp
  moreover have "has_joint_majority d {''b'', ''c'', ''d''}" unfolding d_def c_def by code_simp
  ultimately show ?thesis
    using c d joint_quorums_meet [OF config_wf_stable [OF c], of d "{''a'', ''b''}" "{''b'', ''c'', ''d''}"]
    by blast
qed

end
