(* ===== verification/Raft_Configuration.thy ===== *)
theory Raft_Configuration
  imports Raft_Membership
begin

text \<open>
  \<^verbatim>\<open>crates/catten-graft/src/configuration.rs\<close> over the messages of \<^verbatim>\<open>proto.rs\<close>: configuration
  commands as log payloads. The protobuf library that serialises the messages is a
  parameter, the record \<open>protobuf\<close>.
\<close>

section \<open>Messages\<close>

record peer_spec =
  sp_id :: string
  sp_host :: string
  sp_port :: int
  sp_role :: string

datatype proto_command =
  ProtoJoint "peer_spec list"
| ProtoFinalize
| ProtoJoin "peer_spec option"

type_synonym internal_raft_command = "proto_command option"

record protobuf =
  pb_encode :: "internal_raft_command \<Rightarrow> bytes option"
  pb_decode :: "bytes \<Rightarrow> internal_raft_command option"

datatype configuration_command = Joint "peer list" | Finalize | Join peer

section \<open>Hexadecimal text\<close>

definition hex_char :: "nat \<Rightarrow> char" where
  "hex_char d = ''0123456789abcdef'' ! d"

text \<open>\<open>format!("{:016x}", w)\<close>\<close>

definition format_hex16 :: "u64 \<Rightarrow> string" where
  "format_hex16 w = map (\<lambda>i. hex_char (unat (drop_bit (4 * (15 - i)) w) mod 16)) [0..<16]"

definition hex_digit :: "char \<Rightarrow> nat option" where
  "hex_digit c =
     (let n = of_char c :: nat in
      if 48 \<le> n \<and> n \<le> 57 then Some (n - 48)
      else if 97 \<le> n \<and> n \<le> 102 then Some (n - 87)
      else if 65 \<le> n \<and> n \<le> 70 then Some (n - 55)
      else None)"

fun parse_hex :: "nat \<Rightarrow> string \<Rightarrow> nat option" where
  "parse_hex acc [] = Some acc"
| "parse_hex acc (c # cs) =
     (case hex_digit c of None \<Rightarrow> None
      | Some d \<Rightarrow> if acc * 16 + d < 2 ^ 64 then parse_hex (acc * 16 + d) cs else None)"

text \<open>\<open>u64::from_str_radix(value, 16)\<close>: an optional plus sign and at least one digit.\<close>

definition from_str_radix16 :: "string \<Rightarrow> u64 option" where
  "from_str_radix16 value =
     (let digits = (case value of [] \<Rightarrow> [] | c # cs \<Rightarrow> if c = CHR ''+'' then cs else value) in
      if digits = [] then None else map_option of_nat (parse_hex 0 digits))"

definition ascii_upper :: "char \<Rightarrow> char" where
  "ascii_upper c =
     (let n = of_char c :: nat in if 97 \<le> n \<and> n \<le> 122 then char_of (n - 32) else c)"

definition eq_ignore_ascii_case :: "string \<Rightarrow> string \<Rightarrow> bool" where
  "eq_ignore_ascii_case a b \<longleftrightarrow> map ascii_upper a = map ascii_upper b"

definition strip_prefix :: "string \<Rightarrow> string \<Rightarrow> string option" where
  "strip_prefix pre s = (if take (length pre) s = pre then Some (drop (length pre) s) else None)"

section \<open>Commands\<close>

definition peer_spec_of :: "peer \<Rightarrow> peer_spec" where
  "peer_spec_of p =
     \<lparr>sp_id = p_id p,
      sp_host = ''charlotte:'' @ format_hex16 (service_name p),
      sp_port = 0,
      sp_role = (if peer_is_voter p then ''VOTER'' else ''LEARNER'')\<rparr>"

definition peer_of_spec :: "peer_spec \<Rightarrow> peer option" where
  "peer_of_spec spec =
     (if sp_id spec = [] then None
      else
        let name = (case Option.bind (strip_prefix ''charlotte:'' (sp_host spec)) from_str_radix16 of
                      Some n \<Rightarrow> n | None \<Rightarrow> 0);
            r = (if eq_ignore_ascii_case (sp_role spec) ''LEARNER'' then Learner else Voter)
        in Some \<lparr>p_id = sp_id spec, service_name = name, p_role = r\<rparr>)"

definition config_encode :: "protobuf \<Rightarrow> configuration_command \<Rightarrow> bytes option" where
  "config_encode pb command =
     pb_encode pb (Some (case command of
        Joint members \<Rightarrow> ProtoJoint (map peer_spec_of members)
      | Finalize \<Rightarrow> ProtoFinalize
      | Join p \<Rightarrow> ProtoJoin (Some (peer_spec_of p))))"

fun collect_peers :: "peer_spec list \<Rightarrow> peer list option" where
  "collect_peers [] = Some []"
| "collect_peers (spec # specs) =
     (case peer_of_spec spec of None \<Rightarrow> None
      | Some p \<Rightarrow> map_option (\<lambda>ps. p # ps) (collect_peers specs))"

definition config_decode :: "protobuf \<Rightarrow> bytes \<Rightarrow> configuration_command option" where
  "config_decode pb data =
     (case pb_decode pb data of
        None \<Rightarrow> None
      | Some None \<Rightarrow> None
      | Some (Some (ProtoJoint specs)) \<Rightarrow> map_option Joint (collect_peers specs)
      | Some (Some ProtoFinalize) \<Rightarrow> Some Finalize
      | Some (Some (ProtoJoin member)) \<Rightarrow> map_option Join (Option.bind member peer_of_spec))"

section \<open>Round trip\<close>

lemma hex_digit_char: "d < 16 \<Longrightarrow> hex_digit (hex_char d) = Some d"
proof -
  have "\<forall>d \<in> set [0..<16]. hex_digit (hex_char d) = Some d" by code_simp
  then show "d < 16 \<Longrightarrow> hex_digit (hex_char d) = Some d" by simp
qed

lemma parse_hex_snoc:
  "parse_hex acc cs = Some v \<Longrightarrow> hex_digit c = Some d \<Longrightarrow> v * 16 + d < 2 ^ 64 \<Longrightarrow>
   parse_hex acc (cs @ [c]) = Some (v * 16 + d)"
  by (induction acc cs rule: parse_hex.induct) (auto split: option.splits if_splits)

lemma parse_hex_digits:
  "k \<le> 16 \<Longrightarrow>
   parse_hex 0 (map (\<lambda>i. hex_char (unat (drop_bit (4 * (15 - i)) (w :: u64)) mod 16)) [0..<k]) =
     Some (unat w div 2 ^ (64 - 4 * k))"
proof (induction k)
  case 0
  show ?case using unat_u64_less [of w] by simp
next
  case (Suc k)
  let ?x = "unat w div 2 ^ (60 - 4 * k)"
  have exp: "64 - 4 * k = (60 - 4 * k) + 4" "4 * (15 - k) = 60 - 4 * k" using Suc.prems by auto
  have "unat w div 2 ^ (64 - 4 * k) = ?x div 16" by (simp only: exp(1) power_add div_mult2_eq) simp
  then have v: "unat w div 2 ^ (64 - 4 * k) * 16 + ?x mod 16 = ?x" by simp
  have small: "?x < 2 ^ 64"
    by (rule le_less_trans [OF div_le_dividend]) (use unat_u64_less [of w] in simp)
  have d: "unat (drop_bit (4 * (15 - k)) w) = ?x" by (subst drop_bit_eq_div [symmetric], subst unat_drop_bit_eq [symmetric]) (simp add: exp(2))
  have "hex_digit (hex_char (?x mod 16)) = Some (?x mod 16)" by (rule hex_digit_char) simp
  from parse_hex_snoc [OF Suc.IH this] Suc.prems v small d show ?case by simp
qed

lemma from_str_format_hex16: "from_str_radix16 (format_hex16 w) = Some w"
proof -
  have "format_hex16 w \<noteq> []" by (simp add: format_hex16_def)
  then obtain c cs where f: "format_hex16 w = c # cs" by (cases "format_hex16 w") auto
  have "c = hex_char (unat (drop_bit 60 w) mod 16)"
    using f by (simp add: format_hex16_def upt_rec)
  moreover have "\<forall>d \<in> set [0..<16]. hex_char d \<noteq> CHR ''+''" by code_simp
  then have "d < 16 \<Longrightarrow> hex_char d \<noteq> CHR ''+''" for d by simp
  ultimately have "c \<noteq> CHR ''+''" by simp
  moreover have "parse_hex 0 (format_hex16 w) = Some (unat w)"
    using parse_hex_digits [of 16 w] by (simp add: format_hex16_def)
  ultimately show ?thesis by (simp add: from_str_radix16_def f Let_def)
qed

lemma peer_of_peer_spec: "p_id p \<noteq> [] \<Longrightarrow> peer_of_spec (peer_spec_of p) = Some p"
proof -
  have "eq_ignore_ascii_case ''LEARNER'' ''LEARNER''" "\<not> eq_ignore_ascii_case ''VOTER'' ''LEARNER''"
    by code_simp+
  then show "p_id p \<noteq> [] \<Longrightarrow> peer_of_spec (peer_spec_of p) = Some p"
    by (cases p; cases "p_role p")
      (auto simp: peer_of_spec_def peer_spec_of_def strip_prefix_def from_str_format_hex16
        peer_is_voter_def Let_def)
qed

lemma collect_peer_specs: "\<forall>p \<in> set ps. p_id p \<noteq> [] \<Longrightarrow> collect_peers (map peer_spec_of ps) = Some ps"
  by (induction ps) (auto simp: peer_of_peer_spec)

fun command_peers :: "configuration_command \<Rightarrow> peer list" where
  "command_peers (Joint ps) = ps"
| "command_peers Finalize = []"
| "command_peers (Join p) = [p]"

text \<open>What a protobuf library documents: decoding an encoded message gives it back.\<close>

definition protobuf_roundtrip :: "protobuf \<Rightarrow> bool" where
  "protobuf_roundtrip pb \<longleftrightarrow> (\<forall>m b. pb_encode pb m = Some b \<longrightarrow> pb_decode pb b = Some m)"

lemma config_decode_encode:
  assumes "config_encode pb cmd = Some data"
    and "protobuf_roundtrip pb"
    and "\<forall>p \<in> set (command_peers cmd). p_id p \<noteq> []"
  shows "config_decode pb data = Some cmd"
  using assms
  by (cases cmd) (auto simp: protobuf_roundtrip_def config_encode_def config_decode_def collect_peer_specs peer_of_peer_spec)

section \<open>Properties\<close>

text \<open>
  (C31) A configuration command with named members survives the log: over any protobuf library
  that decodes what it encodes, decoding the encoded command gives the same command, with
  every member's identifier, role and 64-bit service name.
\<close>

theorem configuration_roundtrip:
  assumes "protobuf_roundtrip pb" and "config_encode pb cmd = Some data"
    and "\<forall>p \<in> set (command_peers cmd). p_id p \<noteq> []"
  shows "config_decode pb data = Some cmd"
  by (rule config_decode_encode [OF assms(2,1,3)])

text \<open>A protobuf library that can carry one message only.\<close>

definition one_message :: "internal_raft_command \<Rightarrow> protobuf" where
  "one_message m = \<lparr>pb_encode = (\<lambda>n. if n = m then Some [10] else None), pb_decode = (\<lambda>_. Some m)\<rparr>"

lemma one_message_roundtrip: "protobuf_roundtrip (one_message m)"
  by (simp add: protobuf_roundtrip_def one_message_def)

theorem configuration_roundtrip_witness:
  "\<exists>pb data. config_encode pb (Joint [peer_learner ''b'' 0xABCDEF0123456789]) = Some data \<and>
     config_decode pb data = Some (Joint [peer_learner ''b'' 0xABCDEF0123456789])"
proof -
  let ?cmd = "Joint [peer_learner ''b'' 0xABCDEF0123456789]"
  let ?pb = "one_message (Some (ProtoJoint (map peer_spec_of [peer_learner ''b'' 0xABCDEF0123456789])))"
  have e: "config_encode ?pb ?cmd = Some [10]" by (simp add: config_encode_def one_message_def)
  have "\<forall>p \<in> set (command_peers ?cmd). p_id p \<noteq> []" by (simp add: peer_learner_def)
  from configuration_roundtrip [OF one_message_roundtrip e this] e show ?thesis by blast
qed

end
