(* ===== verification/Raft_Snapshot_Codec.thy ===== *)
theory Raft_Snapshot_Codec
  imports Raft_Configuration
begin

text \<open>
  \<^verbatim>\<open>crates/catten-graft/src/snapshot_codec.rs\<close>: the textual envelope that carries a
  membership next to an application snapshot. Text is a list of characters, one per UTF-8
  byte. The scanner is modelled with the substring searches the code makes, including what
  it accepts by accident.
\<close>

section \<open>Bytes and text\<close>

definition string_bytes :: "string \<Rightarrow> bytes" where
  "string_bytes s = map (\<lambda>c. of_nat (of_char c)) s"

definition bytes_string :: "bytes \<Rightarrow> string" where
  "bytes_string bs = map (\<lambda>b. char_of (unat b)) bs"

text \<open>\<open>core::str::from_utf8\<close> accepts exactly the well-formed sequences of the standard.\<close>

definition continuation :: "nat \<Rightarrow> nat \<Rightarrow> u8 \<Rightarrow> bool" where
  "continuation lo hi b \<longleftrightarrow> lo \<le> unat b \<and> unat b \<le> hi"

fun utf8_valid :: "bytes \<Rightarrow> bool" where
  "utf8_valid [] = True"
| "utf8_valid (a # bs) =
     (let n = unat a in
      if n < 128 then utf8_valid bs
      else if 194 \<le> n \<and> n \<le> 223 then
        (case bs of b # cs \<Rightarrow> continuation 128 191 b \<and> utf8_valid cs | _ \<Rightarrow> False)
      else if 224 \<le> n \<and> n \<le> 239 then
        (case bs of b # c # cs \<Rightarrow>
           continuation (if n = 224 then 160 else 128) (if n = 237 then 159 else 191) b \<and>
           continuation 128 191 c \<and> utf8_valid cs
         | _ \<Rightarrow> False)
      else if 240 \<le> n \<and> n \<le> 244 then
        (case bs of b # c # d # cs \<Rightarrow>
           continuation (if n = 240 then 144 else 128) (if n = 244 then 143 else 191) b \<and>
           continuation 128 191 c \<and> continuation 128 191 d \<and> utf8_valid cs
         | _ \<Rightarrow> False)
      else False)"

section \<open>Base 64\<close>

definition alphabet :: string where
  "alphabet = ''ABCDEFGHIJKLMNOPQRSTUVWXYZabcdefghijklmnopqrstuvwxyz0123456789+/''"

definition sextet :: "u32 \<Rightarrow> nat \<Rightarrow> char" where
  "sextet triple n = alphabet ! unat (drop_bit n triple AND 0x3f)"

definition triple_of :: "u8 \<Rightarrow> u8 \<Rightarrow> u8 \<Rightarrow> u32" where
  "triple_of b0 b1 b2 = (push_bit 16 (ucast b0) OR push_bit 8 (ucast b1)) OR ucast b2"

fun base64_encode :: "bytes \<Rightarrow> string" where
  "base64_encode [] = []"
| "base64_encode [b0] = (let t = triple_of b0 0 0 in [sextet t 18, sextet t 12])"
| "base64_encode [b0, b1] = (let t = triple_of b0 b1 0 in [sextet t 18, sextet t 12, sextet t 6])"
| "base64_encode (b0 # b1 # b2 # bs) =
     (let t = triple_of b0 b1 b2 in [sextet t 18, sextet t 12, sextet t 6, sextet t 0] @ base64_encode bs)"

definition base64_digit :: "char \<Rightarrow> u32 option" where
  "base64_digit c =
     (let n = of_char c :: nat in
      if 65 \<le> n \<and> n \<le> 90 then Some (of_nat (n - 65))
      else if 97 \<le> n \<and> n \<le> 122 then Some (of_nat (n - 97 + 26))
      else if 48 \<le> n \<and> n \<le> 57 then Some (of_nat (n - 48 + 52))
      else if n = 43 then Some 62
      else if n = 47 then Some 63
      else None)"

definition decode_group :: "u32 \<Rightarrow> u32 \<Rightarrow> u32 option \<Rightarrow> u32 option \<Rightarrow> bytes" where
  "decode_group v0 v1 v2 v3 =
     ucast (push_bit 2 v0 OR drop_bit 4 v1) #
     (case v2 of None \<Rightarrow> []
      | Some w2 \<Rightarrow> ucast (push_bit 4 v1 OR drop_bit 2 w2) #
          (case v3 of None \<Rightarrow> [] | Some w3 \<Rightarrow> [ucast (push_bit 6 w2 OR w3)]))"

definition decode_pair :: "char \<Rightarrow> char \<Rightarrow> u32 option \<Rightarrow> u32 option \<Rightarrow> bytes option" where
  "decode_pair c0 c1 v2 v3 =
     (case base64_digit c0 of None \<Rightarrow> None
      | Some v0 \<Rightarrow> (case base64_digit c1 of None \<Rightarrow> None | Some v1 \<Rightarrow> Some (decode_group v0 v1 v2 v3)))"

fun base64_decode :: "string \<Rightarrow> bytes option" where
  "base64_decode [] = Some []"
| "base64_decode [c0] = None"
| "base64_decode [c0, c1] = decode_pair c0 c1 None None"
| "base64_decode [c0, c1, c2] = decode_pair c0 c1 (base64_digit c2) None"
| "base64_decode (c0 # c1 # c2 # c3 # cs) =
     (case decode_pair c0 c1 (base64_digit c2) (base64_digit c3) of None \<Rightarrow> None
      | Some bs \<Rightarrow> map_option (\<lambda>rest. bs @ rest) (base64_decode cs))"

section \<open>Writing\<close>

text \<open>The five replacements of \<open>quote_json\<close>, in their order.\<close>

definition replace_char :: "char \<Rightarrow> string \<Rightarrow> string \<Rightarrow> string" where
  "replace_char c by s = concat (map (\<lambda>d. if d = c then by else [d]) s)"

definition BACKSLASH :: char where "BACKSLASH = char_of (92 :: nat)"

definition QUOTE :: char where "QUOTE = char_of (34 :: nat)"

definition NEWLINE :: char where "NEWLINE = char_of (10 :: nat)"

definition RETURN :: char where "RETURN = char_of (13 :: nat)"

definition TAB :: char where "TAB = char_of (9 :: nat)"

definition quote_json :: "string \<Rightarrow> string" where
  "quote_json value =
     (let s = replace_char BACKSLASH [BACKSLASH, BACKSLASH] value;
          s = replace_char QUOTE [BACKSLASH, QUOTE] s;
          s = replace_char NEWLINE [BACKSLASH, CHR ''n''] s;
          s = replace_char RETURN [BACKSLASH, CHR ''r''] s;
          s = replace_char TAB [BACKSLASH, CHR ''t''] s
      in [QUOTE] @ s @ [QUOTE])"

fun decimal :: "nat \<Rightarrow> string" where
  "decimal n = (if n < 10 then [char_of (48 + n)] else decimal (n div 10) @ [char_of (48 + n mod 10)])"

text \<open>A quoted field name followed by a colon.\<close>

definition field_marker :: "string \<Rightarrow> string" where
  "field_marker field = [QUOTE] @ field @ [QUOTE] @ '':''"

definition quoted :: "string \<Rightarrow> string" where
  "quoted s = [QUOTE] @ s @ [QUOTE]"

definition member_json :: "peer \<Rightarrow> string" where
  "member_json p =
     ''{'' @ field_marker ''id'' @ quote_json (p_id p) @ '','' @
     field_marker ''role'' @ quoted (if peer_is_voter p then ''VOTER'' else ''LEARNER'') @ '','' @
     field_marker ''address'' @ ''{'' @
     field_marker ''host'' @ quoted (''charlotte:'' @ format_hex16 (service_name p)) @ '','' @
     field_marker ''port'' @ ''0}}''"

fun join_comma :: "string list \<Rightarrow> string" where
  "join_comma [] = []"
| "join_comma [s] = s"
| "join_comma (s # t # ts) = s @ '','' @ join_comma (t # ts)"

definition members_json :: "peer list \<Rightarrow> string" where
  "members_json ps = join_comma (map member_json ps)"

definition wrap_snapshot_payload_with_membership_epoch ::
    "peer list \<Rightarrow> peer list \<Rightarrow> nat \<Rightarrow> bytes \<Rightarrow> bytes" where
  "wrap_snapshot_payload_with_membership_epoch current nxt membership_epoch snapshot =
     string_bytes (
       ''{'' @ field_marker ''version'' @ ''1,'' @
       field_marker ''membershipEpoch'' @ decimal membership_epoch @ '','' @
       field_marker ''currentMembers'' @ ''['' @ members_json current @ ''],'' @
       field_marker ''nextMembers'' @ ''['' @ members_json nxt @ ''],'' @
       field_marker ''stateMachineSnapshot'' @ quote_json (base64_encode snapshot) @ ''}'')"

definition wrap_snapshot_payload :: "peer list \<Rightarrow> peer list \<Rightarrow> bytes \<Rightarrow> bytes" where
  "wrap_snapshot_payload current nxt snapshot =
     wrap_snapshot_payload_with_membership_epoch current nxt 0 snapshot"

section \<open>Reading\<close>

text \<open>\<open>str::find\<close> of a substring and \<open>str::rfind\<close> of a character.\<close>

fun find_sub :: "string \<Rightarrow> string \<Rightarrow> nat option" where
  "find_sub pat [] = (if pat = [] then Some 0 else None)"
| "find_sub pat (c # cs) =
     (if take (length pat) (c # cs) = pat then Some 0 else map_option Suc (find_sub pat cs))"

fun find_char :: "char \<Rightarrow> string \<Rightarrow> nat option" where
  "find_char c [] = None"
| "find_char c (d # ds) = (if c = d then Some 0 else map_option Suc (find_char c ds))"

definition rfind_char :: "char \<Rightarrow> string \<Rightarrow> nat option" where
  "rfind_char c s = map_option (\<lambda>i. length s - 1 - i) (find_char c (rev s))"

fun parse_json_loop :: "string \<Rightarrow> bool \<Rightarrow> nat \<Rightarrow> string \<Rightarrow> (string \<times> nat) option" where
  "parse_json_loop out escaped offset [] = None"
| "parse_json_loop out escaped offset (c # cs) =
     (if escaped then
        (if c = QUOTE then parse_json_loop (out @ [QUOTE]) False (Suc offset) cs
         else if c = BACKSLASH then parse_json_loop (out @ [BACKSLASH]) False (Suc offset) cs
         else if c = CHR ''n'' then parse_json_loop (out @ [NEWLINE]) False (Suc offset) cs
         else if c = CHR ''r'' then parse_json_loop (out @ [RETURN]) False (Suc offset) cs
         else if c = CHR ''t'' then parse_json_loop (out @ [TAB]) False (Suc offset) cs
         else None)
      else if c = BACKSLASH then parse_json_loop out True (Suc offset) cs
      else if c = QUOTE then Some (out, Suc offset)
      else if (of_char c :: nat) < 32 \<or> (of_char c :: nat) = 127 then None
      else if (of_char c :: nat) < 128 then parse_json_loop (out @ [c]) False (Suc offset) cs
      else None)"

definition parse_json_string :: "string \<Rightarrow> (string \<times> nat) option" where
  "parse_json_string value =
     (case value of [] \<Rightarrow> None
      | c # cs \<Rightarrow> if c \<noteq> QUOTE then None else parse_json_loop [] False 1 cs)"

fun matching_array_loop :: "bool \<Rightarrow> bool \<Rightarrow> nat \<Rightarrow> string \<Rightarrow> nat option" where
  "matching_array_loop in_string escaped offset [] = None"
| "matching_array_loop in_string escaped offset (c # cs) =
     (if in_string then
        (if escaped then matching_array_loop True False (Suc offset) cs
         else if c = BACKSLASH then matching_array_loop True True (Suc offset) cs
         else if c = QUOTE then matching_array_loop False False (Suc offset) cs
         else matching_array_loop True False (Suc offset) cs)
      else if c = QUOTE then matching_array_loop True escaped (Suc offset) cs
      else if c = CHR '']'' then Some offset
      else matching_array_loop False escaped (Suc offset) cs)"

definition matching_array_end :: "string \<Rightarrow> nat \<Rightarrow> nat option" where
  "matching_array_end text start =
     (if start \<le> length text then matching_array_loop False False start (drop start text) else None)"

definition string_field :: "string \<Rightarrow> string \<Rightarrow> string option" where
  "string_field value field =
     (let marker = field_marker field in
      case find_sub marker value of None \<Rightarrow> None
      | Some i \<Rightarrow>
          let rest = drop (i + length marker) value in
          (case parse_json_string rest of None \<Rightarrow> None
           | Some (_, consumed) \<Rightarrow> Some (take (consumed - 2) (drop 1 rest))))"

definition is_ascii_digit :: "char \<Rightarrow> bool" where
  "is_ascii_digit c \<longleftrightarrow> 48 \<le> (of_char c :: nat) \<and> (of_char c :: nat) \<le> 57"

fun parse_decimal :: "nat \<Rightarrow> string \<Rightarrow> nat option" where
  "parse_decimal acc [] = Some acc"
| "parse_decimal acc (c # cs) =
     (let v = acc * 10 + (of_char c - 48) in if v \<le> U64_MAX then parse_decimal v cs else None)"

definition unsigned_field :: "string \<Rightarrow> string \<Rightarrow> nat option" where
  "unsigned_field value field =
     (let marker = field_marker field in
      case find_sub marker value of None \<Rightarrow> None
      | Some i \<Rightarrow>
          let digits = takeWhile is_ascii_digit (drop (i + length marker) value) in
          if digits \<noteq> [] then parse_decimal 0 digits else None)"

definition parse_host :: "string \<Rightarrow> u64" where
  "parse_host object =
     (case Option.bind (Option.bind (string_field object ''host'') (strip_prefix ''charlotte:''))
             from_str_radix16 of
        Some n \<Rightarrow> n | None \<Rightarrow> 0)"

lemma find_sub_bound: "find_sub pat s = Some i \<Longrightarrow> i + length pat \<le> length s"
  by (induction pat s arbitrary: i rule: find_sub.induct)
    (auto split: if_splits dest: arg_cong [of _ _ length])

text \<open>The scanning loop of \<open>member_ids\<close>; \<open>None\<close> is its early return.\<close>

function member_loop :: "string \<Rightarrow> nat \<Rightarrow> peer list \<Rightarrow> peer list option" where
  "member_loop array cursor members =
     (case find_sub (field_marker ''id'') (drop cursor array) of
        None \<Rightarrow> Some members
      | Some relative \<Rightarrow>
          let cursor' = cursor + relative + length (field_marker ''id'') in
          (case rfind_char (CHR ''{'') (take cursor' array) of None \<Rightarrow> None
           | Some object_start \<Rightarrow>
          (case find_char (CHR ''}'') (drop cursor' array) of None \<Rightarrow> None
           | Some offset \<Rightarrow>
               let object = take (cursor' + offset + 1 - object_start) (drop object_start array) in
          (case parse_json_string (drop cursor' array) of None \<Rightarrow> None
           | Some (ident, consumed) \<Rightarrow>
               let role = (case string_field object ''role'' of Some r \<Rightarrow> r | None \<Rightarrow> ''VOTER'') in
               member_loop array (cursor' + consumed)
                 (members @ [\<lparr>p_id = ident, service_name = parse_host object,
                    p_role = (if eq_ignore_ascii_case role ''LEARNER'' then Learner else Voter)\<rparr>])))))"
  by pat_completeness auto
termination
proof (relation "measure (\<lambda>(array, cursor, _). length array - cursor)")
  fix array :: string and cursor members relative cursor'
  assume "find_sub (field_marker ''id'') (drop cursor array) = Some relative"
    and "cursor' = cursor + relative + length (field_marker ''id'')"
  then have "cursor' \<le> length array" "cursor < cursor'"
    using find_sub_bound [of "field_marker ''id''" "drop cursor array" relative]
    by (auto simp: field_marker_def)
  then show "((array, cursor' + consumed, members'), array, cursor, members)
      \<in> measure (\<lambda>(array, cursor, _). length array - cursor)" for consumed members'
    by auto
qed simp

declare member_loop.simps [simp del]

definition member_ids :: "string \<Rightarrow> string \<Rightarrow> peer list option" where
  "member_ids value field =
     (let marker = field_marker field @ ''['' in
      case find_sub marker value of None \<Rightarrow> None
      | Some i \<Rightarrow>
          let start = i + length marker in
          (case matching_array_end value start of None \<Rightarrow> None
           | Some end_at \<Rightarrow> member_loop (take (end_at - start) (drop start value)) 0 []))"

record snapshot_envelope =
  env_membership_epoch :: nat
  env_current_members :: "peer list"
  env_next_members :: "peer list"
  env_state_machine_snapshot :: bytes

definition decode_snapshot_payload :: "bytes \<Rightarrow> snapshot_envelope option" where
  "decode_snapshot_payload payload =
     (if \<not> utf8_valid payload then None
      else
        let value = bytes_string payload;
            epoch = (case unsigned_field value ''membershipEpoch'' of Some n \<Rightarrow> n | None \<Rightarrow> 0)
        in case member_ids value ''currentMembers'' of None \<Rightarrow> None
        | Some current \<Rightarrow>
          (case member_ids value ''nextMembers'' of None \<Rightarrow> None
           | Some nxt \<Rightarrow>
             (case Option.bind (string_field value ''stateMachineSnapshot'') base64_decode of None \<Rightarrow> None
              | Some snapshot \<Rightarrow>
                  Some \<lparr>env_membership_epoch = epoch, env_current_members = current,
                        env_next_members = nxt, env_state_machine_snapshot = snapshot\<rparr>)))"

definition unwrap_snapshot_payload :: "bytes \<Rightarrow> bytes" where
  "unwrap_snapshot_payload payload =
     (case decode_snapshot_payload payload of
        Some e \<Rightarrow> env_state_machine_snapshot e | None \<Rightarrow> payload)"

section \<open>Base 64 round trip\<close>

lemma and_63: "(x :: u32) AND 0x3f = take_bit 6 x"
  by (simp add: take_bit_eq_mask mask_eq_exp_minus_1)

lemma bit_u8_high: "8 \<le> n \<Longrightarrow> \<not> bit (b :: u8) n"
  using bit_imp_le_length [of b n] by auto

lemma u8_eqI:
  assumes "bit a 0 = bit b 0 \<and> bit a 1 = bit b 1 \<and> bit a 2 = bit b 2 \<and> bit a 3 = bit b 3 \<and>
    bit a 4 = bit b 4 \<and> bit a 5 = bit b 5 \<and> bit a 6 = bit b 6 \<and> bit a 7 = bit b 7"
  shows "(a :: u8) = b"
proof (rule bit_word_eqI)
  fix i assume "i < LENGTH(8)"
  then have "i = 0 \<or> i = 1 \<or> i = 2 \<or> i = 3 \<or> i = 4 \<or> i = 5 \<or> i = 6 \<or> i = 7" by auto
  with assms show "bit a i = bit b i" by blast
qed

lemma triple_bytes:
  fixes b0 b1 b2 :: u8
  defines "t \<equiv> triple_of b0 b1 b2"
  shows "ucast (push_bit 2 (take_bit 6 (drop_bit 18 t)) OR drop_bit 4 (take_bit 6 (drop_bit 12 t))) = b0"
    "ucast (push_bit 4 (take_bit 6 (drop_bit 12 t)) OR drop_bit 2 (take_bit 6 (drop_bit 6 t))) = b1"
    "ucast (push_bit 6 (take_bit 6 (drop_bit 6 t)) OR take_bit 6 (drop_bit 0 t)) = b2"
  unfolding t_def triple_of_def
  by (rule u8_eqI, simp add: bit_simps bit_u8_high)+

lemma base64_digit_alphabet: "n < 64 \<Longrightarrow> base64_digit (alphabet ! n) = Some (of_nat n)"
proof -
  have "map base64_digit alphabet = map (\<lambda>n. Some (of_nat n)) [0..<64]" by code_simp
  moreover have "length alphabet = 64" by code_simp
  ultimately show "n < 64 \<Longrightarrow> base64_digit (alphabet ! n) = Some (of_nat n)"
    by (metis (no_types, lifting) add_0 length_map nth_map nth_upt length_upt diff_zero)
qed

lemma base64_digit_sextet: "base64_digit (sextet t n) = Some (take_bit 6 (drop_bit n t))"
proof -
  have "unat (take_bit 6 (drop_bit n t)) < 64"
    by (simp only: unsigned_take_bit_eq) (simp add: take_bit_eq_mod)
  then show ?thesis by (simp add: sextet_def and_63 base64_digit_alphabet)
qed

lemma base64_roundtrip: "base64_decode (base64_encode bs) = Some bs"
proof (induction bs rule: base64_encode.induct)
  case (2 b0)
  show ?case using triple_bytes(1) [of b0 0 0]
    by (simp add: Let_def decode_pair_def base64_digit_sextet decode_group_def)
next
  case (3 b0 b1)
  show ?case using triple_bytes(1,2) [of b0 b1 0]
    by (simp add: Let_def decode_pair_def base64_digit_sextet decode_group_def)
next
  case (4 b0 b1 b2 bs)
  then show ?case using triple_bytes [of b0 b1 b2]
    by (simp add: Let_def decode_pair_def base64_digit_sextet decode_group_def)
qed simp

section \<open>String round trip\<close>

lemma special_chars:
  "BACKSLASH \<noteq> QUOTE" "BACKSLASH \<noteq> NEWLINE" "BACKSLASH \<noteq> RETURN" "BACKSLASH \<noteq> TAB" "QUOTE \<noteq> NEWLINE"
  "QUOTE \<noteq> RETURN" "QUOTE \<noteq> TAB" "NEWLINE \<noteq> RETURN" "NEWLINE \<noteq> TAB" "RETURN \<noteq> TAB"
  "QUOTE \<noteq> BACKSLASH" "NEWLINE \<noteq> BACKSLASH" "RETURN \<noteq> BACKSLASH" "TAB \<noteq> BACKSLASH" "NEWLINE \<noteq> QUOTE"
  "RETURN \<noteq> QUOTE" "TAB \<noteq> QUOTE" "RETURN \<noteq> NEWLINE" "TAB \<noteq> NEWLINE" "TAB \<noteq> RETURN"
  "CHR ''n'' \<noteq> NEWLINE" "CHR ''n'' \<noteq> RETURN" "CHR ''n'' \<noteq> TAB" "CHR ''r'' \<noteq> RETURN" "CHR ''r'' \<noteq> TAB"
  "CHR ''t'' \<noteq> TAB" "CHR ''n'' \<noteq> BACKSLASH" "CHR ''n'' \<noteq> QUOTE" "CHR ''r'' \<noteq> BACKSLASH" "CHR ''r'' \<noteq> QUOTE"
  "CHR ''t'' \<noteq> BACKSLASH" "CHR ''t'' \<noteq> QUOTE"
  by code_simp+

definition escape_char :: "char \<Rightarrow> string" where
  "escape_char c =
     (if c = BACKSLASH then [BACKSLASH, BACKSLASH] else if c = QUOTE then [BACKSLASH, QUOTE]
      else if c = NEWLINE then [BACKSLASH, CHR ''n''] else if c = RETURN then [BACKSLASH, CHR ''r'']
      else if c = TAB then [BACKSLASH, CHR ''t''] else [c])"

definition escape :: "string \<Rightarrow> string" where
  "escape s = concat (map escape_char s)"

lemma replace_append: "replace_char c x (s @ t) = replace_char c x s @ replace_char c x t"
  by (simp add: replace_char_def)

lemma replace_Nil: "replace_char c x [] = []"
  by (simp add: replace_char_def)

lemma replace_Cons: "replace_char c x (d # s) = (if d = c then x else [d]) @ replace_char c x s"
  by (simp add: replace_char_def)

lemma quote_json_eq: "quote_json v = QUOTE # escape v @ [QUOTE]"
proof -
  let ?r = "\<lambda>v. replace_char TAB [BACKSLASH, CHR ''t''] (replace_char RETURN [BACKSLASH, CHR ''r'']
     (replace_char NEWLINE [BACKSLASH, CHR ''n''] (replace_char QUOTE [BACKSLASH, QUOTE]
       (replace_char BACKSLASH [BACKSLASH, BACKSLASH] v))))"
  have "?r v = escape v" for v
  proof (induction v)
    case Nil
    then show ?case by (simp add: replace_Nil escape_def)
  next
    case (Cons c v)
    have "?r (c # v) = ?r [c] @ ?r v" by (simp add: replace_Cons replace_append replace_Nil)
    moreover have "?r [c] = escape_char c"
      by (simp add: replace_Cons replace_Nil escape_char_def special_chars)
    ultimately show ?case using Cons by (simp add: escape_def)
  qed
  then show ?thesis by (simp add: quote_json_def Let_def)
qed

text \<open>Characters the reader accepts inside a string.\<close>

definition plain_char :: "char \<Rightarrow> bool" where
  "plain_char c \<longleftrightarrow> (let n = of_char c :: nat in 32 \<le> n \<and> n < 127 \<or> n = 9 \<or> n = 10 \<or> n = 13)"

lemma of_char_special:
  "(of_char c :: nat) = 9 \<longleftrightarrow> c = TAB" "(of_char c :: nat) = 10 \<longleftrightarrow> c = NEWLINE" "(of_char c :: nat) = 13 \<longleftrightarrow> c = RETURN"
  unfolding TAB_def NEWLINE_def RETURN_def using char_of_eq_iff [of 9 c] char_of_eq_iff [of 10 c] char_of_eq_iff [of 13 c]
  by (auto simp: eq_commute)

lemma parse_json_escape_char:
  assumes "plain_char c"
  shows "parse_json_loop out False k (escape_char c @ rest) =
     parse_json_loop (out @ [c]) False (k + length (escape_char c)) rest"
proof (cases "c = BACKSLASH \<or> c = QUOTE \<or> c = NEWLINE \<or> c = RETURN \<or> c = TAB")
  case True
  then show ?thesis by (elim disjE) (simp_all add: escape_char_def special_chars)
next
  case False
  then have "32 \<le> (of_char c :: nat)" "(of_char c :: nat) < 127"
    using assms by (auto simp: plain_char_def Let_def of_char_special)
  with False show ?thesis by (simp add: escape_char_def)
qed

lemma parse_json_escape:
  assumes "\<forall>c \<in> set v. plain_char c"
  shows "parse_json_loop out False k (escape v @ rest) =
     parse_json_loop (out @ v) False (k + length (escape v)) rest"
  using assms
proof (induction v arbitrary: out k)
  case (Cons c v)
  then show ?case by (simp add: escape_def parse_json_escape_char add.assoc)
qed (simp add: escape_def)

lemma parse_quote_json:
  assumes "\<forall>c \<in> set v. plain_char c"
  shows "parse_json_string (quote_json v @ rest) = Some (v, length (quote_json v))"
  by (simp add: parse_json_string_def quote_json_eq parse_json_escape [OF assms] special_chars)

section \<open>Properties\<close>




end
