(* ===== verification/Raft_Node.thy ===== *)
theory Raft_Node
  imports Raft_Log Raft_Snapshot_Codec "HOL-Library.Monad_Syntax"
begin

text \<open>
  \<^verbatim>\<open>crates/catten-graft/src/node.rs\<close>: the Raft node, every public handler and every helper
  that changes state. A handler takes the node and returns the response with the node it
  leaves behind; \<open>None\<close> is a panic: the assertion on empty member lists (membership.rs) or
  the overflow of the 64-bit term. The log store is the in-memory one, the transport is
  the list of calls made on it, and the replicated state machine and the protobuf library
  are parameters collected in \<open>env\<close>.

  Applying a committed joint configuration can submit, commit and apply further entries
  inside the same call. That recursion carries fuel; \<open>Raft_Progress\<close> shows the fuel
  used here is always enough.
\<close>

section \<open>Parameters and state\<close>

datatype snapshot_error = Unsupported | Malformed

text \<open>
  The trait \<open>StateMachine\<close> and the protobuf library: the application is a value of \<open>'sm\<close>
  and its methods are functions on it.
\<close>

record 'sm env =
  env_pb :: protobuf
  sm_apply :: "'sm \<Rightarrow> nat \<Rightarrow> bytes \<Rightarrow> bytes \<times> 'sm"
  sm_snapshot :: "'sm \<Rightarrow> bytes"
  sm_restore :: "'sm \<Rightarrow> bytes \<Rightarrow> snapshot_error + 'sm"
  sm_reset :: "'sm \<Rightarrow> 'sm"
  sm_query :: "('sm \<Rightarrow> bytes \<Rightarrow> bytes) option"

record pending_snapshot =
  sn_leader_id :: string
  sn_leader_term :: nat
  sn_last_included_index :: nat
  sn_last_included_term :: nat
  sn_offset :: nat
  sn_data :: bytes

text \<open>The identity of the shared read domain is a number, fresh for each allocation.\<close>

record pending_read =
  rd_domain :: nat
  rd_term :: nat
  rd_index :: nat
  rd_membership_epoch :: nat
  rd_query :: bytes

record 'sm node =
  me :: peer
  state :: node_state
  current_term :: nat
  voted_for :: "string option"
  timeout_millis :: nat
  last_heartbeat_millis :: nat
  last_successful_leader_sync_millis :: "nat option"
  timeout_at_millis :: nat
  election_sequence_counter :: nat
  commit_index :: nat
  last_applied :: nat
  next_index :: "(string, nat) bmap"
  match_index :: "(string, nat) bmap"
  last_follower_contact_millis :: "(string, nat) bmap"
  applied_command_results :: "(nat, bytes) bmap"
  snapshot_offsets :: "(string, nat) bmap"
  cluster_config :: cluster_configuration
  snapshot_config :: cluster_configuration
  committed_configurations :: "(nat, cluster_configuration) bmap"
  membership_epoch :: nat
  decommissioned :: bool
  joining :: bool
  joining_from :: "string option"
  pending_joiners :: "(string, peer \<times> nat) bmap"
  pending_auto_finalize_members :: "string list"
  pending_auto_finalize_fence_index :: nat
  finalize_configuration_pending :: bool
  snapshot_min_entries :: nat
  snapshot_chunk_bytes :: nat
  known_leader_id :: "string option"
  pending_snap :: "pending_snapshot option"
  n_log :: mem_log
  persistent :: persistent_state
  state_machine :: "'sm option"
  transport :: "transport_call list" \<comment> \<open>oldest first\<close>
  current_millis :: nat
  rand_state :: u64
  granted_votes :: "string set"
  read_domain :: "nat option"

abbreviation my_id :: "'sm node \<Rightarrow> string" where
  "my_id n \<equiv> p_id (me n)"

definition send :: "transport_call \<Rightarrow> 'sm node \<Rightarrow> 'sm node" where
  "send c n = n\<lparr>transport := transport n @ [c]\<rparr>"

definition get_or_zero :: "(string, nat) bmap \<Rightarrow> string \<Rightarrow> nat" where
  "get_or_zero m i = (case bm_get m i of Some v \<Rightarrow> v | None \<Rightarrow> 0)"

section \<open>Configurations in the log\<close>

definition config_step :: "protobuf \<Rightarrow> bytes \<Rightarrow> cluster_configuration \<Rightarrow> cluster_configuration option" where
  "config_step pb data c =
     (case config_decode pb data of
        Some (Joint members) \<Rightarrow> transition_to c members
      | Some Finalize \<Rightarrow> Some (finalize_transition c)
      | _ \<Rightarrow> Some c)"

fun config_fold :: "protobuf \<Rightarrow> mem_log \<Rightarrow> nat list \<Rightarrow> cluster_configuration \<Rightarrow> cluster_configuration option" where
  "config_fold pb l [] c = Some c"
| "config_fold pb l (position # positions) c =
     (case entry_at l position of
        None \<Rightarrow> config_fold pb l positions c
      | Some e \<Rightarrow> Option.bind (config_step pb (e_data e) c) (config_fold pb l positions))"

definition configuration_at :: "'sm env \<Rightarrow> 'sm node \<Rightarrow> nat \<Rightarrow> cluster_configuration option" where
  "configuration_at env n index =
     config_fold (env_pb env) (n_log n) [sat_add (snapshot_index (n_log n)) 1 ..< Suc index] (snapshot_config n)"

definition effective_configuration :: "'sm env \<Rightarrow> 'sm node \<Rightarrow> cluster_configuration option" where
  "effective_configuration env n = configuration_at env n (last_index (n_log n))"

definition accepts_joining_leader :: "'sm node \<Rightarrow> string \<Rightarrow> bool" where
  "accepts_joining_leader n leader_id \<longleftrightarrow> joining n \<and> joining_from n = Some leader_id"

definition is_finalize_at :: "'sm env \<Rightarrow> 'sm node \<Rightarrow> nat \<Rightarrow> bool" where
  "is_finalize_at env n position =
     (case entry_at (n_log n) position of
        Some e \<Rightarrow> config_decode (env_pb env) (e_data e) = Some Finalize
      | None \<Rightarrow> False)"

section \<open>Timeouts\<close>

definition next_rand :: "u64 \<Rightarrow> u64" where
  "next_rand r = r * 6364136223846793005 + 1442695040888963407"

definition random :: "'sm node \<Rightarrow> nat \<times> 'sm node" where
  "random n = (let r = next_rand (rand_state n) in (unat (drop_bit 33 r), n\<lparr>rand_state := r\<rparr>))"

definition election_jitter_millis :: "nat \<Rightarrow> nat \<Rightarrow> nat" where
  "election_jitter_millis timeout rnd = rnd mod max timeout 1"

definition election_timeout_millis :: "'sm node \<Rightarrow> nat \<times> 'sm node" where
  "election_timeout_millis n =
     (let base = timeout_millis n;
          (rnd, n') = random n;
          jitter = election_jitter_millis base rnd;
          backoff = sat_mul (base div 10) (election_sequence_counter n')
      in (sat_add (sat_add base jitter) backoff, n'))"

definition restart_timeout :: "nat \<Rightarrow> 'sm node \<Rightarrow> 'sm node" where
  "restart_timeout millis n =
     (let (t, n') = election_timeout_millis n in n'\<lparr>timeout_at_millis := sat_add millis t\<rparr>)"

definition set_millis :: "nat \<Rightarrow> 'sm node \<Rightarrow> 'sm node" where
  "set_millis millis n = send (TSetMillis millis) (n\<lparr>current_millis := millis\<rparr>)"

definition check_timeout :: "'sm env \<Rightarrow> 'sm node \<Rightarrow> bool option" where
  "check_timeout env n =
     (if joining n then Some False
      else do {
        c \<leftarrow> effective_configuration env n;
        Some (if \<not> is_voter c (my_id n) then False
              else if state n = Leader then False
              else timeout_at_millis n \<le> current_millis n)
      })"

section \<open>Commit and application\<close>

text \<open>The peers known to hold the entry at \<open>index\<close>, the leader included.\<close>

definition replicated_at :: "'sm node \<Rightarrow> cluster_configuration \<Rightarrow> nat \<Rightarrow> string set" where
  "replicated_at n configuration index =
     insert (my_id n) (set (map p_id (filter (\<lambda>p. p_id p \<noteq> my_id n \<and> index \<le> get_or_zero (match_index n) (p_id p))
       (all_members configuration))))"

fun finalizes_have_quorum :: "'sm env \<Rightarrow> 'sm node \<Rightarrow> string set \<Rightarrow> nat list \<Rightarrow> bool option" where
  "finalizes_have_quorum env n ids [] = Some True"
| "finalizes_have_quorum env n ids (position # positions) =
     (if \<not> is_finalize_at env n position then finalizes_have_quorum env n ids positions
      else do {
        c \<leftarrow> configuration_at env n (position - 1);
        if has_joint_majority c ids then finalizes_have_quorum env n ids positions else Some False
      })"

fun commit_scan :: "'sm env \<Rightarrow> 'sm node \<Rightarrow> nat list \<Rightarrow> nat \<Rightarrow> nat option" where
  "commit_scan env n [] candidate = Some candidate"
| "commit_scan env n (index # indices) candidate =
     (if term_at (n_log n) index \<noteq> current_term n then commit_scan env n indices candidate
      else do {
        configuration \<leftarrow> configuration_at env n index;
        let replicated = replicated_at n configuration index;
        finalizes \<leftarrow> finalizes_have_quorum env n replicated [commit_index n + 1 ..< Suc index];
        commit_scan env n indices
          (if has_joint_majority configuration replicated \<and> finalizes then index else candidate)
      })"

text \<open>
  \<open>advance_commit_index\<close> and everything that calls it inside \<open>apply_committed\<close> take the
  application loop \<open>ap\<close> as an argument; the loop itself ties the knot below.
\<close>

definition advance_commit_with ::
    "'sm env \<Rightarrow> ('sm node \<Rightarrow> 'sm node option) \<Rightarrow> 'sm node \<Rightarrow> 'sm node option" where
  "advance_commit_with env ap n = do {
     candidate \<leftarrow> commit_scan env n [commit_index n + 1 ..< Suc (last_index (n_log n))] (commit_index n);
     if commit_index n < candidate then ap (n\<lparr>commit_index := candidate\<rparr>) else Some n
   }"

definition submit_command_with ::
    "'sm env \<Rightarrow> ('sm node \<Rightarrow> 'sm node option) \<Rightarrow> bytes \<Rightarrow> nat \<Rightarrow> 'sm node \<Rightarrow> ((int + nat) \<times> 'sm node) option" where
  "submit_command_with env ap command millis n0 =
     (let n = n0\<lparr>current_millis := millis\<rparr> in
      if state n \<noteq> Leader then Some (Inl ERR_NOT_LEADER, n)
      else if MAX_COMMAND_BYTES < length command then Some (Inl ERR_TOO_LARGE, n)
      else
        let entry = entry_new (current_term n) (my_id n) command;
            n1 = n\<lparr>n_log := log_append (n_log n) [entry]\<rparr>;
            index = last_index (n_log n1)
        in do {
          n2 \<leftarrow> advance_commit_with env ap n1;
          Some (Inr index, n2)
        })"

definition submit_finalize_with ::
    "'sm env \<Rightarrow> ('sm node \<Rightarrow> 'sm node option) \<Rightarrow> nat \<Rightarrow> 'sm node \<Rightarrow> ((int + nat) \<times> 'sm node) option" where
  "submit_finalize_with env ap millis n =
     (case config_encode (env_pb env) Finalize of
        None \<Rightarrow> Some (Inl ERR_TOO_LARGE, n)
      | Some command \<Rightarrow> submit_command_with env ap command millis n)"

definition auto_finalize_due :: "'sm node \<Rightarrow> bool" where
  "auto_finalize_due n \<longleftrightarrow>
     state n = Leader \<and> is_joint_consensus (cluster_config n) \<and> \<not> finalize_configuration_pending n \<and>
     pending_auto_finalize_members n \<noteq> [] \<and>
     (let fence = pending_auto_finalize_fence_index n in
      fence \<noteq> 0 \<and> fence \<le> commit_index n \<and>
      \<not> (\<exists>i \<in> set (pending_auto_finalize_members n). i \<noteq> my_id n \<and> get_or_zero (match_index n) i < fence))"

definition auto_finalize_with ::
    "'sm env \<Rightarrow> ('sm node \<Rightarrow> 'sm node option) \<Rightarrow> 'sm node \<Rightarrow> 'sm node option" where
  "auto_finalize_with env ap n =
     (if \<not> auto_finalize_due n then Some n
      else do {
        (r, n') \<leftarrow> submit_finalize_with env ap (current_millis n) n;
        Some (case r of Inr _ \<Rightarrow> n'\<lparr>finalize_configuration_pending := True\<rparr> | Inl _ \<Rightarrow> n')
      })"

section \<open>Snapshots of the local state\<close>

definition snapshot_members :: "cluster_configuration \<Rightarrow> peer list \<times> peer list" where
  "snapshot_members c =
     (bm_values (current_members c), if is_joint_consensus c then bm_values (next_members c) else [])"

definition maybe_compact_local_snapshot :: "'sm env \<Rightarrow> 'sm node \<Rightarrow> 'sm node" where
  "maybe_compact_local_snapshot env n =
     (case state_machine n of
        None \<Rightarrow> n
      | Some machine \<Rightarrow>
          if snapshot_min_entries n = 0 \<or> commit_index n = 0 \<or> \<not> bm_is_empty (pending_joiners n) then n
          else if commit_index n \<le> snapshot_index (n_log n) \<or>
            commit_index n - snapshot_index (n_log n) < snapshot_min_entries n then n
          else
            let (current, nxt) = snapshot_members (cluster_config n);
                snapshot = wrap_snapshot_payload_with_membership_epoch current nxt (membership_epoch n)
                  (sm_snapshot env machine);
                trm = term_at (n_log n) (commit_index n)
            in n\<lparr>n_log := log_install_snapshot (n_log n) (commit_index n) trm snapshot,
                 snapshot_config := cluster_config n,
                 committed_configurations := bm_retain (\<lambda>index _. commit_index n < index) (committed_configurations n)\<rparr>)"

definition snapshot_admitted_membership :: "'sm env \<Rightarrow> nat \<Rightarrow> 'sm node \<Rightarrow> 'sm node" where
  "snapshot_admitted_membership env index n =
     (let (current, nxt) = snapshot_members (cluster_config n);
          application_snapshot = (case state_machine n of Some m \<Rightarrow> sm_snapshot env m | None \<Rightarrow> []);
          snapshot = wrap_snapshot_payload_with_membership_epoch current nxt index application_snapshot;
          trm = term_at (n_log n) index
      in n\<lparr>n_log := log_install_snapshot (n_log n) index trm snapshot,
           snapshot_config := cluster_config n,
           committed_configurations := bm_retain (\<lambda>config_index _. index < config_index) (committed_configurations n)\<rparr>)"

section \<open>Applying a configuration entry\<close>

text \<open>The match that installs the new configuration.\<close>

definition enter_configuration :: "nat \<Rightarrow> configuration_command \<Rightarrow> 'sm node \<Rightarrow> 'sm node option" where
  "enter_configuration index command n =
     (case command of
        Joint members \<Rightarrow> do {
          c \<leftarrow> transition_to (cluster_config n) members;
          Some (n\<lparr>pending_joiners := bm_retain (\<lambda>i _. i \<notin> set (map p_id members)) (pending_joiners n),
                  pending_auto_finalize_members := map p_id members,
                  pending_auto_finalize_fence_index := index,
                  finalize_configuration_pending := False,
                  cluster_config := c\<rparr>)
        }
      | Finalize \<Rightarrow>
          Some (n\<lparr>pending_auto_finalize_members := [],
                  pending_auto_finalize_fence_index := 0,
                  finalize_configuration_pending := False,
                  cluster_config := finalize_transition (cluster_config n)\<rparr>)
      | Join _ \<Rightarrow> None)"

definition complete_admission :: "'sm env \<Rightarrow> nat \<Rightarrow> 'sm node \<Rightarrow> 'sm node" where
  "complete_admission env index n =
     (if contains (cluster_config n) (my_id n) then
        let n' = (if joining n then
                    let m = snapshot_admitted_membership env index n
                    in m\<lparr>persistent := set_join_admission (persistent m) None\<rparr>
                  else n)
        in n'\<lparr>joining := False, joining_from := None\<rparr>
      else n)"

definition relinquish :: "'sm node \<Rightarrow> 'sm node" where
  "relinquish n =
     (if is_voter (cluster_config n) (my_id n) then n
      else n\<lparr>state := Follower, known_leader_id := None, last_successful_leader_sync_millis := None,
             last_follower_contact_millis := bm_empty, granted_votes := {}\<rparr>)"

definition retain_active :: "'sm node \<Rightarrow> 'sm node" where
  "retain_active n =
     (let active_ids = set (map p_id (all_members (cluster_config n)));
          keep = (\<lambda>i _. i \<in> active_ids)
      in n\<lparr>next_index := bm_retain keep (next_index n),
           match_index := bm_retain keep (match_index n),
           snapshot_offsets := bm_retain keep (snapshot_offsets n)\<rparr>)"

definition adopt_configuration :: "'sm env \<Rightarrow> nat \<Rightarrow> configuration_command \<Rightarrow> 'sm node \<Rightarrow> 'sm node option" where
  "adopt_configuration env index command n = do {
     n1 \<leftarrow> enter_configuration index command n;
     let n2 = n1\<lparr>membership_epoch := index,
                 committed_configurations := bm_insert index (cluster_config n1) (committed_configurations n1),
                 decommissioned := \<not> contains (cluster_config n1) (my_id n1)\<rparr>;
     Some (retain_active (relinquish (complete_admission env index n2)))
   }"

definition apply_configuration_with ::
    "'sm env \<Rightarrow> ('sm node \<Rightarrow> 'sm node option) \<Rightarrow> nat \<Rightarrow> bytes \<Rightarrow> 'sm node \<Rightarrow> (bool \<times> 'sm node) option" where
  "apply_configuration_with env ap index data n =
     (case config_decode (env_pb env) data of
        None \<Rightarrow> Some (False, n)
      | Some (Join p) \<Rightarrow>
          Some (True, n\<lparr>pending_joiners := bm_insert (p_id p) (p, index) (pending_joiners n)\<rparr>)
      | Some (Joint members) \<Rightarrow> do {
          n1 \<leftarrow> adopt_configuration env index (Joint members) n;
          n2 \<leftarrow> auto_finalize_with env ap n1;
          Some (True, n2)
        }
      | Some Finalize \<Rightarrow> do {
          n1 \<leftarrow> adopt_configuration env index Finalize n;
          Some (True, n1)
        })"

section \<open>The application loop\<close>

function trim_results :: "(nat, bytes) bmap \<Rightarrow> (nat, bytes) bmap" where
  "trim_results m =
     (if 128 < bm_len m then
        case bm_keys m of
          oldest # _ \<Rightarrow> trim_results (bm_remove oldest m)
        | [] \<Rightarrow> m
      else m)"
  by pat_completeness auto

termination
proof (relation "measure bm_len")
  fix m :: "(nat, bytes) bmap" and k ks
  assume "bm_keys m = k # ks"
  then have "k \<in> set (bm_keys m)" by simp
  then have k: "k \<in> dom (bm_get m)" by (simp add: set_bm_keys)
  then have "0 < card (dom (bm_get m))" by (auto simp: card_gt_0_iff simp del: dom_eq_empty_conv)
  with k show "(bm_remove k m, m) \<in> measure bm_len" by (auto simp: bm_len_eq_card)
qed simp

declare trim_results.simps [simp del]

definition apply_command :: "'sm env \<Rightarrow> log_entry \<Rightarrow> 'sm node \<Rightarrow> 'sm node" where
  "apply_command env entry n =
     (case state_machine n of
        None \<Rightarrow> n
      | Some sm \<Rightarrow>
          let (result, sm') = sm_apply env sm (e_term entry) (e_data entry)
          in n\<lparr>state_machine := Some sm',
               applied_command_results :=
                 trim_results (bm_insert (last_applied n) result (applied_command_results n))\<rparr>)"

text \<open>One turn of the loop, after \<open>last_applied\<close> has been incremented.\<close>

definition apply_entry_with ::
    "'sm env \<Rightarrow> ('sm node \<Rightarrow> 'sm node option) \<Rightarrow> 'sm node \<Rightarrow> 'sm node option" where
  "apply_entry_with env ap n =
     (case entry_at (n_log n) (last_applied n) of
        None \<Rightarrow> Some n
      | Some entry \<Rightarrow>
          if is_noop entry then Some n
          else do {
            (handled, n') \<leftarrow> apply_configuration_with env ap (last_applied n) (e_data entry) n;
            Some (if handled then n' else apply_command env entry n')
          })"

primrec apply_committed_fuel :: "'sm env \<Rightarrow> nat \<Rightarrow> 'sm node \<Rightarrow> 'sm node option" where
  "apply_committed_fuel env 0 = (\<lambda>n. None)"
| "apply_committed_fuel env (Suc fuel) =
     (\<lambda>n. if last_applied n < commit_index n then do {
             n' \<leftarrow> apply_entry_with env (apply_committed_fuel env fuel) (n\<lparr>last_applied := last_applied n + 1\<rparr>);
             apply_committed_fuel env fuel n'
           }
           else Some (maybe_compact_local_snapshot env n))"

text \<open>
  Every entry takes one turn, and every joint entry may append one more entry, so twice
  the distance to the end of the log bounds the number of turns.
\<close>

definition apply_fuel :: "'sm node \<Rightarrow> nat" where
  "apply_fuel n = 2 * (max (last_index (n_log n)) (commit_index n) - last_applied n) + 1"

definition apply_committed :: "'sm env \<Rightarrow> 'sm node \<Rightarrow> 'sm node option" where
  "apply_committed env n = apply_committed_fuel env (apply_fuel n) n"

definition advance_commit_index :: "'sm env \<Rightarrow> 'sm node \<Rightarrow> 'sm node option" where
  "advance_commit_index env = advance_commit_with env (apply_committed env)"

definition submit_command :: "'sm env \<Rightarrow> bytes \<Rightarrow> nat \<Rightarrow> 'sm node \<Rightarrow> ((int + nat) \<times> 'sm node) option" where
  "submit_command env = submit_command_with env (apply_committed env)"

definition submit_finalize_configuration :: "'sm env \<Rightarrow> nat \<Rightarrow> 'sm node \<Rightarrow> ((int + nat) \<times> 'sm node) option" where
  "submit_finalize_configuration env = submit_finalize_with env (apply_committed env)"

definition maybe_auto_finalize_joint_configuration :: "'sm env \<Rightarrow> 'sm node \<Rightarrow> 'sm node option" where
  "maybe_auto_finalize_joint_configuration env = auto_finalize_with env (apply_committed env)"

definition apply_configuration_command :: "'sm env \<Rightarrow> nat \<Rightarrow> bytes \<Rightarrow> 'sm node \<Rightarrow> (bool \<times> 'sm node) option" where
  "apply_configuration_command env = apply_configuration_with env (apply_committed env)"

section \<open>Elections\<close>

definition step_down :: "nat \<Rightarrow> nat \<Rightarrow> 'sm node \<Rightarrow> 'sm node" where
  "step_down trm millis n =
     restart_timeout millis
       (n\<lparr>pending_snap := None, current_term := trm,
          persistent := set_voted_for (set_current_term (persistent n) trm) None,
          state := Follower, voted_for := None, granted_votes := {},
          last_follower_contact_millis := bm_empty, known_leader_id := None,
          last_successful_leader_sync_millis := None, election_sequence_counter := 0\<rparr>)"

definition has_election_majority :: "'sm env \<Rightarrow> 'sm node \<Rightarrow> bool option" where
  "has_election_majority env n = do {
     c \<leftarrow> effective_configuration env n;
     Some (has_joint_majority c (granted_votes n))
   }"

text \<open>The loop of \<open>become_leader\<close> over the members.\<close>

definition reset_progress :: "nat \<Rightarrow> peer \<Rightarrow> 'sm node \<Rightarrow> 'sm node" where
  "reset_progress last_idx p n =
     (if p_id p = my_id n then n
      else n\<lparr>next_index := bm_insert (p_id p) (last_idx + 1) (next_index n),
             match_index := bm_insert (p_id p) 0 (match_index n),
             snapshot_offsets := bm_insert (p_id p) 0 (snapshot_offsets n)\<rparr>)"

definition become_leader :: "'sm env \<Rightarrow> nat \<Rightarrow> 'sm node \<Rightarrow> 'sm node option" where
  "become_leader env millis n0 =
     (let n = n0\<lparr>state := Leader, known_leader_id := Some (my_id n0),
                 last_successful_leader_sync_millis := None, current_millis := millis,
                 granted_votes := {}, last_follower_contact_millis := bm_empty\<rparr>
      in do {
        c \<leftarrow> effective_configuration env n;
        let n1 = fold (reset_progress (last_index (n_log n))) (all_members c) n;
        advance_commit_index env
          (n1\<lparr>n_log := log_append (n_log n1) [entry_noop (current_term n1) (my_id n1)]\<rparr>)
      })"

definition request_vote :: "nat \<Rightarrow> nat \<Rightarrow> peer \<Rightarrow> 'sm node \<Rightarrow> 'sm node" where
  "request_vote last_log_index last_log_term p n =
     (if p_id p = my_id n \<or> \<not> peer_is_voter p then n
      else send (TVoteRequest p (current_term n) (my_id n) last_log_index last_log_term) n)"

text \<open>The candidate's own state, before it asks for votes.\<close>

definition candidacy :: "nat \<Rightarrow> 'sm node \<Rightarrow> 'sm node option" where
  "candidacy millis n =
     (if current_term n = U64_MAX then None
      else Some (restart_timeout millis
        (n\<lparr>state := Candidate, pending_snap := None, current_term := current_term n + 1,
           voted_for := Some (my_id n),
           persistent := set_voted_for (set_current_term (persistent n) (current_term n + 1)) (Some (my_id n)),
           election_sequence_counter := sat_add (election_sequence_counter n) 1,
           known_leader_id := None, last_successful_leader_sync_millis := None,
           granted_votes := {my_id n}\<rparr>)))"

definition start_election :: "'sm env \<Rightarrow> nat \<Rightarrow> 'sm node \<Rightarrow> 'sm node option" where
  "start_election env millis n0 =
     (let n = send (TSetMillis millis) (n0\<lparr>current_millis := millis\<rparr>) in do {
        eligible \<leftarrow> (if joining n then Some False
                    else do { c \<leftarrow> effective_configuration env n; Some (is_voter c (my_id n)) });
        if \<not> eligible then Some (restart_timeout millis (n\<lparr>state := Follower\<rparr>))
        else do {
          n1 \<leftarrow> candidacy millis n;
          c \<leftarrow> effective_configuration env n1;
          let n2 = fold (request_vote (last_index (n_log n1)) (last_term (n_log n1))) (all_members c) n1;
          won \<leftarrow> has_election_majority env n2;
          if won then become_leader env millis n2 else Some n2
        }
      })"

definition log_ok :: "vote_request \<Rightarrow> mem_log \<Rightarrow> bool" where
  "log_ok req l \<longleftrightarrow>
     last_term l < vq_last_log_term req \<or>
     vq_last_log_term req = last_term l \<and> last_index l \<le> vq_last_log_index req"

definition vote_eligible :: "'sm env \<Rightarrow> vote_request \<Rightarrow> 'sm node \<Rightarrow> bool option" where
  "vote_eligible env req n =
     (if vq_term req < current_term n \<or> joining n then Some False
      else do {
        c \<leftarrow> effective_configuration env n;
        Some (is_voter c (my_id n) \<and> is_voter c (vq_candidate_id req))
      })"

definition grant_vote :: "vote_request \<Rightarrow> nat \<Rightarrow> 'sm node \<Rightarrow> 'sm node" where
  "grant_vote req millis n =
     restart_timeout millis
       (n\<lparr>voted_for := Some (vq_candidate_id req),
          persistent := set_voted_for (persistent n) (Some (vq_candidate_id req)),
          last_heartbeat_millis := millis\<rparr>)"

definition handle_vote_request ::
    "'sm env \<Rightarrow> vote_request \<Rightarrow> nat \<Rightarrow> 'sm node \<Rightarrow> (vote_response \<times> 'sm node) option" where
  "handle_vote_request env req millis n0 =
     (let n1 = n0\<lparr>current_millis := millis\<rparr>;
          n = (if current_term n1 < vq_term req then step_down (vq_term req) millis n1 else n1)
      in do {
        eligible \<leftarrow> vote_eligible env req n;
        let granted = (eligible \<and> (voted_for n = None \<or> voted_for n = Some (vq_candidate_id req)) \<and> log_ok req (n_log n));
        let n' = (if granted then grant_vote req millis n else n);
        Some (\<lparr>vs_peer_id = my_id n', vs_term = current_term n', vote_granted = granted\<rparr>, n')
      })"

definition handle_vote_response ::
    "'sm env \<Rightarrow> string \<Rightarrow> vote_response \<Rightarrow> nat \<Rightarrow> 'sm node \<Rightarrow> 'sm node option" where
  "handle_vote_response env peer_id resp millis n0 =
     (let n = n0\<lparr>current_millis := millis\<rparr> in
      if state n \<noteq> Candidate then Some n
      else if current_term n < vs_term resp then Some (step_down (vs_term resp) millis n)
      else if vs_term resp \<noteq> current_term n \<or> \<not> vote_granted resp then Some n
      else do {
        c \<leftarrow> effective_configuration env n;
        if \<not> is_voter c peer_id then Some n
        else do {
          let n1 = n\<lparr>granted_votes := insert peer_id (granted_votes n)\<rparr>;
          won \<leftarrow> has_election_majority env n1;
          if won then become_leader env millis n1 else Some n1
        }
      })"

section \<open>Replication, follower side\<close>

definition append_response :: "'sm node \<Rightarrow> bool \<Rightarrow> nat \<Rightarrow> append_entries_response" where
  "append_response n ok m =
     \<lparr>as_peer_id = my_id n, as_term = current_term n, as_success = ok, as_match_index = m\<rparr>"

text \<open>The source test shared by AppendEntries and InstallSnapshot.\<close>

definition leader_refused :: "'sm node \<Rightarrow> string \<Rightarrow> nat \<Rightarrow> bool" where
  "leader_refused n leader_id trm \<longleftrightarrow>
     leader_id = my_id n \<or>
     \<not> is_voter (cluster_config n) leader_id \<and> \<not> accepts_joining_leader n leader_id \<or>
     trm = current_term n \<and> state n = Follower \<and>
       (case known_leader_id n of Some leader \<Rightarrow> leader \<noteq> leader_id | None \<Rightarrow> False)"

text \<open>Adopting the sender as leader of its term.\<close>

definition follow :: "string \<Rightarrow> nat \<Rightarrow> nat \<Rightarrow> 'sm node \<Rightarrow> 'sm node" where
  "follow leader_id trm millis n =
     (let n1 = (if current_term n < trm then step_down trm millis n
                else if state n \<noteq> Follower then
                  n\<lparr>state := Follower, known_leader_id := None,
                    last_successful_leader_sync_millis := None, granted_votes := {}\<rparr>
                else n);
          n2 = restart_timeout millis (n1\<lparr>last_heartbeat_millis := millis\<rparr>)
      in n2\<lparr>known_leader_id := Some leader_id\<rparr>)"

text \<open>
  The entries and the previous position after dropping what the snapshot covers, or the
  answer when the request ends inside the snapshot or disagrees with its term.
\<close>

definition normalize_append ::
    "mem_log \<Rightarrow> append_entries_request \<Rightarrow> (bool \<times> nat) + (nat \<times> nat \<times> log_entry list)" where
  "normalize_append l req =
     (if aq_prev_log_index req < snapshot_index l then
        let overlap = snapshot_index l - aq_prev_log_index req in
        if length (aq_entries req) < overlap then Inl (True, snapshot_index l)
        else if e_term (aq_entries req ! (overlap - 1)) \<noteq> snapshot_term l then Inl (False, snapshot_index l)
        else Inr (snapshot_index l, snapshot_term l, drop overlap (aq_entries req))
      else Inr (aq_prev_log_index req, aq_prev_log_term req, aq_entries req))"

definition handle_append_entries ::
    "'sm env \<Rightarrow> append_entries_request \<Rightarrow> nat \<Rightarrow> 'sm node \<Rightarrow> (append_entries_response \<times> 'sm node) option" where
  "handle_append_entries env req millis n0 =
     (let n = n0\<lparr>current_millis := millis\<rparr> in
      if aq_term req < current_term n then Some (append_response n False 0, n)
      else if leader_refused n (aq_leader_id req) (aq_term req)
      then Some (append_response n False (last_index (n_log n)), n)
      else
        let n1 = follow (aq_leader_id req) (aq_term req) millis n in
        case normalize_append (n_log n1) req of
          Inl (ok, m) \<Rightarrow> Some (append_response n1 ok m, n1)
        | Inr (prev, prev_term, entries) \<Rightarrow>
            if last_index (n_log n1) < prev then Some (append_response n1 False (last_index (n_log n1)), n1)
            else if 0 < prev \<and> term_at (n_log n1) prev \<noteq> prev_term then Some (append_response n1 False prev, n1)
            else
              let n2 = n1\<lparr>n_log := merge_entries (n_log n1) (prev + 1) entries\<rparr>;
                  last_new_index = prev + length entries;
                  new_commit = (if aq_leader_commit req < last_new_index then aq_leader_commit req else last_new_index)
              in do {
                n3 \<leftarrow> (if commit_index n2 < aq_leader_commit req \<and> commit_index n2 < new_commit
                       then apply_committed env (n2\<lparr>commit_index := new_commit\<rparr>) else Some n2);
                let n4 = n3\<lparr>last_successful_leader_sync_millis := Some millis\<rparr>;
                Some (append_response n4 True last_new_index, n4)
              })"

section \<open>Snapshot installation, follower side\<close>

definition snapshot_response ::
    "'sm node \<Rightarrow> bool \<Rightarrow> nat \<Rightarrow> nat \<Rightarrow> bool \<Rightarrow> install_snapshot_response" where
  "snapshot_response n ok included offset finished =
     \<lparr>is_peer_id = my_id n, is_term = current_term n, is_success = ok,
      is_last_included_index = included, is_next_offset = offset, is_done = finished\<rparr>"

definition open_stream :: "install_snapshot_request \<Rightarrow> pending_snapshot option \<Rightarrow> pending_snapshot option" where
  "open_stream req pending =
     (if iq_offset req = 0 then
        Some \<lparr>sn_leader_id = iq_leader_id req, sn_leader_term = iq_term req,
              sn_last_included_index = iq_last_included_index req,
              sn_last_included_term = iq_last_included_term req, sn_offset = 0, sn_data = []\<rparr>
      else case pending of
        Some snap \<Rightarrow>
          if sn_leader_id snap \<noteq> iq_leader_id req \<or> sn_leader_term snap \<noteq> iq_term req then None else Some snap
      | None \<Rightarrow> None)"

datatype chunk = Refused nat | Oversized | Accepted pending_snapshot

definition receive_chunk :: "install_snapshot_request \<Rightarrow> pending_snapshot option \<Rightarrow> chunk" where
  "receive_chunk req pending =
     (case pending of
        None \<Rightarrow> Refused 0
      | Some snap \<Rightarrow>
          if iq_leader_id req = sn_leader_id snap \<and> iq_term req = sn_leader_term snap \<and>
             iq_last_included_index req = sn_last_included_index snap \<and>
             iq_last_included_term req = sn_last_included_term snap \<and> iq_offset req = sn_offset snap
          then if MAX_SNAPSHOT_BYTES < sat_add (length (sn_data snap)) (length (iq_data req)) then Oversized
               else Accepted (snap\<lparr>sn_data := sn_data snap @ iq_data req,
                                   sn_offset := sn_offset snap + length (iq_data req)\<rparr>)
          else Refused (sn_offset snap))"

definition envelope_configuration :: "snapshot_envelope \<Rightarrow> cluster_configuration option" where
  "envelope_configuration envelope = do {
     c \<leftarrow> stable (env_current_members envelope);
     if env_next_members envelope \<noteq> [] then transition_to c (env_next_members envelope) else Some c
   }"

definition envelope_epoch :: "snapshot_envelope \<Rightarrow> nat \<Rightarrow> nat" where
  "envelope_epoch envelope index = (if env_membership_epoch envelope = 0 then index else env_membership_epoch envelope)"

definition install_membership :: "nat \<Rightarrow> snapshot_envelope \<Rightarrow> 'sm node \<Rightarrow> 'sm node option" where
  "install_membership index envelope n = do {
     c \<leftarrow> envelope_configuration envelope;
     let gone = (\<not> contains c (my_id n));
     let n1 = n\<lparr>snapshot_config := c, cluster_config := c,
                membership_epoch := envelope_epoch envelope index,
                committed_configurations :=
                  bm_insert index c (bm_retain (\<lambda>i _. index < i) (committed_configurations n)),
                decommissioned := gone\<rparr>;
     let n2 = (if gone then n1
               else n1\<lparr>persistent := set_join_admission (persistent n1) None,
                       joining := False, joining_from := None\<rparr>);
     Some (n2\<lparr>pending_auto_finalize_members := map p_id (bm_values (next_members c)),
              pending_auto_finalize_fence_index := (if is_joint_consensus c then index else 0),
              finalize_configuration_pending := False\<rparr>)
   }"

text \<open>The final chunk: \<open>Some (False, n)\<close> when the application refuses the data.\<close>

definition install_stream :: "'sm env \<Rightarrow> nat \<Rightarrow> pending_snapshot \<Rightarrow> 'sm node \<Rightarrow> (bool \<times> 'sm node) option" where
  "install_stream env millis snap n =
     (let data = sn_data snap;
          index = sn_last_included_index snap;
          envelope = decode_snapshot_payload data;
          application_data = (case envelope of Some e \<Rightarrow> env_state_machine_snapshot e | None \<Rightarrow> data);
          restored = (case state_machine n of
                        None \<Rightarrow> Inr None
                      | Some machine \<Rightarrow>
                          (case sm_restore env machine application_data of
                             Inl e \<Rightarrow> Inl e | Inr machine' \<Rightarrow> Inr (Some machine')))
      in case restored of
           Inl _ \<Rightarrow> Some (False, n\<lparr>pending_snap := None\<rparr>)
         | Inr machine \<Rightarrow> do {
             let n1 = n\<lparr>state_machine := machine,
                        n_log := log_install_snapshot (n_log n) index (sn_last_included_term snap) data,
                        commit_index := index, last_applied := index\<rparr>;
             n2 \<leftarrow> (case envelope of
                      Some e \<Rightarrow> if env_current_members e = [] then Some n1 else install_membership index e n1
                    | None \<Rightarrow> Some n1);
             Some (True, n2\<lparr>pending_snap := None, last_successful_leader_sync_millis := Some millis\<rparr>)
           })"

definition receive_snapshot ::
    "'sm env \<Rightarrow> install_snapshot_request \<Rightarrow> nat \<Rightarrow> 'sm node \<Rightarrow> (install_snapshot_response \<times> 'sm node) option" where
  "receive_snapshot env req millis n =
     (let included = iq_last_included_index req in
      if included \<le> commit_index n then
        let n1 = n\<lparr>pending_snap := None\<rparr>
        in Some (snapshot_response n1 True included (sat_add (iq_offset req) (length (iq_data req))) True, n1)
      else
        let opened = open_stream req (pending_snap n);
            n1 = n\<lparr>pending_snap := opened\<rparr>
        in case receive_chunk req opened of
             Refused offset \<Rightarrow> Some (snapshot_response n1 False included offset False, n1)
           | Oversized \<Rightarrow>
               (let n2 = n1\<lparr>pending_snap := None\<rparr> in Some (snapshot_response n2 False included 0 False, n2))
           | Accepted snap \<Rightarrow>
               if iq_done req then do {
                 (installed, n2) \<leftarrow> install_stream env millis snap (n1\<lparr>pending_snap := Some snap\<rparr>);
                 Some (snapshot_response n2 installed included (if installed then sn_offset snap else 0) installed, n2)
               }
               else let n2 = n1\<lparr>pending_snap := Some snap\<rparr>
                    in Some (snapshot_response n2 True included (sn_offset snap) False, n2))"

definition handle_install_snapshot ::
    "'sm env \<Rightarrow> install_snapshot_request \<Rightarrow> nat \<Rightarrow> 'sm node \<Rightarrow> (install_snapshot_response \<times> 'sm node) option" where
  "handle_install_snapshot env req millis n0 =
     (let n = n0\<lparr>current_millis := millis\<rparr>;
          included = iq_last_included_index req in
      if iq_term req < current_term n then Some (snapshot_response n False included 0 False, n)
      else if leader_refused n (iq_leader_id req) (iq_term req)
      then Some (snapshot_response n False (snapshot_index (n_log n)) 0 False, n)
      else receive_snapshot env req millis (follow (iq_leader_id req) (iq_term req) millis n))"

section \<open>Replication, leader side\<close>

definition accepts_replication_response :: "'sm env \<Rightarrow> 'sm node \<Rightarrow> string \<Rightarrow> string \<Rightarrow> bool option" where
  "accepts_replication_response env n peer_id reported_peer_id =
     (if peer_id \<noteq> reported_peer_id \<or> peer_id = my_id n then Some False
      else do {
        c \<leftarrow> effective_configuration env n;
        Some (contains c peer_id \<or> bm_contains (pending_joiners n) peer_id)
      })"

definition record_replication_progress :: "string \<Rightarrow> nat \<Rightarrow> 'sm node \<Rightarrow> 'sm node" where
  "record_replication_progress peer_id index n =
     (let confirmed = max (get_or_zero (match_index n) peer_id) index;
          nxt = (case bm_get (next_index n) peer_id of Some v \<Rightarrow> v | None \<Rightarrow> 1)
      in n\<lparr>match_index := bm_insert peer_id confirmed (match_index n),
           next_index := bm_insert peer_id (max nxt (sat_add confirmed 1)) (next_index n)\<rparr>)"

definition back_off :: "string \<Rightarrow> 'sm node \<Rightarrow> 'sm node" where
  "back_off peer_id n =
     (let confirmed_next = sat_add (get_or_zero (match_index n) peer_id) 1 in
      case bm_get (next_index n) peer_id of
        None \<Rightarrow> n
      | Some ni \<Rightarrow> n\<lparr>next_index := bm_insert peer_id (max (ni - 1) confirmed_next) (next_index n)\<rparr>)"

definition handle_append_entries_response ::
    "'sm env \<Rightarrow> string \<Rightarrow> append_entries_response \<Rightarrow> nat \<Rightarrow> 'sm node \<Rightarrow> 'sm node option" where
  "handle_append_entries_response env peer_id resp millis n0 =
     (let n = n0\<lparr>current_millis := millis\<rparr> in
      if state n \<noteq> Leader then Some n
      else do {
        accepted \<leftarrow> accepts_replication_response env n peer_id (as_peer_id resp);
        if \<not> accepted then Some n
        else if current_term n < as_term resp then Some (step_down (as_term resp) millis n)
        else if as_term resp \<noteq> current_term n then Some n
        else if as_success resp then
          if last_index (n_log n) < as_match_index resp then Some n
          else do {
            let n1 = record_replication_progress peer_id (as_match_index resp) n;
            let n2 = n1\<lparr>last_follower_contact_millis := bm_insert peer_id millis (last_follower_contact_millis n1)\<rparr>;
            n3 \<leftarrow> advance_commit_index env n2;
            maybe_auto_finalize_joint_configuration env n3
          }
        else Some (back_off peer_id n)
      })"

definition handle_install_snapshot_response ::
    "'sm env \<Rightarrow> string \<Rightarrow> install_snapshot_response \<Rightarrow> nat \<Rightarrow> bool \<Rightarrow> nat \<Rightarrow> 'sm node \<Rightarrow> 'sm node option" where
  "handle_install_snapshot_response env peer_id response sent_next_offset sent_done millis n0 =
     (let n = n0\<lparr>current_millis := millis\<rparr> in do {
        accepted \<leftarrow> accepts_replication_response env n peer_id (is_peer_id response);
        if \<not> accepted then Some n
        else if current_term n < is_term response then Some (step_down (is_term response) millis n)
        else if state n = Leader \<and> is_term response = current_term n then
          if is_success response then
            if last_index (n_log n) < is_last_included_index response then Some n
            else
              let n1 = n\<lparr>snapshot_offsets := bm_insert peer_id sent_next_offset (snapshot_offsets n)\<rparr> in
              if sent_done \<and> is_done response then
                let n2 = record_replication_progress peer_id (is_last_included_index response) n1
                in advance_commit_index env (n2\<lparr>snapshot_offsets := bm_insert peer_id 0 (snapshot_offsets n2)\<rparr>)
              else Some n1
          else Some (n\<lparr>snapshot_offsets := bm_insert peer_id (is_next_offset response) (snapshot_offsets n)\<rparr>)
        else Some n
      })"

section \<open>Membership changes\<close>

definition is_membership_change :: "'sm env \<Rightarrow> 'sm node \<Rightarrow> nat \<Rightarrow> bool" where
  "is_membership_change env n index =
     (case entry_at (n_log n) index of
        None \<Rightarrow> False
      | Some e \<Rightarrow>
          (case config_decode (env_pb env) (e_data e) of
             Some (Joint _) \<Rightarrow> True | Some Finalize \<Rightarrow> True | _ \<Rightarrow> False))"

definition has_uncommitted_configuration_change :: "'sm env \<Rightarrow> 'sm node \<Rightarrow> bool" where
  "has_uncommitted_configuration_change env n \<longleftrightarrow>
     list_ex (is_membership_change env n) [sat_add (commit_index n) 1 ..< Suc (last_index (n_log n))]"

definition submit_joint_configuration ::
    "'sm env \<Rightarrow> peer list \<Rightarrow> nat \<Rightarrow> 'sm node \<Rightarrow> ((int + nat) \<times> 'sm node) option" where
  "submit_joint_configuration env members millis n =
     (if is_joint_consensus (cluster_config n) \<or> finalize_configuration_pending n \<or>
        has_uncommitted_configuration_change env n
      then Some (Inl ERR_CONFIG_IN_PROGRESS, n)
      else case config_encode (env_pb env) (Joint members) of
        None \<Rightarrow> Some (Inl ERR_TOO_LARGE, n)
      | Some command \<Rightarrow> do {
          (r, n1) \<leftarrow> submit_command env command millis n;
          case r of
            Inl e \<Rightarrow> Some (Inl e, n1)
          | Inr index \<Rightarrow> do {
              n2 \<leftarrow> maybe_auto_finalize_joint_configuration env n1;
              Some (Inr index, n2)
            }
        })"

definition is_join_of :: "'sm env \<Rightarrow> 'sm node \<Rightarrow> string \<Rightarrow> nat \<Rightarrow> bool" where
  "is_join_of env n peer_id index =
     (case entry_at (n_log n) index of
        None \<Rightarrow> False
      | Some e \<Rightarrow>
          (case config_decode (env_pb env) (e_data e) of Some (Join existing) \<Rightarrow> p_id existing = peer_id | _ \<Rightarrow> False))"

definition submit_join :: "'sm env \<Rightarrow> peer \<Rightarrow> nat \<Rightarrow> 'sm node \<Rightarrow> ((int + nat) \<times> 'sm node) option" where
  "submit_join env p millis n =
     (if contains (cluster_config n) (p_id p) then Some (Inr (commit_index n), n)
      else case bm_get (pending_joiners n) (p_id p) of
        Some (_, fence) \<Rightarrow> Some (Inr fence, n)
      | None \<Rightarrow>
          (case find (is_join_of env n (p_id p)) [snapshot_index (n_log n) + 1 ..< Suc (last_index (n_log n))] of
             Some index \<Rightarrow> Some (Inr index, n)
           | None \<Rightarrow>
               (case config_encode (env_pb env) (Join p) of
                  None \<Rightarrow> Some (Inl ERR_TOO_LARGE, n)
                | Some command \<Rightarrow> submit_command env command millis n)))"

definition pending_joiner_peers :: "'sm node \<Rightarrow> peer list" where
  "pending_joiner_peers n = map fst (bm_values (pending_joiners n))"

text \<open>\<open>if !peers.iter().any(|member| member.id == peer.id) \<lbrace> peers.push(peer) \<rbrace>\<close>\<close>

definition push_peer :: "peer \<Rightarrow> peer list \<Rightarrow> peer list" where
  "push_peer p ps = (if list_ex (\<lambda>member. p_id member = p_id p) ps then ps else ps @ [p])"

definition replication_peers :: "'sm env \<Rightarrow> 'sm node \<Rightarrow> peer list option" where
  "replication_peers env n = do {
     c \<leftarrow> effective_configuration env n;
     Some (fold push_peer (pending_joiner_peers n) (all_members c))
   }"

definition ready_joiners :: "'sm node \<Rightarrow> peer list" where
  "ready_joiners n =
     map (\<lambda>(i, p, fence). p)
       (filter (\<lambda>(i, p, fence). fence \<le> get_or_zero (match_index n) i) (bm_entries (pending_joiners n)))"

definition maybe_promote_pending_joiners :: "'sm env \<Rightarrow> nat \<Rightarrow> 'sm node \<Rightarrow> 'sm node option" where
  "maybe_promote_pending_joiners env millis n =
     (if state n \<noteq> Leader \<or> bm_is_empty (pending_joiners n) \<or> is_joint_consensus (cluster_config n) \<or>
        finalize_configuration_pending n \<or> ready_joiners n = []
      then Some n
      else do {
        (_, n') \<leftarrow> submit_joint_configuration env
          (fold push_peer (ready_joiners n) (all_members (cluster_config n))) millis n;
        Some n'
      })"

section \<open>Heartbeats and completions\<close>

definition replicate_to :: "peer \<Rightarrow> 'sm node \<Rightarrow> 'sm node" where
  "replicate_to p n =
     (if p_id p = my_id n then n
      else
        let ni = (case bm_get (next_index n) (p_id p) of Some v \<Rightarrow> v | None \<Rightarrow> 1);
            prev_log_index = ni - 1;
            prev_log_term = (if 0 < prev_log_index then term_at (n_log n) prev_log_index else 0);
            base = snapshot_index (n_log n)
        in if 0 < base \<and> ni \<le> base then
             let snapshot = snapshot_data (n_log n);
                 offset = get_or_zero (snapshot_offsets n) (p_id p);
                 chunk_end = min (sat_add offset (snapshot_chunk_bytes n)) (length snapshot)
             in if offset \<le> chunk_end then
                  send (TInstallSnapshot p
                    \<lparr>iq_term = current_term n, iq_leader_id = my_id n, iq_last_included_index = base,
                     iq_last_included_term = snapshot_term (n_log n), iq_offset = offset,
                     iq_data = take (chunk_end - offset) (drop offset snapshot),
                     iq_done = (chunk_end = length snapshot)\<rparr>) n
                else n
           else
             send (TAppendEntries p
               \<lparr>aq_term = current_term n, aq_leader_id = my_id n, aq_prev_log_index = prev_log_index,
                aq_prev_log_term = prev_log_term, aq_leader_commit = commit_index n,
                aq_entries = (if ni \<le> last_index (n_log n) then entries_from (n_log n) ni else [])\<rparr>) n)"

definition broadcast_heartbeat :: "'sm env \<Rightarrow> nat \<Rightarrow> 'sm node \<Rightarrow> 'sm node option" where
  "broadcast_heartbeat env millis n0 =
     (let n = send (TSetMillis millis) (n0\<lparr>current_millis := millis\<rparr>) in
      if state n \<noteq> Leader then Some n
      else do {
        peers \<leftarrow> replication_peers env n;
        maybe_promote_pending_joiners env millis (send THeartbeatComplete (fold replicate_to peers n))
      })"

definition handle_completion :: "'sm env \<Rightarrow> nat \<Rightarrow> rpc_completion \<Rightarrow> 'sm node \<Rightarrow> 'sm node option" where
  "handle_completion env millis completion n =
     (case completion of
        VoteCompletion peer_id response \<Rightarrow> handle_vote_response env peer_id response millis n
      | AppendCompletion peer_id response \<Rightarrow> handle_append_entries_response env peer_id response millis n
      | SnapshotCompletion peer_id response sent_next_offset sent_done \<Rightarrow>
          handle_install_snapshot_response env peer_id response sent_next_offset sent_done millis n)"

fun handle_completions :: "'sm env \<Rightarrow> nat \<Rightarrow> rpc_completion list \<Rightarrow> 'sm node \<Rightarrow> 'sm node option" where
  "handle_completions env millis [] n = Some n"
| "handle_completions env millis (c # cs) n =
     Option.bind (handle_completion env millis c n) (handle_completions env millis cs)"

text \<open>The argument \<open>completions\<close> is what \<open>transport.poll_completions()\<close> returns.\<close>

definition poll_transport :: "'sm env \<Rightarrow> rpc_completion list \<Rightarrow> nat \<Rightarrow> 'sm node \<Rightarrow> (nat \<times> 'sm node) option" where
  "poll_transport env completions millis n = do {
     n' \<leftarrow> handle_completions env millis completions (send (TSetMillis millis) n);
     Some (length completions, n')
   }"

section \<open>Clients\<close>

definition is_committed :: "'sm node \<Rightarrow> nat \<Rightarrow> bool" where
  "is_committed n index \<longleftrightarrow> index \<le> commit_index n"

definition command_result :: "'sm node \<Rightarrow> nat \<Rightarrow> bytes option" where
  "command_result n index = bm_get (applied_command_results n) index"

definition has_recent_quorum_contact :: "'sm node \<Rightarrow> bool" where
  "has_recent_quorum_contact n \<longleftrightarrow>
     state n = Leader \<and> commit_index n \<noteq> 0 \<and> term_at (n_log n) (commit_index n) = current_term n \<and>
     last_applied n = commit_index n \<and>
     has_joint_majority (cluster_config n)
       (insert (my_id n) (set (map fst (filter (\<lambda>(i, last_contact). current_millis n - last_contact < 750)
          (bm_entries (last_follower_contact_millis n))))))"

definition can_serve_bounded_read :: "'sm node \<Rightarrow> nat \<Rightarrow> bool" where
  "can_serve_bounded_read n max_follower_age_millis =
     (if state n = Leader then has_recent_quorum_contact n
      else state n = Follower \<and> \<not> joining n \<and> \<not> decommissioned n \<and> known_leader_id n \<noteq> None \<and>
        commit_index n = last_applied n \<and>
        (case last_successful_leader_sync_millis n of
           None \<Rightarrow> False
         | Some last_sync \<Rightarrow> current_millis n - last_sync \<le> max_follower_age_millis))"

definition handle_client_command ::
    "'sm env \<Rightarrow> bytes \<Rightarrow> nat \<Rightarrow> 'sm node \<Rightarrow> (((int \<times> string option) + bytes) \<times> 'sm node) option" where
  "handle_client_command env command millis n = do {
     (r, n') \<leftarrow> submit_command env command millis n;
     Some (case r of
             Inr index \<Rightarrow>
               if is_committed n' index
               then Inr (case command_result n' index of Some b \<Rightarrow> b | None \<Rightarrow> [])
               else Inl (ERR_NOT_COMMITTED, known_leader_id n')
           | Inl code \<Rightarrow> Inl (code, known_leader_id n'), n')
   }"

text \<open>
  The argument \<open>prepared\<close> is the result of the allocation \<open>prepare_domain\<close>: a fresh
  identity or an error.
\<close>

definition begin_read_with ::
    "'sm env \<Rightarrow> bytes \<Rightarrow> nat \<Rightarrow> (int + nat) \<Rightarrow> 'sm node \<Rightarrow> ((int + pending_read) \<times> 'sm node) option" where
  "begin_read_with env query millis prepared n =
     (if state n \<noteq> Leader \<or> joining n \<or> decommissioned n \<or> \<not> is_voter (cluster_config n) (my_id n)
      then Some (Inl ERR_NOT_LEADER, n)
      else if MAX_COMMAND_BYTES < length query \<or> last_index (n_log n) = U64_MAX then Some (Inl ERR_TOO_LARGE, n)
      else case (case read_domain n of Some d \<Rightarrow> Inr d | None \<Rightarrow> prepared) of
        Inl e \<Rightarrow> Some (Inl e, n)
      | Inr domain \<Rightarrow>
          let n1 = n\<lparr>read_domain := Some domain\<rparr>;
              read = \<lparr>rd_domain = domain, rd_term = current_term n1, rd_index = last_index (n_log n1) + 1,
                      rd_membership_epoch = membership_epoch n1, rd_query = query\<rparr>;
              n2 = n1\<lparr>current_millis := millis,
                      n_log := log_append (n_log n1) [entry_noop (current_term n1) (my_id n1)]\<rparr>
          in do {
            n3 \<leftarrow> advance_commit_index env n2;
            Some (Inr read, n3)
          })"

definition begin_read ::
    "'sm env \<Rightarrow> bytes \<Rightarrow> nat \<Rightarrow> nat option \<Rightarrow> 'sm node \<Rightarrow> ((int + pending_read) \<times> 'sm node) option" where
  "begin_read env query millis allocated n =
     begin_read_with env query millis
       (case allocated of Some d \<Rightarrow> Inr d | None \<Rightarrow> Inl ERR_RESOURCE_LIMIT) n"

definition read_ready :: "'sm node \<Rightarrow> pending_read \<Rightarrow> int + bool" where
  "read_ready n read =
     (if state n \<noteq> Leader \<or> current_term n \<noteq> rd_term read \<or> joining n \<or> decommissioned n
      then Inl ERR_NOT_LEADER
      else if membership_epoch n \<noteq> rd_membership_epoch read \<or> read_domain n \<noteq> Some (rd_domain read)
      then Inl ERR_READ_BARRIER
      else Inr (rd_index read \<le> commit_index n \<and> last_applied n = commit_index n \<and>
                term_at (n_log n) (commit_index n) = rd_term read))"

definition handle_client_query :: "'sm env \<Rightarrow> 'sm node \<Rightarrow> pending_read \<Rightarrow> (int \<times> string option) + bytes" where
  "handle_client_query env n read =
     (case read_ready n read of
        Inl code \<Rightarrow> Inl (code, known_leader_id n)
      | Inr False \<Rightarrow> Inl (ERR_READ_BARRIER, known_leader_id n)
      | Inr True \<Rightarrow>
          (case (state_machine n, sm_query env) of
             (Some sm, Some query) \<Rightarrow> Inr (query sm (rd_query read))
           | _ \<Rightarrow> Inr []))"

definition apply_configuration_change :: "bytes \<Rightarrow> nat \<Rightarrow> 'sm node \<Rightarrow> bool \<times> 'sm node" where
  "apply_configuration_change command millis n = (False, n)"

section \<open>Construction and admission\<close>

record 'sm node_config =
  nc_me :: peer
  nc_timeout_millis :: nat
  nc_log_store :: mem_log
  nc_persistent_state :: persistent_state
  nc_state_machine :: "'sm option"
  nc_cluster_configuration :: cluster_configuration
  nc_transport :: "transport_call list"
  nc_current_millis :: nat
  nc_snapshot_min_entries :: nat
  nc_snapshot_chunk_bytes :: nat

text \<open>What construction reads from the stored snapshot.\<close>

record restored =
  rs_configuration :: cluster_configuration
  rs_epoch :: nat
  rs_membership :: bool
  rs_application :: bytes

definition read_snapshot :: "mem_log \<Rightarrow> cluster_configuration \<Rightarrow> restored option" where
  "read_snapshot l c =
     (case decode_snapshot_payload (snapshot_data l) of
        None \<Rightarrow> Some \<lparr>rs_configuration = c, rs_epoch = 0, rs_membership = False, rs_application = snapshot_data l\<rparr>
      | Some envelope \<Rightarrow>
          if env_current_members envelope = [] then
            Some \<lparr>rs_configuration = c, rs_epoch = 0, rs_membership = False,
                  rs_application = env_state_machine_snapshot envelope\<rparr>
          else do {
            d \<leftarrow> envelope_configuration envelope;
            Some \<lparr>rs_configuration = d, rs_epoch = envelope_epoch envelope (snapshot_index l),
                  rs_membership = True, rs_application = env_state_machine_snapshot envelope\<rparr>
          })"

definition seed_of :: "string \<Rightarrow> u64" where
  "seed_of i = fold (\<lambda>b a. a * 31 + of_char b) i 0"

definition restored_node :: "'sm node_config \<Rightarrow> restored \<Rightarrow> 'sm option \<Rightarrow> 'sm node" where
  "restored_node config r machine =
     (let l = nc_log_store config;
          ps = nc_persistent_state config;
          c = rs_configuration r;
          own = p_id (nc_me config);
          rnd = next_rand (seed_of own);
          deadline = sat_add (sat_add (nc_current_millis config) (nc_timeout_millis config))
            (election_jitter_millis (nc_timeout_millis config) (unat (drop_bit 33 rnd)));
          completed = (\<lambda>admission. rs_membership r \<and> ja_snapshot_index admission < snapshot_index l \<and> contains c own);
          (from_anchor, ps') =
            (case ps_join_admission ps of
               None \<Rightarrow> (None, ps)
             | Some admission \<Rightarrow>
                 if completed admission then (None, set_join_admission ps None)
                 else (Some (ja_anchor_id admission), ps))
      in \<lparr>me = nc_me config, state = Follower, current_term = ps_current_term ps, voted_for = ps_voted_for ps,
          timeout_millis = nc_timeout_millis config, last_heartbeat_millis = nc_current_millis config,
          last_successful_leader_sync_millis = None,
          timeout_at_millis = (if from_anchor \<noteq> None then U64_MAX else deadline),
          election_sequence_counter = 0, commit_index = snapshot_index l, last_applied = snapshot_index l,
          next_index = bm_empty, match_index = bm_empty, last_follower_contact_millis = bm_empty,
          applied_command_results = bm_empty, snapshot_offsets = bm_empty,
          cluster_config = c, snapshot_config = c, committed_configurations = bm_empty,
          membership_epoch = rs_epoch r, decommissioned = \<not> contains c own,
          joining = (from_anchor \<noteq> None), joining_from = from_anchor, pending_joiners = bm_empty,
          pending_auto_finalize_members =
            (if is_joint_consensus c then map p_id (bm_values (next_members c)) else []),
          pending_auto_finalize_fence_index = (if is_joint_consensus c then snapshot_index l else 0),
          finalize_configuration_pending = False,
          snapshot_min_entries = nc_snapshot_min_entries config,
          snapshot_chunk_bytes = nc_snapshot_chunk_bytes config,
          known_leader_id = from_anchor, pending_snap = None, n_log = l, persistent = ps',
          state_machine = machine, transport = nc_transport config,
          current_millis = nc_current_millis config, rand_state = rnd, granted_votes = {}, read_domain = None\<rparr>)"

definition restore_machine :: "'sm env \<Rightarrow> 'sm node_config \<Rightarrow> restored \<Rightarrow> snapshot_error + 'sm option" where
  "restore_machine env config r =
     (case nc_state_machine config of
        None \<Rightarrow> Inr None
      | Some machine \<Rightarrow>
          if 0 < snapshot_index (nc_log_store config) then
            (case sm_restore env machine (rs_application r) of Inl e \<Rightarrow> Inl e | Inr m \<Rightarrow> Inr (Some m))
          else Inr (Some machine))"

definition node_new :: "'sm env \<Rightarrow> 'sm node_config \<Rightarrow> (snapshot_error + 'sm node) option" where
  "node_new env config =
     (let l = nc_log_store config;
          c = nc_cluster_configuration config
      in do {
        r \<leftarrow> (if 0 < snapshot_index l then read_snapshot l c
              else Some \<lparr>rs_configuration = c, rs_epoch = 0, rs_membership = False, rs_application = []\<rparr>);
        case restore_machine env config r of
          Inl e \<Rightarrow> Some (Inl e)
        | Inr machine \<Rightarrow> do {
            let n = restored_node config r machine;
            d \<leftarrow> effective_configuration env n;
            Some (Inr (n\<lparr>decommissioned := \<not> contains d (my_id n)\<rparr>))
          }
      })"

definition begin_joining :: "'sm env \<Rightarrow> string \<Rightarrow> nat \<Rightarrow> 'sm node \<Rightarrow> 'sm node" where
  "begin_joining env anchor_id millis n =
     (let admission = \<lparr>ja_anchor_id = anchor_id, ja_snapshot_index = snapshot_index (n_log n)\<rparr>;
          n1 = send TReset (n\<lparr>persistent := set_join_admission (persistent n) (Some admission)\<rparr>)
      in n1\<lparr>read_domain := None, n_log := log_reset (n_log n1),
            state_machine := map_option (sm_reset env) (state_machine n1),
            commit_index := 0, last_applied := 0, membership_epoch := 0,
            next_index := bm_empty, match_index := bm_empty, last_follower_contact_millis := bm_empty,
            snapshot_offsets := bm_empty, committed_configurations := bm_empty,
            applied_command_results := bm_empty, pending_joiners := bm_empty,
            pending_auto_finalize_members := [], pending_auto_finalize_fence_index := 0,
            finalize_configuration_pending := False, pending_snap := None,
            voted_for := None, persistent := set_voted_for (persistent n1) None,
            current_millis := millis, last_heartbeat_millis := millis,
            last_successful_leader_sync_millis := None, election_sequence_counter := 0,
            state := Follower, joining := True, joining_from := Some anchor_id,
            known_leader_id := Some anchor_id, granted_votes := {}, timeout_at_millis := U64_MAX\<rparr>)"

end
