(* ===== verification/Raft_Steps.thy ===== *)
theory Raft_Steps
  imports Raft_Node
begin

text \<open>
  The commit and application machinery of the node as a step relation. Everything
  \<open>advance_commit_index\<close>, \<open>apply_committed\<close> and their callers do is a sequence of five kinds
  of small steps, whatever the nesting of the calls; the invariants of the node are proved
  once per step.
\<close>

section \<open>Small steps\<close>

text \<open>Consuming the next committed entry, without the automatic FINALIZE it may trigger.\<close>

definition consume_entry :: "'sm env \<Rightarrow> 'sm node \<Rightarrow> 'sm node option" where
  "consume_entry env n0 =
     (let n = n0\<lparr>last_applied := last_applied n0 + 1\<rparr> in
      case entry_at (n_log n) (last_applied n) of
        None \<Rightarrow> Some n
      | Some entry \<Rightarrow>
          if is_noop entry then Some n
          else case config_decode (env_pb env) (e_data entry) of
            None \<Rightarrow> Some (apply_command env entry n)
          | Some (Join p) \<Rightarrow>
              Some (n\<lparr>pending_joiners := bm_insert (p_id p) (p, last_applied n) (pending_joiners n)\<rparr>)
          | Some command \<Rightarrow> adopt_configuration env (last_applied n) command n)"

inductive local_step :: "'sm env \<Rightarrow> 'sm node \<Rightarrow> 'sm node \<Rightarrow> bool" for env where
  consume: "last_applied n < commit_index n \<Longrightarrow> consume_entry env n = Some n' \<Longrightarrow> local_step env n n'"
| append: "state n = Leader \<Longrightarrow> e_term e = current_term n \<Longrightarrow>
    local_step env n (n\<lparr>current_millis := t, n_log := log_append (n_log n) [e]\<rparr>)"
| commit: "state n = Leader \<Longrightarrow>
    commit_scan env n [commit_index n + 1 ..< Suc (last_index (n_log n))] (commit_index n) = Some c \<Longrightarrow>
    commit_index n < c \<Longrightarrow> local_step env n (n\<lparr>commit_index := c\<rparr>)"
| finalize: "local_step env n (n\<lparr>finalize_configuration_pending := True\<rparr>)"
| tick: "local_step env n (n\<lparr>current_millis := t\<rparr>)"
| compact: "commit_index n \<le> last_applied n \<Longrightarrow> local_step env n (maybe_compact_local_snapshot env n)"

definition local_steps :: "'sm env \<Rightarrow> 'sm node \<Rightarrow> 'sm node \<Rightarrow> bool" where
  "local_steps env = (local_step env)\<^sup>*\<^sup>*"

lemma steps_refl [simp, intro]: "local_steps env n n"
  by (simp add: local_steps_def)

lemma steps_one: "local_step env n n' \<Longrightarrow> local_steps env n n'"
  by (simp add: local_steps_def)

lemma steps_trans: "local_steps env a b \<Longrightarrow> local_steps env b c \<Longrightarrow> local_steps env a c"
  by (simp add: local_steps_def)

lemma local_steps_induct [consumes 1, case_names refl step]:
  assumes "local_steps env n n'" and "\<And>n. P n n"
    and "\<And>n m n'. local_steps env n m \<Longrightarrow> local_step env m n' \<Longrightarrow> P n m \<Longrightarrow> P n n'"
  shows "P n n'"
  using assms(1) unfolding local_steps_def
  by (induction rule: rtranclp_induct) (auto simp: local_steps_def intro: assms(2,3))

lemma steps_invariant:
  assumes "local_steps env n n'" "P n" "\<And>n n'. local_step env n n' \<Longrightarrow> P n \<Longrightarrow> P n'"
  shows "P n'"
  using assms(1,2) by (induction rule: local_steps_induct) (auto intro: assms(3))

section \<open>The calls decompose into small steps\<close>

lemma advance_steps:
  assumes "advance_commit_with env ap n = Some n'" "state n = Leader"
    and ap: "\<And>n n'. ap n = Some n' \<Longrightarrow> local_steps env n n'"
  shows "local_steps env n n'"
proof -
  from assms(1) obtain c
    where c: "commit_scan env n [commit_index n + 1 ..< Suc (last_index (n_log n))] (commit_index n) = Some c"
      and n': "(if commit_index n < c then ap (n\<lparr>commit_index := c\<rparr>) else Some n) = Some n'"
    by (auto simp: advance_commit_with_def bind_eq_Some_conv)
  show ?thesis
  proof (cases "commit_index n < c")
    case True
    with n' have "ap (n\<lparr>commit_index := c\<rparr>) = Some n'" by simp
    from ap [OF this] commit [OF assms(2) c True] show ?thesis
      by (blast intro: steps_trans steps_one)
  next
    case False
    with n' show ?thesis by simp
  qed
qed

lemma submit_steps:
  assumes "submit_command_with env ap command t n = Some (r, n')"
    and ap: "\<And>n n'. ap n = Some n' \<Longrightarrow> local_steps env n n'"
  shows "local_steps env n n'"
proof (cases "state n = Leader \<and> length command \<le> MAX_COMMAND_BYTES")
  case True
  let ?m = "n\<lparr>current_millis := t, n_log := log_append (n_log n) [entry_new (current_term n) (my_id n) command]\<rparr>"
  from True assms(1) have "advance_commit_with env ap ?m = Some n'"
    by (auto simp: submit_command_with_def Let_def bind_eq_Some_conv)
  then have "local_steps env ?m n'" by (rule advance_steps) (auto simp: True intro: ap)
  moreover have "local_step env n ?m" by (rule append) (auto simp: True entry_new_def)
  ultimately show ?thesis by (blast intro: steps_trans steps_one)
next
  case False
  with assms(1) have "n' = n\<lparr>current_millis := t\<rparr>"
    by (auto simp: submit_command_with_def Let_def split: if_splits)
  then show ?thesis by (auto intro: steps_one tick)
qed

lemma submit_finalize_steps:
  assumes "submit_finalize_with env ap t n = Some (r, n')"
    and ap: "\<And>n n'. ap n = Some n' \<Longrightarrow> local_steps env n n'"
  shows "local_steps env n n'"
  using assms by (auto simp: submit_finalize_with_def split: option.splits intro: submit_steps)

lemma auto_finalize_steps:
  assumes "auto_finalize_with env ap n = Some n'"
    and ap: "\<And>n n'. ap n = Some n' \<Longrightarrow> local_steps env n n'"
  shows "local_steps env n n'"
proof (cases "auto_finalize_due n")
  case True
  with assms(1) obtain r m where m: "submit_finalize_with env ap (current_millis n) n = Some (r, m)"
    and n': "n' = (case r of Inr _ \<Rightarrow> m\<lparr>finalize_configuration_pending := True\<rparr> | Inl _ \<Rightarrow> m)"
    by (auto simp: auto_finalize_with_def bind_eq_Some_conv)
  from submit_finalize_steps [OF m ap] have "local_steps env n m" .
  then show ?thesis unfolding n' by (auto split: sum.splits intro: steps_trans steps_one finalize)
next
  case False
  with assms(1) show ?thesis by (simp add: auto_finalize_with_def)
qed

text \<open>One turn of the loop consumes the entry and, after a joint entry, may finalize.\<close>

definition joint_next :: "'sm env \<Rightarrow> 'sm node \<Rightarrow> bool" where
  "joint_next env n =
     (case entry_at (n_log n) (Suc (last_applied n)) of
        None \<Rightarrow> False
      | Some e \<Rightarrow> \<not> is_noop e \<and>
          (case config_decode (env_pb env) (e_data e) of Some (Joint _) \<Rightarrow> True | _ \<Rightarrow> False))"

lemma apply_entry_eq:
  "apply_entry_with env ap (n\<lparr>last_applied := last_applied n + 1\<rparr>) =
     Option.bind (consume_entry env n) (if joint_next env n then auto_finalize_with env ap else Some)"
proof (cases "entry_at (n_log n) (Suc (last_applied n))")
  case None
  then show ?thesis by (simp add: apply_entry_with_def consume_entry_def joint_next_def)
next
  case (Some e)
  note entry = this
  show ?thesis
  proof (cases "is_noop e")
    case True
    with entry show ?thesis by (simp add: apply_entry_with_def consume_entry_def joint_next_def)
  next
    case False
    show ?thesis
    proof (cases "config_decode (env_pb env) (e_data e)")
      case None
      with entry False show ?thesis
        by (simp add: apply_entry_with_def apply_configuration_with_def consume_entry_def joint_next_def)
    next
      case (Some command)
      with entry False show ?thesis
        by (cases command)
          (simp_all add: apply_entry_with_def apply_configuration_with_def consume_entry_def joint_next_def
            cong: Option.bind_cong)
    qed
  qed
qed

lemma apply_entry_consume:
  assumes "apply_entry_with env ap (n\<lparr>last_applied := last_applied n + 1\<rparr>) = Some n'"
  obtains m where "consume_entry env n = Some m" "n' = m \<or> auto_finalize_with env ap m = Some n'"
  using assms that unfolding apply_entry_eq bind_eq_Some_conv by (auto split: if_splits)

lemma apply_committed_fuel_steps: "apply_committed_fuel env fuel n = Some n' \<Longrightarrow> local_steps env n n'"
proof (induction fuel arbitrary: n n')
  case (Suc fuel)
  show ?case
  proof (cases "last_applied n < commit_index n")
    case True
    with Suc.prems obtain m
      where m: "apply_entry_with env (apply_committed_fuel env fuel) (n\<lparr>last_applied := last_applied n + 1\<rparr>) = Some m"
        and n': "apply_committed_fuel env fuel m = Some n'"
      by (auto simp: bind_eq_Some_conv)
    from m obtain k where k: "consume_entry env n = Some k"
      and km: "m = k \<or> auto_finalize_with env (apply_committed_fuel env fuel) k = Some m"
      by (rule apply_entry_consume)
    from km have "local_steps env k m" by (auto intro: auto_finalize_steps Suc.IH)
    with consume [OF True k] Suc.IH [OF n'] show ?thesis by (blast intro: steps_trans steps_one)
  next
    case False
    with Suc.prems have "n' = maybe_compact_local_snapshot env n" by simp
    with compact [of n env] False show ?thesis by (auto intro: steps_one)
  qed
qed simp

lemma apply_committed_steps: "apply_committed env n = Some n' \<Longrightarrow> local_steps env n n'"
  unfolding apply_committed_def by (rule apply_committed_fuel_steps)

lemma advance_commit_index_steps:
  "advance_commit_index env n = Some n' \<Longrightarrow> state n = Leader \<Longrightarrow> local_steps env n n'"
  unfolding advance_commit_index_def by (erule advance_steps) (auto intro: apply_committed_steps)

lemma submit_command_steps: "submit_command env command t n = Some (r, n') \<Longrightarrow> local_steps env n n'"
  unfolding submit_command_def by (erule submit_steps) (rule apply_committed_steps)

lemma maybe_auto_finalize_steps:
  "maybe_auto_finalize_joint_configuration env n = Some n' \<Longrightarrow> local_steps env n n'"
  unfolding maybe_auto_finalize_joint_configuration_def by (erule auto_finalize_steps) (rule apply_committed_steps)

lemma submit_finalize_configuration_steps:
  "submit_finalize_configuration env t n = Some (r, n') \<Longrightarrow> local_steps env n n'"
  unfolding submit_finalize_configuration_def by (erule submit_finalize_steps) (rule apply_committed_steps)

lemma submit_joint_steps:
  assumes "submit_joint_configuration env members t n = Some (r, n')"
  shows "local_steps env n n'"
proof -
  consider "n' = n"
    | command r' m where "submit_command env command t n = Some (r', m)"
        "n' = m \<or> maybe_auto_finalize_joint_configuration env m = Some n'"
    using assms
    by (auto simp: submit_joint_configuration_def bind_eq_Some_conv split: if_splits option.splits)
      (auto split: sum.splits simp: bind_eq_Some_conv)
  then show ?thesis
    by cases (auto intro: steps_trans submit_command_steps maybe_auto_finalize_steps)
qed

lemma submit_join_steps:
  assumes "submit_join env p t n = Some (r, n')"
  shows "local_steps env n n'"
  using assms
  by (auto simp: submit_join_def split: if_splits option.splits intro: submit_command_steps)

lemma promote_steps:
  assumes "maybe_promote_pending_joiners env t n = Some n'"
  shows "local_steps env n n'"
  using assms
  by (auto simp: maybe_promote_pending_joiners_def bind_eq_Some_conv split: if_splits intro: submit_joint_steps)

lemmas call_steps = apply_committed_steps advance_commit_index_steps submit_command_steps
  maybe_auto_finalize_steps submit_finalize_configuration_steps submit_joint_steps submit_join_steps promote_steps

end
