(* ===== verification/Raft_Invariants.thy ===== *)
theory Raft_Invariants
  imports Raft_Steps
begin

text \<open>
  Invariants of the Raft node over the small steps of \<open>Raft_Steps\<close>: what they leave alone
  (term, vote, identity), the order of the log positions, and that the configuration a node
  acts on is the one its log spells out.
\<close>

section \<open>Configurations as folds over entries\<close>

fun config_of :: "protobuf \<Rightarrow> log_entry list \<Rightarrow> cluster_configuration \<Rightarrow> cluster_configuration option" where
  "config_of pb [] c = Some c"
| "config_of pb (e # es) c = Option.bind (config_step pb (e_data e) c) (config_of pb es)"

lemma config_of_append: "config_of pb (xs @ ys) c = Option.bind (config_of pb xs c) (config_of pb ys)"
  by (induction xs arbitrary: c) (auto split: Option.bind_splits)

lemma config_fold_append:
  "config_fold pb l (xs @ ys) c = Option.bind (config_fold pb l xs c) (config_fold pb l ys)"
proof (induction xs arbitrary: c)
  case (Cons x xs)
  then show ?case by (cases "entry_at l x") (auto split: Option.bind_splits)
qed simp

lemma config_fold_skip: "(\<And>x. x \<in> set xs \<Longrightarrow> entry_at l x = None) \<Longrightarrow> config_fold pb l xs c = Some c"
  by (induction xs) auto

lemma config_fold_take:
  "config_fold pb l [Suc (snapshot_index l) ..< Suc j] c = config_of pb (take (j - snapshot_index l) (ls_entries l)) c"
proof (induction j)
  case 0
  then show ?case by simp
next
  case (Suc j)
  consider "j < snapshot_index l" | "snapshot_index l \<le> j" "last_index l \<le> j" | "snapshot_index l \<le> j" "j < last_index l"
    by linarith
  then show ?case
  proof cases
    case 1
    then show ?thesis by (simp add: snapshot_index_def)
  next
    case 2
    then have "entry_at l (Suc j) = None" by (simp add: entry_at_None)
    with 2 Suc show ?thesis
      by (auto simp: config_fold_append snapshot_index_def last_index_eq bind_eq_Some_conv split: Option.bind_splits)
  next
    case 3
    then have e: "entry_at l (Suc j) = Some (ls_entries l ! (j - snapshot_index l))"
      by (simp add: entry_at_Some snapshot_index_def)
    have "take (Suc j - snapshot_index l) (ls_entries l) =
        take (j - snapshot_index l) (ls_entries l) @ [ls_entries l ! (j - snapshot_index l)]"
      using 3 by (simp add: Suc_diff_le take_Suc_conv_app_nth snapshot_index_def last_index_eq)
    with 3 Suc e show ?thesis
      by (auto simp: config_fold_append config_of_append simp del: upt_Suc simp: upt_Suc_append
          split: Option.bind_splits)
  qed
qed

lemma configuration_at_eq:
  "configuration_at env n j =
     config_of (env_pb env) (take (j - snapshot_index (n_log n)) (ls_entries (n_log n))) (snapshot_config n)"
proof (cases "snapshot_index (n_log n) < U64_MAX")
  case True
  then have "sat_add (snapshot_index (n_log n)) 1 = Suc (snapshot_index (n_log n))" by (simp add: sat_add_def)
  then show ?thesis by (simp only: configuration_at_def config_fold_take)
next
  case False
  let ?s = "snapshot_index (n_log n)"
  from False have m: "sat_add ?s 1 = U64_MAX" "U64_MAX \<le> ?s" by (simp_all add: sat_add_def)
  have "config_fold (env_pb env) (n_log n) [U64_MAX ..< Suc j] (snapshot_config n) =
      config_fold (env_pb env) (n_log n) [Suc ?s ..< Suc j] (snapshot_config n)"
  proof (cases "?s < Suc j")
    case True
    then have "[U64_MAX ..< Suc j] = [U64_MAX ..< Suc ?s] @ [Suc ?s ..< Suc j]"
      using m(2) upt_add_eq_append [of U64_MAX "Suc ?s" "j - ?s"] by (simp del: upt_Suc)
    moreover have "config_fold (env_pb env) (n_log n) [U64_MAX ..< Suc ?s] (snapshot_config n) = Some (snapshot_config n)"
      by (rule config_fold_skip) (auto simp: entry_at_None simp del: upt_Suc)
    ultimately show ?thesis by (simp add: config_fold_append del: upt_Suc)
  next
    case False
    have "config_fold (env_pb env) (n_log n) [U64_MAX ..< Suc j] (snapshot_config n) = Some (snapshot_config n)"
      by (rule config_fold_skip) (use False in \<open>auto simp: entry_at_None simp del: upt_Suc\<close>)
    with False show ?thesis by simp
  qed
  then show ?thesis by (simp only: configuration_at_def m(1) config_fold_take)
qed

lemma configuration_at_Suc:
  assumes "snapshot_index (n_log n) \<le> j" "entry_at (n_log n) (Suc j) = Some e"
  shows "configuration_at env n (Suc j) =
    Option.bind (configuration_at env n j) (config_step (env_pb env) (e_data e))"
proof -
  let ?k = "j - snapshot_index (n_log n)"
  have "ls_entries (n_log n) ! ?k = e" "?k < length (ls_entries (n_log n))"
    using assms by (auto simp: entry_at_Some snapshot_index_def last_index_eq)
  then have "take (Suc ?k) (ls_entries (n_log n)) = take ?k (ls_entries (n_log n)) @ [e]"
    by (simp add: take_Suc_conv_app_nth)
  with assms(1) show ?thesis
    by (auto simp: configuration_at_eq config_of_append Suc_diff_le split: Option.bind_splits)
qed

section \<open>What the small steps leave alone\<close>

definition calm :: "'sm node \<Rightarrow> 'sm node \<Rightarrow> bool" where
  "calm n n' \<longleftrightarrow>
     me n' = me n \<and> current_term n' = current_term n \<and> voted_for n' = voted_for n \<and>
     ps_current_term (persistent n') = ps_current_term (persistent n) \<and>
     ps_voted_for (persistent n') = ps_voted_for (persistent n) \<and>
     (state n' = state n \<or> state n' = Follower) \<and> granted_votes n' \<subseteq> granted_votes n \<and>
     pending_snap n' = pending_snap n \<and> read_domain n' = read_domain n"

lemma calm_refl [simp, intro]: "calm n n"
  by (simp add: calm_def)

lemma calm_trans: "calm a b \<Longrightarrow> calm b c \<Longrightarrow> calm a c"
  by (auto simp: calm_def)

text \<open>
  The log is replaced only by its own compaction at \<open>index\<close>, and then the configuration of
  the snapshot is the current one.
\<close>

definition rebased :: "nat \<Rightarrow> 'sm node \<Rightarrow> 'sm node \<Rightarrow> bool" where
  "rebased index n n' \<longleftrightarrow>
     n_log n' = n_log n \<and> snapshot_config n' = snapshot_config n \<or>
     (\<exists>d. n_log n' = log_install_snapshot (n_log n) index (term_at (n_log n) index) d) \<and>
     snapshot_config n' = cluster_config n'"

lemmas adopt_defs = adopt_configuration_def enter_configuration_def complete_admission_def relinquish_def
  retain_active_def snapshot_admitted_membership_def persistent_defs Let_def

lemma complete_admission_frame:
  "calm n (complete_admission env index n)" "rebased index n (complete_admission env index n)"
  "commit_index (complete_admission env index n) = commit_index n"
  "last_applied (complete_admission env index n) = last_applied n"
  "cluster_config (complete_admission env index n) = cluster_config n"
  by (auto simp: complete_admission_def snapshot_admitted_membership_def persistent_defs calm_def rebased_def
      Let_def split: prod.splits)

lemma relinquish_retain_frame:
  "calm n (retain_active (relinquish n))" "n_log (retain_active (relinquish n)) = n_log n"
  "commit_index (retain_active (relinquish n)) = commit_index n"
  "last_applied (retain_active (relinquish n)) = last_applied n"
  "cluster_config (retain_active (relinquish n)) = cluster_config n"
  "snapshot_config (retain_active (relinquish n)) = snapshot_config n"
  by (auto simp: relinquish_def retain_active_def calm_def Let_def)

lemma enter_configuration_frame:
  assumes "enter_configuration index command n = Some n'"
  shows "calm n n'" "n_log n' = n_log n" "commit_index n' = commit_index n" "last_applied n' = last_applied n"
    "snapshot_config n' = snapshot_config n"
    "config_decode pb data = Some command \<Longrightarrow> config_step pb data (cluster_config n) = Some (cluster_config n')"
  using assms
  by (auto simp: enter_configuration_def calm_def config_step_def bind_eq_Some_conv split: configuration_command.splits)

lemma adopt_frame:
  assumes "adopt_configuration env index command n = Some n'"
  shows "calm n n'" "rebased index n n'" "commit_index n' = commit_index n" "last_applied n' = last_applied n"
    "config_decode pb data = Some command \<Longrightarrow> config_step pb data (cluster_config n) = Some (cluster_config n')"
proof -
  from assms obtain n1 where n1: "enter_configuration index command n = Some n1"
    and n': "n' = retain_active (relinquish (complete_admission env index
      (n1\<lparr>membership_epoch := index,
          committed_configurations := bm_insert index (cluster_config n1) (committed_configurations n1),
          decommissioned := \<not> contains (cluster_config n1) (my_id n1)\<rparr>)))" (is "_ = retain_active (relinquish (complete_admission _ _ ?n2))")
    by (auto simp: adopt_configuration_def bind_eq_Some_conv)
  note e = enter_configuration_frame [OF n1]
  note c = complete_admission_frame [where n = ?n2 and env = env and index = index]
  note r = relinquish_retain_frame [where n = "complete_admission env index ?n2"]
  have "calm n ?n2" using e(1) by (simp add: calm_def)
  with c(1) r(1) show "calm n n'" unfolding n' by (blast intro: calm_trans)
  show "rebased index n n'" using c(2,5) r(2,5,6) e(2,5) unfolding n' by (auto simp: rebased_def)
  show "commit_index n' = commit_index n" "last_applied n' = last_applied n"
    using c(3,4) r(3,4) e(3,4) unfolding n' by simp_all
  show "config_decode pb data = Some command \<Longrightarrow> config_step pb data (cluster_config n) = Some (cluster_config n')"
    using e(6) c(5) r(5) unfolding n' by simp
qed

lemma apply_command_frame:
  "calm n (apply_command env e n)" "n_log (apply_command env e n) = n_log n"
  "commit_index (apply_command env e n) = commit_index n" "last_applied (apply_command env e n) = last_applied n"
  "cluster_config (apply_command env e n) = cluster_config n"
  "snapshot_config (apply_command env e n) = snapshot_config n"
  by (auto simp: apply_command_def calm_def Let_def split: option.splits prod.splits)

lemma compact_frame:
  "calm n (maybe_compact_local_snapshot env n)" "rebased (commit_index n) n (maybe_compact_local_snapshot env n)"
  "commit_index (maybe_compact_local_snapshot env n) = commit_index n"
  "last_applied (maybe_compact_local_snapshot env n) = last_applied n"
  "cluster_config (maybe_compact_local_snapshot env n) = cluster_config n"
  by (auto simp: maybe_compact_local_snapshot_def calm_def rebased_def Let_def split: option.splits prod.splits)

text \<open>Consuming an entry, by the kind of entry.\<close>

lemma consume_cases [consumes 1, case_names none noop command join adopt]:
  assumes "consume_entry env n = Some n'"
  obtains "entry_at (n_log n) (Suc (last_applied n)) = None" "n' = n\<lparr>last_applied := Suc (last_applied n)\<rparr>"
  | e where "entry_at (n_log n) (Suc (last_applied n)) = Some e" "e_data e = []"
      "n' = n\<lparr>last_applied := Suc (last_applied n)\<rparr>"
  | e where "entry_at (n_log n) (Suc (last_applied n)) = Some e" "e_data e \<noteq> []"
      "config_decode (env_pb env) (e_data e) = None"
      "n' = apply_command env e (n\<lparr>last_applied := Suc (last_applied n)\<rparr>)"
  | e p where "entry_at (n_log n) (Suc (last_applied n)) = Some e" "e_data e \<noteq> []"
      "config_decode (env_pb env) (e_data e) = Some (Join p)"
      "n' = n\<lparr>last_applied := Suc (last_applied n),
        pending_joiners := bm_insert (p_id p) (p, Suc (last_applied n)) (pending_joiners n)\<rparr>"
  | e c where "entry_at (n_log n) (Suc (last_applied n)) = Some e" "e_data e \<noteq> []"
      "config_decode (env_pb env) (e_data e) = Some c" "\<And>p. c \<noteq> Join p"
      "adopt_configuration env (Suc (last_applied n)) c (n\<lparr>last_applied := Suc (last_applied n)\<rparr>) = Some n'"
proof (cases "entry_at (n_log n) (Suc (last_applied n))")
  case None
  with assms that(1) show thesis by (simp add: consume_entry_def)
next
  case (Some e)
  note entry = this
  show thesis
  proof (cases "e_data e = []")
    case True
    with assms entry that(2) show thesis by (simp add: consume_entry_def is_noop_def)
  next
    case False
    show thesis
    proof (cases "config_decode (env_pb env) (e_data e)")
      case None
      with assms entry False that(3) show thesis by (simp add: consume_entry_def is_noop_def)
    next
      case (Some c)
      with assms entry False that(4,5) show thesis by (cases c) (simp_all add: consume_entry_def is_noop_def)
    qed
  qed
qed

lemma consume_frame:
  assumes "consume_entry env n = Some n'"
  shows "calm n n'" "rebased (last_applied n') n n'" "commit_index n' = commit_index n"
    "last_applied n' = Suc (last_applied n)"
proof -
  have "calm n n' \<and> rebased (last_applied n') n n' \<and> commit_index n' = commit_index n \<and>
      last_applied n' = Suc (last_applied n)"
    using assms
  proof (cases rule: consume_cases)
    case (command e)
    note frame = apply_command_frame(1) [of "n\<lparr>last_applied := Suc (last_applied n)\<rparr>" env e]
    from command frame show ?thesis by (simp add: calm_def rebased_def apply_command_frame)
  next
    case (adopt e c)
    from adopt_frame(1-4) [OF adopt(5)] show ?thesis by (simp add: calm_def rebased_def)
  qed (simp_all add: calm_def rebased_def)
  then show "calm n n'" "rebased (last_applied n') n n'" "commit_index n' = commit_index n"
    "last_applied n' = Suc (last_applied n)" by blast+
qed

text \<open>The empty message is no command (a protobuf message with every field absent).\<close>

definition empty_message :: "'sm env \<Rightarrow> bool" where
  "empty_message env \<longleftrightarrow> pb_decode (env_pb env) [] = Some None"

lemma consume_config:
  assumes "consume_entry env n = Some n'" "empty_message env"
    and "configuration_at env n (last_applied n) = Some (cluster_config n)" "snapshot_index (n_log n) \<le> last_applied n"
    "last_applied n < last_index (n_log n)"
  shows "configuration_at env n (last_applied n') = Some (cluster_config n')"
proof -
  have none: "config_decode (env_pb env) [] = None"
    using assms(2) by (simp add: empty_message_def config_decode_def)
  have *: "configuration_at env n (Suc (last_applied n)) = config_step (env_pb env) (e_data e) (cluster_config n)"
    if "entry_at (n_log n) (Suc (last_applied n)) = Some e" for e
    using configuration_at_Suc [OF assms(4) that, of env] assms(3) by simp
  from assms(1) show ?thesis
  proof (cases rule: consume_cases)
    case none
    with assms(4,5) show ?thesis by (simp add: entry_at_None)
  next
    case (noop e)
    with * [OF noop(1)] none show ?thesis by (simp add: config_step_def)
  next
    case (command e)
    with * [OF command(1)] show ?thesis by (simp add: config_step_def apply_command_frame)
  next
    case (join e p)
    with * [OF join(1)] show ?thesis by (simp add: config_step_def)
  next
    case (adopt e c)
    from adopt_frame(5) [OF adopt(5,3)] adopt_frame(4) [OF adopt(5)] * [OF adopt(1)] show ?thesis by simp
  qed
qed

lemma local_step_calm: "local_step env n n' \<Longrightarrow> calm n n'"
proof (induction rule: local_step.induct)
  case (consume n n')
  then show ?case by (simp add: consume_frame)
next
  case (compact n)
  show ?case by (rule compact_frame)
qed (simp_all add: calm_def)

lemma local_steps_calm: "local_steps env n n' \<Longrightarrow> calm n n'"
  by (induction rule: local_steps_induct) (auto intro: calm_trans local_step_calm)

section \<open>Log positions and the configuration in force\<close>

definition log_inv :: "'sm node \<Rightarrow> bool" where
  "log_inv n \<longleftrightarrow> snapshot_index (n_log n) \<le> last_applied n \<and> last_applied n \<le> commit_index n \<and>
     commit_index n \<le> last_index (n_log n)"

definition config_inv :: "'sm env \<Rightarrow> 'sm node \<Rightarrow> bool" where
  "config_inv env n \<longleftrightarrow> configuration_at env n (last_applied n) = Some (cluster_config n)"

lemma rebased_log:
  assumes "rebased i n n'" "snapshot_index (n_log n) \<le> i" "i \<le> last_index (n_log n)" "0 < i"
  shows "last_index (n_log n') = last_index (n_log n)" "snapshot_index (n_log n') \<le> i"
    "snapshot_index (n_log n) \<le> snapshot_index (n_log n')"
    "snapshot_index (n_log n') < j \<Longrightarrow> entry_at (n_log n') j = entry_at (n_log n) j"
    "i \<le> j \<Longrightarrow> term_at (n_log n') j = term_at (n_log n) j"
proof -
  note keeps = install_snapshot_keeps [OF assms(2-4) refl]
  from assms(1) consider "n_log n' = n_log n"
    | d where "n_log n' = log_install_snapshot (n_log n) i (term_at (n_log n) i) d"
    by (auto simp: rebased_def)
  note cases = this
  show "last_index (n_log n') = last_index (n_log n)" by (cases rule: cases) (simp_all add: keeps)
  show "snapshot_index (n_log n') \<le> i" "snapshot_index (n_log n) \<le> snapshot_index (n_log n')"
    by (cases rule: cases; simp add: assms(2))+
  show "snapshot_index (n_log n') < j \<Longrightarrow> entry_at (n_log n') j = entry_at (n_log n) j"
    by (cases rule: cases) (simp_all add: keeps)
  show "i \<le> j \<Longrightarrow> term_at (n_log n') j = term_at (n_log n) j"
    by (cases rule: cases) (simp_all add: keeps)
qed

lemma rebased_config:
  assumes "rebased i n n'" "snapshot_index (n_log n) \<le> i" "i \<le> last_index (n_log n)" "0 < i"
    and "configuration_at env n i = Some (cluster_config n')" "i \<le> j"
  shows "configuration_at env n' j = configuration_at env n j"
  using assms(1) unfolding rebased_def
proof (elim disjE conjE exE)
  assume "n_log n' = n_log n" "snapshot_config n' = snapshot_config n"
  then show ?thesis by (simp add: configuration_at_def)
next
  fix d
  let ?s = "snapshot_index (n_log n)"
  assume l: "n_log n' = log_install_snapshot (n_log n) i (term_at (n_log n) i) d"
    and c: "snapshot_config n' = cluster_config n'"
  have "take (j - ?s) (ls_entries (n_log n)) =
      take (i - ?s) (ls_entries (n_log n)) @ take (j - i) (drop (i - ?s) (ls_entries (n_log n)))"
    using assms(2,6) by (simp add: take_add [symmetric])
  with assms(5) show ?thesis
    by (simp add: configuration_at_eq l c install_snapshot_entries [OF assms(2-4) refl] config_of_append)
qed

text \<open>The indices a commit scan can select.\<close>

lemma commit_scan_sound:
  assumes "commit_scan env n indices candidate = Some c"
  shows "c = candidate \<or>
    c \<in> set indices \<and> term_at (n_log n) c = current_term n \<and>
    (\<exists>configuration. configuration_at env n c = Some configuration \<and>
       has_joint_majority configuration (replicated_at n configuration c) \<and>
       finalizes_have_quorum env n (replicated_at n configuration c) [commit_index n + 1 ..< Suc c] = Some True)"
  using assms
proof (induction indices arbitrary: candidate)
  case (Cons i indices)
  show ?case
  proof (cases "term_at (n_log n) i = current_term n")
    case True
    with Cons.prems obtain d f where d: "configuration_at env n i = Some d"
      and f: "finalizes_have_quorum env n (replicated_at n d i) [commit_index n + 1 ..< Suc i] = Some f"
      and r: "commit_scan env n indices (if has_joint_majority d (replicated_at n d i) \<and> f then i else candidate) = Some c"
      by (auto simp: bind_eq_Some_conv Let_def)
    from Cons.IH [OF r] True d f show ?thesis by (auto split: if_splits)
  next
    case False
    with Cons.prems have "commit_scan env n indices candidate = Some c" by simp
    from Cons.IH [OF this] show ?thesis by auto
  qed
qed simp

lemma log_inv_step:
  assumes "local_step env n n'" "log_inv n"
  shows "log_inv n'" "commit_index n \<le> commit_index n'" "last_applied n \<le> last_applied n'"
    "last_index (n_log n) \<le> last_index (n_log n')" "snapshot_index (n_log n) \<le> snapshot_index (n_log n')"
proof -
  have "log_inv n' \<and> commit_index n \<le> commit_index n' \<and> last_applied n \<le> last_applied n' \<and>
    last_index (n_log n) \<le> last_index (n_log n') \<and> snapshot_index (n_log n) \<le> snapshot_index (n_log n')"
    using assms
  proof (induction rule: local_step.induct)
    case (consume n n')
    note f = consume_frame [OF consume(2)]
    have "snapshot_index (n_log n) \<le> last_applied n'" "last_applied n' \<le> last_index (n_log n)" "0 < last_applied n'"
      using consume(1,3) f(4) by (auto simp: log_inv_def)
    from rebased_log(1-3) [OF f(2) this] consume(1,3) f(3,4) show ?case by (auto simp: log_inv_def)
  next
    case (append n e t)
    then show ?case by (simp add: log_inv_def mem.app_last mem.app_snap)
  next
    case (commit n c)
    from commit_scan_sound [OF commit(2)] commit(3,4) show ?case by (auto simp: log_inv_def)
  next
    case (compact n)
    show ?case
    proof (cases "commit_index n = 0")
      case True
      then have "maybe_compact_local_snapshot env n = n"
        by (simp add: maybe_compact_local_snapshot_def split: option.splits)
      with compact show ?thesis by simp
    next
      case False
      with compact rebased_log(1-3) [OF compact_frame(2) [of n env]] show ?thesis
        by (simp add: log_inv_def compact_frame)
    qed
  qed (simp_all add: log_inv_def)
  then show "log_inv n'" "commit_index n \<le> commit_index n'" "last_applied n \<le> last_applied n'"
    "last_index (n_log n) \<le> last_index (n_log n')" "snapshot_index (n_log n) \<le> snapshot_index (n_log n')"
    by blast+
qed

lemma config_inv_step:
  assumes "local_step env n n'" "log_inv n" "config_inv env n" "empty_message env"
  shows "config_inv env n'"
  using assms
proof (induction rule: local_step.induct)
  case (consume n n')
  note f = consume_frame [OF consume(2)]
  have b: "snapshot_index (n_log n) \<le> last_applied n'" "last_applied n' \<le> last_index (n_log n)" "0 < last_applied n'"
    using consume(1,3) f(4) by (auto simp: log_inv_def)
  have "configuration_at env n (last_applied n') = Some (cluster_config n')"
    using consume_config [OF consume(2,5)] consume(1,3,4) by (auto simp: log_inv_def config_inv_def)
  with rebased_config [OF f(2) b this order_refl] show ?case by (simp add: config_inv_def)
next
  case (append n e t)
  then have "last_applied n - snapshot_index (n_log n) \<le> length (ls_entries (n_log n))"
    by (auto simp: log_inv_def last_index_eq snapshot_index_def)
  with append show ?case
    by (simp add: config_inv_def configuration_at_eq log_append_def snapshot_index_def)
next
  case (compact n)
  show ?case
  proof (cases "commit_index n = 0")
    case True
    then have "maybe_compact_local_snapshot env n = n"
      by (simp add: maybe_compact_local_snapshot_def split: option.splits)
    with compact show ?thesis by simp
  next
    case False
    with compact have la: "last_applied n = commit_index n" by (simp add: log_inv_def)
    have c: "configuration_at env n (commit_index n) = Some (cluster_config (maybe_compact_local_snapshot env n))"
      using compact(3) la by (simp add: config_inv_def compact_frame)
    from rebased_config [OF compact_frame(2) _ _ _ c order_refl] False compact(2) c la show ?thesis
      by (simp add: config_inv_def compact_frame log_inv_def)
  qed
qed (simp_all add: config_inv_def configuration_at_def)

lemma log_inv_steps:
  assumes "local_steps env n n'" "log_inv n"
  shows "log_inv n' \<and> commit_index n \<le> commit_index n' \<and> last_applied n \<le> last_applied n' \<and>
    last_index (n_log n) \<le> last_index (n_log n') \<and> snapshot_index (n_log n) \<le> snapshot_index (n_log n')"
  using assms
  by (induction rule: local_steps_induct) (auto dest: log_inv_step intro: order_trans)

lemma config_inv_steps:
  assumes "local_steps env n n'" "log_inv n" "config_inv env n" "empty_message env"
  shows "config_inv env n'"
proof -
  have "log_inv n' \<and> config_inv env n'"
    using assms(1) assms(2,3) by (rule steps_invariant [where P = "\<lambda>n. log_inv n \<and> config_inv env n", OF _ conjI])
      (auto intro: log_inv_step config_inv_step assms(4))
  then show ?thesis ..
qed

end
