(* ===== verification/Raft_Progress.thy ===== *)
theory Raft_Progress
  imports Raft_Invariants
begin

text \<open>
  The recursion through \<open>apply_committed\<close> ends, and no handler of a well-formed node panics.
  The measure of the loop counts the entries still to apply, joint entries twice, because a
  joint entry may append a FINALIZE entry while it is being applied. With it the fuel of
  \<open>Raft_Node\<close> is always enough, and the loop satisfies the recursion of the source with no
  fuel in it.
\<close>

section \<open>The measure of the loop\<close>

definition after :: "mem_log \<Rightarrow> nat \<Rightarrow> log_entry list" where
  "after l i = drop (i - snapshot_index l) (ls_entries l)"

definition joint_entry :: "'sm env \<Rightarrow> log_entry \<Rightarrow> bool" where
  "joint_entry env e = (case config_decode (env_pb env) (e_data e) of Some (Joint _) \<Rightarrow> True | _ \<Rightarrow> False)"

definition work :: "'sm env \<Rightarrow> 'sm node \<Rightarrow> nat" where
  "work env n =
     (let todo = after (n_log n) (last_applied n) in length todo + length (filter (joint_entry env) todo))"

text \<open>No joint entry of the log is empty, so that no assertion of membership.rs fails.\<close>

definition joints_ok :: "'sm env \<Rightarrow> mem_log \<Rightarrow> bool" where
  "joints_ok env l \<longleftrightarrow> (\<forall>e \<in> set (ls_entries l). config_decode (env_pb env) (e_data e) \<noteq> Some (Joint []))"

text \<open>FINALIZE commands are read back as written.\<close>

definition finalize_message :: "'sm env \<Rightarrow> bool" where
  "finalize_message env \<longleftrightarrow>
     (\<forall>d. config_encode (env_pb env) Finalize = Some d \<longrightarrow> config_decode (env_pb env) d = Some Finalize)"

definition ready :: "'sm env \<Rightarrow> 'sm node \<Rightarrow> bool" where
  "ready env n \<longleftrightarrow> log_inv n \<and> joints_ok env (n_log n)"

lemma ready_simps [simp]:
  "ready env (n\<lparr>finalize_configuration_pending := b\<rparr>) = ready env n"
  "ready env (n\<lparr>current_millis := t\<rparr>) = ready env n"
  "work env (n\<lparr>finalize_configuration_pending := b\<rparr>) = work env n"
  "work env (n\<lparr>commit_index := c\<rparr>) = work env n"
  by (simp_all add: ready_def log_inv_def work_def)

lemma config_of_total:
  assumes "\<And>e. e \<in> set es \<Longrightarrow> config_decode pb (e_data e) \<noteq> Some (Joint [])"
  shows "\<exists>d. config_of pb es c = Some d"
  using assms
proof (induction es arbitrary: c)
  case (Cons e es)
  have "config_step pb (e_data e) c \<noteq> None"
    using Cons.prems [of e]
    by (auto simp: config_step_def transition_None_iff simp del: not_None_eq
        split: option.splits configuration_command.splits)
  then obtain d where "config_step pb (e_data e) c = Some d" by auto
  with Cons show ?case by simp
qed simp

lemma configuration_at_total:
  assumes "joints_ok env (n_log n)"
  obtains c where "configuration_at env n i = Some c"
  using config_of_total [of "take (i - snapshot_index (n_log n)) (ls_entries (n_log n))" "env_pb env" "snapshot_config n"] assms
  by (auto simp: configuration_at_eq joints_ok_def dest: in_set_takeD)

lemma effective_configuration_total:
  assumes "joints_ok env (n_log n)"
  obtains c where "effective_configuration env n = Some c"
  using configuration_at_total [OF assms] unfolding effective_configuration_def .

lemma finalizes_total:
  assumes "joints_ok env (n_log n)"
  shows "\<exists>b. finalizes_have_quorum env n ids positions = Some b"
proof (induction positions)
  case (Cons p ps)
  obtain c where "configuration_at env n (p - 1) = Some c" by (rule configuration_at_total [OF assms])
  with Cons show ?case by (cases "has_joint_majority c ids") auto
qed auto

lemma commit_scan_total:
  assumes "joints_ok env (n_log n)"
  shows "\<exists>c. commit_scan env n indices candidate = Some c"
proof (induction indices arbitrary: candidate)
  case (Cons i indices)
  obtain d where "configuration_at env n i = Some d" by (rule configuration_at_total [OF assms])
  moreover obtain b where "finalizes_have_quorum env n (replicated_at n d i) [commit_index n + 1 ..< Suc i] = Some b"
    using finalizes_total [OF assms] by blast
  ultimately show ?case using Cons by simp
qed simp

section \<open>Steps against the measure\<close>

lemma after_Cons:
  assumes "entry_at l (Suc i) = Some e" "snapshot_index l \<le> i"
  shows "after l i = e # after l (Suc i)"
proof -
  have "i - snapshot_index l < length (ls_entries l)" "ls_entries l ! (i - snapshot_index l) = e"
    using assms by (auto simp: entry_at_Some last_index_eq snapshot_index_def)
  with assms(2) show ?thesis by (simp add: after_def Suc_diff_le) (metis Cons_nth_drop_Suc)
qed

lemma rebased_after:
  assumes "rebased i n n'" "snapshot_index (n_log n) \<le> i" "i \<le> last_index (n_log n)" "0 < i" "i \<le> j"
  shows "after (n_log n') j = after (n_log n) j" "set (ls_entries (n_log n')) \<subseteq> set (ls_entries (n_log n))"
  using assms install_snapshot_entries [OF assms(2-4) refl]
  by (auto simp: rebased_def after_def dest: in_set_dropD)

lemma adopt_total:
  assumes "\<And>ms. command = Joint ms \<Longrightarrow> ms \<noteq> []" "\<And>p. command \<noteq> Join p"
  shows "\<exists>n'. adopt_configuration env index command n = Some n'"
proof -
  have "\<exists>m. enter_configuration index command n = Some m"
  proof (cases command)
    case (Joint ms)
    with assms(1) obtain c where "transition_to (cluster_config n) ms = Some c"
      by (metis option.exhaust transition_None_iff)
    with Joint show ?thesis by (simp add: enter_configuration_def)
  qed (auto simp: enter_configuration_def assms(2))
  then show ?thesis by (auto simp: adopt_configuration_def)
qed

lemma consume_total:
  assumes "ready env n"
  shows "\<exists>n'. consume_entry env n = Some n'"
proof (cases "entry_at (n_log n) (Suc (last_applied n))")
  case (Some e)
  then have "e \<in> set (ls_entries (n_log n))" by (auto simp: entry_at_Some last_index_eq)
  with assms have e: "config_decode (env_pb env) (e_data e) \<noteq> Some (Joint [])" by (auto simp: ready_def joints_ok_def)
  show ?thesis
  proof (cases "is_noop e \<or> config_decode (env_pb env) (e_data e) = None")
    case True
    with Some show ?thesis by (auto simp: consume_entry_def Let_def)
  next
    case False
    then obtain c where c: "config_decode (env_pb env) (e_data e) = Some c" by auto
    show ?thesis
      using Some False c e adopt_total [of c env "Suc (last_applied n)" "n\<lparr>last_applied := Suc (last_applied n)\<rparr>"]
      by (cases c) (auto simp: consume_entry_def)
  qed
qed (simp add: consume_entry_def)

lemma consume_work:
  assumes "consume_entry env n = Some n'" "ready env n" "last_applied n < commit_index n"
  shows "ready env n'" "work env n' < work env n" "joint_next env n \<Longrightarrow> work env n' + 1 < work env n"
proof -
  note f = consume_frame [OF assms(1)]
  have inv: "log_inv n" and ok: "joints_ok env (n_log n)" using assms(2) by (simp_all add: ready_def)
  have b: "snapshot_index (n_log n) \<le> last_applied n'" "last_applied n' \<le> last_index (n_log n)" "0 < last_applied n'"
    using inv assms(3) f(4) by (auto simp: log_inv_def)
  note r = rebased_after [OF f(2) b order_refl]
  have "log_inv n'" using log_inv_step(1) [OF consume [OF assms(3,1)] inv] .
  moreover have "joints_ok env (n_log n')" using ok r(2) by (auto simp: joints_ok_def)
  ultimately show "ready env n'" by (simp add: ready_def)
  obtain e where e: "entry_at (n_log n) (Suc (last_applied n)) = Some e"
    using inv assms(3) entry_at_None [of "n_log n" "Suc (last_applied n)"] by (auto simp: log_inv_def)
  from after_Cons [OF e] inv r(1) f(4)
  have a: "after (n_log n) (last_applied n) = e # after (n_log n') (last_applied n')" by (simp add: log_inv_def)
  show "work env n' < work env n" unfolding work_def a Let_def by simp
  show "joint_next env n \<Longrightarrow> work env n' + 1 < work env n"
    unfolding work_def a Let_def by (auto simp: joint_next_def joint_entry_def e split: option.splits)
qed

lemma compact_work:
  assumes "ready env n" "commit_index n \<le> last_applied n"
  shows "ready env (maybe_compact_local_snapshot env n)" "work env (maybe_compact_local_snapshot env n) = work env n"
proof -
  let ?n' = "maybe_compact_local_snapshot env n"
  have inv: "log_inv n" and ok: "joints_ok env (n_log n)" using assms(1) by (simp_all add: ready_def)
  have inv': "log_inv ?n'" using log_inv_step(1) [OF compact [OF assms(2)] inv] .
  have "after (n_log ?n') (last_applied n) = after (n_log n) (last_applied n) \<and>
      set (ls_entries (n_log ?n')) \<subseteq> set (ls_entries (n_log n))"
  proof (cases "commit_index n = 0")
    case True
    then have "?n' = n" by (simp add: maybe_compact_local_snapshot_def split: option.splits)
    then show ?thesis by simp
  next
    case False
    with inv rebased_after [OF compact_frame(2) [of n env], of "last_applied n"] assms(2) show ?thesis
      by (simp add: log_inv_def)
  qed
  with ok inv' show "ready env ?n'" "work env ?n' = work env n"
    by (auto simp: ready_def joints_ok_def work_def compact_frame)
qed

lemma append_ready:
  assumes "ready env n" "config_decode (env_pb env) (e_data e) \<noteq> Some (Joint [])"
  shows "ready env (n\<lparr>current_millis := t, n_log := log_append (n_log n) [e]\<rparr>)"
proof -
  have "set (ls_entries (log_append (n_log n) [e])) = insert e (set (ls_entries (n_log n)))"
    by (simp add: log_append_def)
  with assms show ?thesis by (auto simp: ready_def log_inv_def mem.app_last mem.app_snap joints_ok_def)
qed

lemma append_work:
  assumes "ready env n" "\<not> joint_entry env e"
  shows "work env (n\<lparr>current_millis := t, n_log := log_append (n_log n) [e]\<rparr>) = work env n + 1"
proof -
  have "last_applied n - snapshot_index (n_log n) \<le> length (ls_entries (n_log n))"
    using assms(1) by (auto simp: ready_def log_inv_def last_index_eq snapshot_index_def)
  then show ?thesis
    using assms(2) by (simp add: work_def after_def log_append_def snapshot_index_def)
qed

section \<open>Enough fuel\<close>

text \<open>
  What a run of the loop from a ready node achieves: it returns, with every committed entry
  applied, in a ready node with no more work left than before.
\<close>

definition settles :: "'sm env \<Rightarrow> ('sm node \<Rightarrow> 'sm node option) \<Rightarrow> 'sm node \<Rightarrow> bool" where
  "settles env ap n \<longleftrightarrow>
     (\<exists>n'. ap n = Some n' \<and> last_applied n' = commit_index n' \<and> ready env n' \<and> work env n' \<le> work env n)"

lemma settlesE:
  assumes "settles env ap n"
  obtains n' where "ap n = Some n'" "last_applied n' = commit_index n'" "ready env n'" "work env n' \<le> work env n"
  using assms by (auto simp: settles_def)

lemma advance_total:
  assumes "ready env n"
    and ap: "\<And>k. ready env k \<Longrightarrow> work env k \<le> work env n \<Longrightarrow> settles env ap k"
  obtains n' where "advance_commit_with env ap n = Some n'" "ready env n'" "work env n' \<le> work env n"
    "n' = n \<or> last_applied n' = commit_index n'"
proof -
  have inv: "log_inv n" and ok: "joints_ok env (n_log n)" using assms(1) by (simp_all add: ready_def)
  obtain c where c: "commit_scan env n [commit_index n + 1 ..< Suc (last_index (n_log n))] (commit_index n) = Some c"
    using commit_scan_total [OF ok] by blast
  show thesis
  proof (cases "commit_index n < c")
    case True
    let ?k = "n\<lparr>commit_index := c\<rparr>"
    have "c \<le> last_index (n_log n)" using commit_scan_sound [OF c] True by auto
    then have "ready env ?k" using assms(1) True by (auto simp: ready_def log_inv_def)
    then have "settles env ap ?k" by (rule ap) simp
    then obtain n' where "ap ?k = Some n'" "last_applied n' = commit_index n'" "ready env n'"
      "work env n' \<le> work env ?k" by (rule settlesE)
    with c True show thesis by (intro that [of n']) (simp_all add: advance_commit_with_def)
  next
    case False
    with c assms(1) show thesis by (intro that [of n]) (simp_all add: advance_commit_with_def)
  qed
qed

lemma submit_total:
  assumes "ready env n" "\<not> joint_entry env (entry_new (current_term n) (my_id n) command)"
    and ap: "\<And>k. ready env k \<Longrightarrow> work env k \<le> work env n + 1 \<Longrightarrow> settles env ap k"
  obtains r n' where "submit_command_with env ap command t n = Some (r, n')" "ready env n'"
    "work env n' \<le> work env n + 1"
proof (cases "state n = Leader \<and> length command \<le> MAX_COMMAND_BYTES")
  case True
  let ?e = "entry_new (current_term n) (my_id n) command"
  let ?m = "n\<lparr>current_millis := t, n_log := log_append (n_log n) [?e]\<rparr>"
  have "config_decode (env_pb env) (e_data ?e) \<noteq> Some (Joint [])"
    using assms(2) by (auto simp: joint_entry_def)
  then have m: "ready env ?m" "work env ?m = work env n + 1"
    using append_ready [OF assms(1)] append_work [OF assms(1,2)] by simp_all
  obtain n' where "advance_commit_with env ap ?m = Some n'" "ready env n'" "work env n' \<le> work env ?m"
    by (rule advance_total [of env ?m ap]) (use m ap in simp_all)
  with True m show thesis
    by (intro that [of "Inr (last_index (n_log ?m))" n']) (simp_all add: submit_command_with_def Let_def)
next
  case False
  then have "submit_command_with env ap command t n =
      Some (Inl (if state n \<noteq> Leader then ERR_NOT_LEADER else ERR_TOO_LARGE), n\<lparr>current_millis := t\<rparr>)"
    by (auto simp: submit_command_with_def Let_def not_le)
  from that [OF this] assms(1) show thesis by (simp add: work_def)
qed

lemma auto_finalize_total:
  assumes "ready env n" "finalize_message env"
    and ap: "\<And>k. ready env k \<Longrightarrow> work env k \<le> work env n + 1 \<Longrightarrow> settles env ap k"
  obtains n' where "auto_finalize_with env ap n = Some n'" "ready env n'" "work env n' \<le> work env n + 1"
proof (cases "auto_finalize_due n")
  case True
  show thesis
  proof (cases "config_encode (env_pb env) Finalize")
    case None
    with True assms(1) show thesis
      by (intro that [of n]) (simp_all add: auto_finalize_with_def submit_finalize_with_def)
  next
    case (Some d)
    then have "\<not> joint_entry env (entry_new (current_term n) (my_id n) d)"
      using assms(2) by (simp add: finalize_message_def joint_entry_def entry_new_def)
    then obtain r n' where "submit_command_with env ap d (current_millis n) n = Some (r, n')" "ready env n'"
      "work env n' \<le> work env n + 1"
      by (rule submit_total [OF assms(1)]) (use ap in auto)
    with True Some show thesis
      by (intro that [of "case r of Inr _ \<Rightarrow> n'\<lparr>finalize_configuration_pending := True\<rparr> | Inl _ \<Rightarrow> n'"])
        (simp_all add: auto_finalize_with_def submit_finalize_with_def split: sum.splits)
  qed
next
  case False
  with assms(1) show thesis by (intro that [of n]) (simp_all add: auto_finalize_with_def)
qed

lemma apply_committed_fuel_settles:
  assumes "finalize_message env"
  shows "ready env n \<Longrightarrow> work env n < fuel \<Longrightarrow> settles env (apply_committed_fuel env fuel) n"
proof (induction fuel arbitrary: n)
  case (Suc fuel)
  show ?case
  proof (cases "last_applied n < commit_index n")
    case True
    obtain m where m: "consume_entry env n = Some m" using consume_total [OF Suc.prems(1)] by blast
    note w = consume_work [OF m Suc.prems(1) True]
    let ?ap = "apply_committed_fuel env fuel"
    obtain k where k: "Option.bind (consume_entry env n) (if joint_next env n then auto_finalize_with env ?ap else Some) = Some k"
      and r: "ready env k" "work env k < work env n"
    proof (cases "joint_next env n")
      case True
      have "settles env ?ap j" if "ready env j" "work env j \<le> work env m + 1" for j
        using Suc.IH [OF that(1)] that(2) w(3) [OF True] Suc.prems(2) by simp
      then obtain k where "auto_finalize_with env ?ap m = Some k" "ready env k" "work env k \<le> work env m + 1"
        by (rule auto_finalize_total [OF w(1) assms])
      with True m w(3) [OF True] show thesis by (intro that [of k]) simp_all
    next
      case False
      with m w(1,2) show thesis by (intro that [of m]) simp_all
    qed
    have "settles env ?ap k" using Suc.IH [OF r(1)] r(2) Suc.prems(2) by simp
    with k r(2) True show ?thesis by (auto simp: settles_def apply_entry_eq [simplified])
  next
    case False
    with Suc.prems(1) have "last_applied n = commit_index n" by (simp add: ready_def log_inv_def)
    with False compact_work [OF Suc.prems(1)] show ?thesis by (simp add: settles_def compact_frame)
  qed
qed simp

lemma work_less_fuel: "ready env n \<Longrightarrow> work env n < apply_fuel n"
proof -
  assume "ready env n"
  then have "length (after (n_log n) (last_applied n)) = last_index (n_log n) - last_applied n"
    and "commit_index n \<le> last_index (n_log n)"
    by (auto simp: ready_def log_inv_def after_def last_index_eq snapshot_index_def)
  moreover have "work env n \<le> 2 * length (after (n_log n) (last_applied n))"
    by (simp add: work_def Let_def mult_2)
  ultimately show ?thesis by (simp add: apply_fuel_def max_def)
qed

lemma apply_committed_settles:
  "finalize_message env \<Longrightarrow> ready env n \<Longrightarrow> settles env (apply_committed env) n"
  using apply_committed_fuel_settles [OF _ _ work_less_fuel] by (fastforce simp: settles_def apply_committed_def)

section \<open>The recursion without fuel\<close>

lemma advance_cong:
  assumes "ready env n" "\<And>k. ready env k \<Longrightarrow> work env k \<le> work env n \<Longrightarrow> ap k = ap' k"
  shows "advance_commit_with env ap n = advance_commit_with env ap' n"
proof -
  obtain c where c: "commit_scan env n [commit_index n + 1 ..< Suc (last_index (n_log n))] (commit_index n) = Some c"
    using commit_scan_total [of env n] assms(1) by (auto simp: ready_def)
  have "ready env (n\<lparr>commit_index := c\<rparr>)" if "commit_index n < c"
    using commit_scan_sound [OF c] that assms(1) by (auto simp: ready_def log_inv_def)
  with c assms(2) show ?thesis by (simp add: advance_commit_with_def)
qed

lemma auto_finalize_cong:
  assumes "ready env n" "finalize_message env"
    and "\<And>k. ready env k \<Longrightarrow> work env k \<le> work env n + 1 \<Longrightarrow> ap k = ap' k"
  shows "auto_finalize_with env ap n = auto_finalize_with env ap' n"
proof (cases "config_encode (env_pb env) Finalize")
  case None
  then show ?thesis by (simp add: auto_finalize_with_def submit_finalize_with_def)
next
  case (Some d)
  let ?e = "entry_new (current_term n) (my_id n) d"
  let ?m = "n\<lparr>current_millis := current_millis n, n_log := log_append (n_log n) [?e]\<rparr>"
  have e: "\<not> joint_entry env ?e" "config_decode (env_pb env) (e_data ?e) \<noteq> Some (Joint [])"
    using Some assms(2) by (simp_all add: finalize_message_def joint_entry_def entry_new_def)
  have "advance_commit_with env ap ?m = advance_commit_with env ap' ?m"
    by (rule advance_cong) (use append_ready [OF assms(1) e(2), of "current_millis n"]
        append_work [OF assms(1) e(1), of "current_millis n"] assms(3) in auto)
  then show ?thesis
    by (simp add: auto_finalize_with_def submit_finalize_with_def submit_command_with_def Some Let_def)
qed

lemma turn_cong:
  assumes "finalize_message env" "ready env n" "last_applied n < commit_index n"
    and ap: "\<And>k. ready env k \<Longrightarrow> work env k < work env n \<Longrightarrow> ap k = ap' k \<and> settles env ap k"
  shows "Option.bind (apply_entry_with env ap (n\<lparr>last_applied := last_applied n + 1\<rparr>)) ap =
    Option.bind (apply_entry_with env ap' (n\<lparr>last_applied := last_applied n + 1\<rparr>)) ap'"
proof -
  obtain m where m: "consume_entry env n = Some m" using consume_total [OF assms(2)] by blast
  note w = consume_work [OF m assms(2,3)]
  show ?thesis
  proof (cases "joint_next env n")
    case True
    have "settles env ap k" if "ready env k" "work env k \<le> work env m + 1" for k
      using ap [OF that(1)] that(2) w(3) [OF True] by simp
    then obtain k where k: "auto_finalize_with env ap m = Some k" "ready env k" "work env k \<le> work env m + 1"
      by (rule auto_finalize_total [OF w(1) assms(1)])
    have "auto_finalize_with env ap m = auto_finalize_with env ap' m"
      by (rule auto_finalize_cong [OF w(1) assms(1)]) (use w(3) [OF True] ap in auto)
    with k ap [OF k(2)] w(3) [OF True] m True show ?thesis by (simp add: apply_entry_eq [simplified])
  next
    case False
    with ap [OF w(1,2)] m show ?thesis by (simp add: apply_entry_eq [simplified])
  qed
qed

lemma fuel_stable:
  assumes "finalize_message env"
  shows "ready env n \<Longrightarrow> work env n < f \<Longrightarrow> work env n < g \<Longrightarrow>
    apply_committed_fuel env f n = apply_committed_fuel env g n"
proof (induction f arbitrary: g n)
  case (Suc f)
  then obtain h where g: "g = Suc h" by (cases g) auto
  have "apply_committed_fuel env f k = apply_committed_fuel env h k \<and> settles env (apply_committed_fuel env f) k"
    if "ready env k" "work env k < work env n" for k
    using Suc.IH [OF that(1), of h] apply_committed_fuel_settles [OF assms that(1), of f] that(2) Suc.prems(2,3) g
    by simp
  from turn_cong [OF assms Suc.prems(1) _ this] show ?case by (simp add: g)
qed simp

end
