(* ===== verification/Raft_Handlers.thy ===== *)
theory Raft_Handlers
  imports Raft_Progress
begin

text \<open>
  The handlers of the node as one family of operations, and what each of them does to the
  term, the vote and the role: the facts the election argument and the invariants of the
  node rest on.
\<close>

section \<open>Operations\<close>

datatype node_op =
  OpSetMillis nat
| OpElection nat
| OpVoteRequest vote_request nat
| OpVoteResponse string vote_response nat
| OpAppend append_entries_request nat
| OpAppendResponse string append_entries_response nat
| OpSnapshot install_snapshot_request nat
| OpSnapshotResponse string install_snapshot_response nat bool nat
| OpHeartbeat nat
| OpCommand bytes nat
| OpJoint "peer list" nat
| OpFinalize nat
| OpJoin peer nat
| OpRead bytes nat "nat option"

definition run_op :: "'sm env \<Rightarrow> node_op \<Rightarrow> 'sm node \<Rightarrow> 'sm node option" where
  "run_op env op n =
     (case op of
        OpSetMillis t \<Rightarrow> Some (set_millis t n)
      | OpElection t \<Rightarrow> start_election env t n
      | OpVoteRequest req t \<Rightarrow> map_option snd (handle_vote_request env req t n)
      | OpVoteResponse p resp t \<Rightarrow> handle_vote_response env p resp t n
      | OpAppend req t \<Rightarrow> map_option snd (handle_append_entries env req t n)
      | OpAppendResponse p resp t \<Rightarrow> handle_append_entries_response env p resp t n
      | OpSnapshot req t \<Rightarrow> map_option snd (handle_install_snapshot env req t n)
      | OpSnapshotResponse p resp off fin t \<Rightarrow> handle_install_snapshot_response env p resp off fin t n
      | OpHeartbeat t \<Rightarrow> broadcast_heartbeat env t n
      | OpCommand c t \<Rightarrow> map_option snd (handle_client_command env c t n)
      | OpJoint ms t \<Rightarrow> map_option snd (submit_joint_configuration env ms t n)
      | OpFinalize t \<Rightarrow> map_option snd (submit_finalize_configuration env t n)
      | OpJoin p t \<Rightarrow> map_option snd (submit_join env p t n)
      | OpRead q t d \<Rightarrow> map_option snd (begin_read env q t d n))"

section \<open>Frames of the shared helpers\<close>

lemma restart_timeout_eq:
  "\<exists>a b. restart_timeout t n = n\<lparr>rand_state := a, timeout_at_millis := b\<rparr>"
  by (auto simp: restart_timeout_def election_timeout_millis_def random_def Let_def)

lemma restart_timeout_simps [simp]:
  "me (restart_timeout t n) = me n" "state (restart_timeout t n) = state n"
  "current_term (restart_timeout t n) = current_term n" "voted_for (restart_timeout t n) = voted_for n"
  "commit_index (restart_timeout t n) = commit_index n" "last_applied (restart_timeout t n) = last_applied n"
  "n_log (restart_timeout t n) = n_log n" "persistent (restart_timeout t n) = persistent n"
  "cluster_config (restart_timeout t n) = cluster_config n"
  "snapshot_config (restart_timeout t n) = snapshot_config n"
  "granted_votes (restart_timeout t n) = granted_votes n" "joining (restart_timeout t n) = joining n"
  "joining_from (restart_timeout t n) = joining_from n" "known_leader_id (restart_timeout t n) = known_leader_id n"
  "pending_snap (restart_timeout t n) = pending_snap n" "state_machine (restart_timeout t n) = state_machine n"
  "applied_command_results (restart_timeout t n) = applied_command_results n"
  "read_domain (restart_timeout t n) = read_domain n" "decommissioned (restart_timeout t n) = decommissioned n"
  "membership_epoch (restart_timeout t n) = membership_epoch n"
  using restart_timeout_eq [of t n] by (elim exE; simp)+

lemma step_down_simps [simp]:
  "me (step_down trm t n) = me n" "state (step_down trm t n) = Follower"
  "current_term (step_down trm t n) = trm" "voted_for (step_down trm t n) = None"
  "commit_index (step_down trm t n) = commit_index n" "last_applied (step_down trm t n) = last_applied n"
  "n_log (step_down trm t n) = n_log n" "ps_current_term (persistent (step_down trm t n)) = trm"
  "ps_voted_for (persistent (step_down trm t n)) = None"
  "ps_join_admission (persistent (step_down trm t n)) = ps_join_admission (persistent n)"
  "cluster_config (step_down trm t n) = cluster_config n"
  "snapshot_config (step_down trm t n) = snapshot_config n"
  "granted_votes (step_down trm t n) = {}" "joining (step_down trm t n) = joining n"
  "joining_from (step_down trm t n) = joining_from n" "pending_snap (step_down trm t n) = None"
  "state_machine (step_down trm t n) = state_machine n"
  "applied_command_results (step_down trm t n) = applied_command_results n"
  "read_domain (step_down trm t n) = read_domain n"
  by (simp_all add: step_down_def persistent_defs)

lemma effective_configuration_cong:
  "n_log n = n_log m \<Longrightarrow> snapshot_config n = snapshot_config m \<Longrightarrow>
   effective_configuration env n = effective_configuration env m"
  by (simp add: effective_configuration_def configuration_at_def)

text \<open>Loops that only talk to the transport, or only reset the progress maps.\<close>

lemma fold_send_frame:
  assumes "\<And>p n. f p n = n\<lparr>transport := transport (f p n)\<rparr>"
  shows "fold f ps n = n\<lparr>transport := transport (fold f ps n)\<rparr>"
proof (induction ps arbitrary: n)
  case (Cons p ps)
  have "fold f ps (f p n) = (n\<lparr>transport := transport (f p n)\<rparr>)\<lparr>transport := transport (fold f ps (f p n))\<rparr>"
    using Cons [of "f p n"] assms [of p n] by metis
  then show ?case by simp
qed simp

lemma request_votes_frame:
  "fold (request_vote i trm) ps n = n\<lparr>transport := transport (fold (request_vote i trm) ps n)\<rparr>"
  by (rule fold_send_frame) (simp add: request_vote_def send_def)

lemma replicate_frame: "fold replicate_to ps n = n\<lparr>transport := transport (fold replicate_to ps n)\<rparr>"
  by (rule fold_send_frame) (simp add: replicate_to_def send_def Let_def)

definition progress_only :: "'sm node \<Rightarrow> 'sm node \<Rightarrow> bool" where
  "progress_only n n' \<longleftrightarrow>
     n' = n\<lparr>next_index := next_index n', match_index := match_index n', snapshot_offsets := snapshot_offsets n'\<rparr>"

lemma progress_only_trans: "progress_only a b \<Longrightarrow> progress_only b c \<Longrightarrow> progress_only a c"
proof -
  have set: "progress_only a (a\<lparr>next_index := x, match_index := y, snapshot_offsets := z\<rparr>)" for a :: "'sm node" and x y z
    by (simp add: progress_only_def)
  assume "progress_only a b" "progress_only b c"
  then obtain x y z x' y' z' where "b = a\<lparr>next_index := x, match_index := y, snapshot_offsets := z\<rparr>"
    "c = b\<lparr>next_index := x', match_index := y', snapshot_offsets := z'\<rparr>"
    unfolding progress_only_def by blast
  then have "c = a\<lparr>next_index := x', match_index := y', snapshot_offsets := z'\<rparr>" by simp
  then show ?thesis using set by simp
qed

lemma reset_progress_frame: "progress_only n (fold (reset_progress i) ps n)"
proof (induction ps arbitrary: n)
  case Nil
  show ?case by (simp add: progress_only_def)
next
  case (Cons p ps)
  have "progress_only n (reset_progress i p n)" by (simp add: progress_only_def reset_progress_def)
  with Cons [of "reset_progress i p n"] show ?case by (simp add: progress_only_trans)
qed

lemma follow_simps [simp]:
  "me (follow l trm t n) = me n" "state (follow l trm t n) = Follower"
  "current_term (follow l trm t n) = (if current_term n < trm then trm else current_term n)"
  "voted_for (follow l trm t n) = (if current_term n < trm then None else voted_for n)"
  "ps_current_term (persistent (follow l trm t n)) =
     (if current_term n < trm then trm else ps_current_term (persistent n))"
  "ps_voted_for (persistent (follow l trm t n)) =
     (if current_term n < trm then None else ps_voted_for (persistent n))"
  "commit_index (follow l trm t n) = commit_index n" "last_applied (follow l trm t n) = last_applied n"
  "n_log (follow l trm t n) = n_log n" "cluster_config (follow l trm t n) = cluster_config n"
  "snapshot_config (follow l trm t n) = snapshot_config n" "known_leader_id (follow l trm t n) = Some l"
  "pending_snap (follow l trm t n) = (if current_term n < trm then None else pending_snap n)"
  "applied_command_results (follow l trm t n) = applied_command_results n"
  "state_machine (follow l trm t n) = state_machine n"
  "read_domain (follow l trm t n) = read_domain n"
  by (cases "state n"; simp add: follow_def Let_def)+

section \<open>Terms, votes and roles\<close>

definition synced :: "'sm node \<Rightarrow> bool" where
  "synced n \<longleftrightarrow> ps_current_term (persistent n) = current_term n \<and> ps_voted_for (persistent n) = voted_for n"

text \<open>The term never falls, and within a term a vote that was cast stays.\<close>

definition vote_step :: "'sm node \<Rightarrow> 'sm node \<Rightarrow> bool" where
  "vote_step n n' \<longleftrightarrow>
     me n' = me n \<and> current_term n \<le> current_term n' \<and>
     (current_term n' = current_term n \<and> voted_for n \<noteq> None \<longrightarrow> voted_for n' = voted_for n) \<and>
     (synced n \<longrightarrow> synced n')"

text \<open>Nobody becomes candidate or leader, and a candidate gains no vote.\<close>

definition no_rise :: "'sm node \<Rightarrow> 'sm node \<Rightarrow> bool" where
  "no_rise n n' \<longleftrightarrow>
     (state n' = Leader \<longrightarrow> state n = Leader \<and> current_term n' = current_term n) \<and>
     (state n' = Candidate \<longrightarrow>
        state n = Candidate \<and> current_term n' = current_term n \<and> granted_votes n' \<subseteq> granted_votes n)"

definition tame :: "'sm node \<Rightarrow> 'sm node \<Rightarrow> bool" where
  "tame n n' \<longleftrightarrow> vote_step n n' \<and> no_rise n n'"

lemma vote_step_trans: "vote_step a b \<Longrightarrow> vote_step b c \<Longrightarrow> vote_step a c"
  by (simp add: vote_step_def)

lemma tame_refl [simp, intro]: "tame n n"
  by (simp add: tame_def vote_step_def no_rise_def)

lemma tame_trans: "tame a b \<Longrightarrow> tame b c \<Longrightarrow> tame a c"
  unfolding tame_def using vote_step_trans [of a b c] by (auto simp: no_rise_def)

lemma calm_tame: "calm n n' \<Longrightarrow> tame n n'"
  by (auto simp: calm_def tame_def vote_step_def no_rise_def synced_def)

lemma steps_tame: "local_steps env n n' \<Longrightarrow> tame n n'"
  by (intro calm_tame local_steps_calm)

lemma step_down_tame: "current_term n < trm \<Longrightarrow> tame n (step_down trm t n)"
  by (simp add: tame_def vote_step_def no_rise_def synced_def)

lemma follow_tame: "tame n (follow l trm t n)"
  by (simp add: tame_def vote_step_def no_rise_def synced_def)

text \<open>Updates of fields that carry neither vote nor role.\<close>

lemma tame_updates [simp]:
  "tame n (m\<lparr>current_millis := t\<rparr>) = tame n m" "tame (n\<lparr>current_millis := t\<rparr>) m = tame n m"
  "tame n (m\<lparr>n_log := l\<rparr>) = tame n m" "tame (n\<lparr>n_log := l\<rparr>) m = tame n m"
  "tame n (m\<lparr>commit_index := i\<rparr>) = tame n m" "tame (n\<lparr>commit_index := i\<rparr>) m = tame n m"
  "tame n (m\<lparr>last_successful_leader_sync_millis := s\<rparr>) = tame n m"
  "tame n (m\<lparr>pending_snap := p\<rparr>) = tame n m" "tame (n\<lparr>pending_snap := p\<rparr>) m = tame n m"
  "tame n (m\<lparr>snapshot_offsets := o'\<rparr>) = tame n m" "tame (n\<lparr>snapshot_offsets := o'\<rparr>) m = tame n m"
  "tame n (m\<lparr>last_follower_contact_millis := c\<rparr>) = tame n m"
  "tame (n\<lparr>last_follower_contact_millis := c\<rparr>) m = tame n m"
  "tame n (m\<lparr>transport := cs\<rparr>) = tame n m" "tame (n\<lparr>transport := cs\<rparr>) m = tame n m"
  "tame n (m\<lparr>read_domain := d\<rparr>) = tame n m" "tame (n\<lparr>read_domain := d\<rparr>) m = tame n m"
  "tame n (m\<lparr>match_index := b\<rparr>) = tame n m" "tame (n\<lparr>match_index := b\<rparr>) m = tame n m"
  "tame n (m\<lparr>next_index := a\<rparr>) = tame n m" "tame (n\<lparr>next_index := a\<rparr>) m = tame n m"
  "tame n (m\<lparr>rand_state := r\<rparr>) = tame n m" "tame n (m\<lparr>timeout_at_millis := e\<rparr>) = tame n m"
  by (simp_all add: tame_def vote_step_def no_rise_def synced_def)

section \<open>What each handler does\<close>

lemma append_matched:
  fixes n t req
  defines "f \<equiv> follow (aq_leader_id req) (aq_term req) t (n\<lparr>current_millis := t\<rparr>)"
  assumes "\<not> aq_term req < current_term n"
    and "\<not> leader_refused (n\<lparr>current_millis := t\<rparr>) (aq_leader_id req) (aq_term req)"
    and "normalize_append (n_log n) req = Inr (prev, prev_term, es)" and "\<not> last_index (n_log n) < prev"
    and "\<not> (0 < prev \<and> term_at (n_log n) prev \<noteq> prev_term)"
  shows "handle_append_entries env req t n = Option.bind
      (if commit_index n < min (aq_leader_commit req) (prev + length es)
       then apply_committed env
         (f\<lparr>n_log := merge_entries (n_log n) (prev + 1) es,
            commit_index := min (aq_leader_commit req) (prev + length es)\<rparr>)
       else Some (f\<lparr>n_log := merge_entries (n_log n) (prev + 1) es\<rparr>))
      (\<lambda>n3. let n4 = n3\<lparr>last_successful_leader_sync_millis := Some t\<rparr>
        in Some (append_response n4 True (prev + length es), n4))"
proof -
  let ?c = "min (aq_leader_commit req) (prev + length es)"
  have c: "(if aq_leader_commit req < prev + length es then aq_leader_commit req else prev + length es) = ?c"
    and g: "commit_index n < aq_leader_commit req \<and> commit_index n < ?c \<longleftrightarrow> commit_index n < ?c"
    by (auto simp: min_def)
  have m: "(0 < prev \<and> term_at (n_log n) prev \<noteq> prev_term) = False" using assms(6) by blast
  show ?thesis
    using assms(2-5) by (simp add: handle_append_entries_def Let_def f_def c g m del: min_less_iff_conj)
qed

lemma append_cases [consumes 1, case_names stale refused covered gap mismatch merged]:
  assumes "handle_append_entries env req t n = Some (resp, n')"
  obtains "aq_term req < current_term n" "n' = n\<lparr>current_millis := t\<rparr>" "resp = append_response n' False 0"
  | "current_term n \<le> aq_term req" "leader_refused (n\<lparr>current_millis := t\<rparr>) (aq_leader_id req) (aq_term req)"
    "n' = n\<lparr>current_millis := t\<rparr>" "resp = append_response n' False (last_index (n_log n))"
  | ok m where "current_term n \<le> aq_term req" "normalize_append (n_log n) req = Inl (ok, m)"
    "n' = follow (aq_leader_id req) (aq_term req) t (n\<lparr>current_millis := t\<rparr>)" "resp = append_response n' ok m"
  | prev prev_term es where "current_term n \<le> aq_term req"
    "normalize_append (n_log n) req = Inr (prev, prev_term, es)" "last_index (n_log n) < prev"
    "n' = follow (aq_leader_id req) (aq_term req) t (n\<lparr>current_millis := t\<rparr>)"
    "resp = append_response n' False (last_index (n_log n))"
  | prev prev_term es where "current_term n \<le> aq_term req"
    "normalize_append (n_log n) req = Inr (prev, prev_term, es)"
    "0 < prev" "prev \<le> last_index (n_log n)" "term_at (n_log n) prev \<noteq> prev_term"
    "n' = follow (aq_leader_id req) (aq_term req) t (n\<lparr>current_millis := t\<rparr>)"
    "resp = append_response n' False prev"
  | prev prev_term es n2 n3 where "current_term n \<le> aq_term req"
    "normalize_append (n_log n) req = Inr (prev, prev_term, es)" "prev \<le> last_index (n_log n)"
    "prev = 0 \<or> term_at (n_log n) prev = prev_term"
    "n2 = (follow (aq_leader_id req) (aq_term req) t (n\<lparr>current_millis := t\<rparr>))\<lparr>n_log := merge_entries (n_log n) (prev + 1) es\<rparr>"
    "commit_index n < min (aq_leader_commit req) (prev + length es) \<and>
       apply_committed env (n2\<lparr>commit_index := min (aq_leader_commit req) (prev + length es)\<rparr>) = Some n3 \<or>
     min (aq_leader_commit req) (prev + length es) \<le> commit_index n \<and> n3 = n2"
    "n' = n3\<lparr>last_successful_leader_sync_millis := Some t\<rparr>"
    "resp = append_response n' True (prev + length es)"
proof -
  let ?n = "n\<lparr>current_millis := t\<rparr>"
  let ?f = "follow (aq_leader_id req) (aq_term req) t ?n"
  note def = handle_append_entries_def [of env req t n]
  have fin: "resp = r \<and> n' = m" if "handle_append_entries env req t n = Some (r, m)" for r m
    using that assms by simp
  show thesis
  proof (cases "aq_term req < current_term n")
    case True
    then have "handle_append_entries env req t n = Some (append_response ?n False 0, ?n)" by (simp add: def Let_def)
    from fin [OF this] True that(1) show thesis by blast
  next
    case fresh: False
    then have le: "current_term n \<le> aq_term req" by simp
    show thesis
    proof (cases "leader_refused ?n (aq_leader_id req) (aq_term req)")
      case True
      with fresh have "handle_append_entries env req t n = Some (append_response ?n False (last_index (n_log n)), ?n)"
        by (simp add: def Let_def)
      from fin [OF this] le True that(2) show thesis by blast
    next
      case followed: False
      show thesis
      proof (cases "normalize_append (n_log n) req")
        case (Inl r)
        obtain ok m where r: "normalize_append (n_log n) req = Inl (ok, m)" using Inl by (cases r) auto
        with fresh followed have "handle_append_entries env req t n = Some (append_response ?f ok m, ?f)"
          by (simp add: def Let_def)
        from fin [OF this] le r that(3) show thesis by blast
      next
        case (Inr r)
        obtain prev prev_term es where r: "normalize_append (n_log n) req = Inr (prev, prev_term, es)"
          using Inr by (cases r) auto
        show thesis
        proof (cases "last_index (n_log n) < prev")
          case True
          with fresh followed r have "handle_append_entries env req t n =
              Some (append_response ?f False (last_index (n_log n)), ?f)"
            by (simp add: def Let_def)
          from fin [OF this] le r True that(4) show thesis by blast
        next
          case present: False
          show thesis
          proof (cases "0 < prev \<and> term_at (n_log n) prev \<noteq> prev_term")
            case True
            with fresh followed r present have "handle_append_entries env req t n =
                Some (append_response ?f False prev, ?f)"
              by (simp add: def Let_def)
            from fin [OF this] le r present True that(5) show thesis by (simp add: not_less)
          next
            case match: False
            let ?n2 = "?f\<lparr>n_log := merge_entries (n_log n) (prev + 1) es\<rparr>"
            let ?c = "min (aq_leader_commit req) (prev + length es)"
            note append_matched [OF fresh followed r present match, of env]
            with assms obtain n3
              where n3: "(if commit_index n < ?c then apply_committed env (?n2\<lparr>commit_index := ?c\<rparr>) else Some ?n2) = Some n3"
                and n': "n' = n3\<lparr>last_successful_leader_sync_millis := Some t\<rparr>"
                  "resp = append_response n' True (prev + length es)"
              by (auto simp: Let_def bind_eq_Some_conv simp del: min_less_iff_conj)
            have "commit_index n < ?c \<and> apply_committed env (?n2\<lparr>commit_index := ?c\<rparr>) = Some n3 \<or>
                ?c \<le> commit_index n \<and> n3 = ?n2"
              using n3 by (cases "commit_index n < ?c") (simp_all del: min_less_iff_conj)
            from that(6) [OF le r _ _ refl this n'] present match show thesis by simp
          qed
        qed
      qed
    qed
  qed
qed

lemma append_tame:
  assumes "handle_append_entries env req t n = Some (resp, n')"
  shows "tame n n'"
proof -
  have f: "tame n (follow (aq_leader_id req) (aq_term req) t (n\<lparr>current_millis := t\<rparr>))"
    using follow_tame [of "n\<lparr>current_millis := t\<rparr>"] by simp
  from assms show ?thesis
  proof (cases rule: append_cases)
    case (merged prev prev_term es n2 n3)
    have "tame n n2" using f by (simp add: merged(5))
    moreover have "tame n2 n3"
      using merged(6)
    proof (elim disjE conjE)
      assume "apply_committed env (n2\<lparr>commit_index := min (aq_leader_commit req) (prev + length es)\<rparr>) = Some n3"
      from steps_tame [OF apply_committed_steps [OF this]] show ?thesis by simp
    qed simp
    ultimately show ?thesis by (auto simp: merged(7) intro: tame_trans)
  qed (use f in simp_all)
qed

lemma install_membership_frame:
  assumes "install_membership i envelope n = Some n'"
  shows "envelope_configuration envelope = Some (cluster_config n')" "snapshot_config n' = cluster_config n'"
    "n_log n' = n_log n" "commit_index n' = commit_index n" "last_applied n' = last_applied n" "calm n n'"
    "applied_command_results n' = applied_command_results n" "state_machine n' = state_machine n"
proof -
  from assms obtain c where c: "envelope_configuration envelope = Some c" by (auto simp: install_membership_def bind_eq_Some_conv)
  have "envelope_configuration envelope = Some (cluster_config n') \<and> snapshot_config n' = cluster_config n' \<and>
    n_log n' = n_log n \<and> commit_index n' = commit_index n \<and> last_applied n' = last_applied n \<and> calm n n' \<and>
    applied_command_results n' = applied_command_results n \<and> state_machine n' = state_machine n"
    using assms by (cases "contains c (my_id n)") (auto simp: install_membership_def c Let_def persistent_defs calm_def)
  then show "envelope_configuration envelope = Some (cluster_config n')" "snapshot_config n' = cluster_config n'"
    "n_log n' = n_log n" "commit_index n' = commit_index n" "last_applied n' = last_applied n" "calm n n'"
    "applied_command_results n' = applied_command_results n" "state_machine n' = state_machine n"
    by blast+
qed

lemma tame_machine [simp]:
  "tame n (m\<lparr>state_machine := x\<rparr>) = tame n m" "tame (n\<lparr>state_machine := x\<rparr>) m = tame n m"
  "tame n (m\<lparr>last_applied := i\<rparr>) = tame n m" "tame (n\<lparr>last_applied := i\<rparr>) m = tame n m"
  by (simp_all add: tame_def vote_step_def no_rise_def synced_def)

text \<open>A completed snapshot stream, and a refused one.\<close>

lemma install_stream_cases [consumes 1, case_names refused installed]:
  assumes "install_stream env t snap n = Some (ok, n')"
  obtains "ok = False" "n' = n\<lparr>pending_snap := None\<rparr>"
  | machine n1 n2 where "ok = True"
    "n1 = n\<lparr>state_machine := machine,
        n_log := log_install_snapshot (n_log n) (sn_last_included_index snap) (sn_last_included_term snap) (sn_data snap),
        commit_index := sn_last_included_index snap, last_applied := sn_last_included_index snap\<rparr>"
    "(case decode_snapshot_payload (sn_data snap) of
        Some e \<Rightarrow> if env_current_members e = [] then n2 = n1
                  else install_membership (sn_last_included_index snap) e n1 = Some n2
      | None \<Rightarrow> n2 = n1)"
    "n' = n2\<lparr>pending_snap := None, last_successful_leader_sync_millis := Some t\<rparr>"
proof -
  let ?d = "case decode_snapshot_payload (sn_data snap) of
      Some e \<Rightarrow> env_state_machine_snapshot e | None \<Rightarrow> sn_data snap"
  let ?r = "case state_machine n of None \<Rightarrow> Inr None
      | Some machine \<Rightarrow> (case sm_restore env machine ?d of Inl e \<Rightarrow> Inl e | Inr m \<Rightarrow> Inr (Some m))"
  show thesis
  proof (cases ?r)
    case (Inl e)
    then have "install_stream env t snap n = Some (False, n\<lparr>pending_snap := None\<rparr>)"
      by (simp add: install_stream_def Let_def)
    with assms that(1) show thesis by simp
  next
    case (Inr machine)
    with assms obtain n2 where "ok = True"
      "(case decode_snapshot_payload (sn_data snap) of
          Some e \<Rightarrow> if env_current_members e = []
            then Some (n\<lparr>state_machine := machine,
              n_log := log_install_snapshot (n_log n) (sn_last_included_index snap) (sn_last_included_term snap) (sn_data snap),
              commit_index := sn_last_included_index snap, last_applied := sn_last_included_index snap\<rparr>)
            else install_membership (sn_last_included_index snap) e (n\<lparr>state_machine := machine,
              n_log := log_install_snapshot (n_log n) (sn_last_included_index snap) (sn_last_included_term snap) (sn_data snap),
              commit_index := sn_last_included_index snap, last_applied := sn_last_included_index snap\<rparr>)
        | None \<Rightarrow> Some (n\<lparr>state_machine := machine,
              n_log := log_install_snapshot (n_log n) (sn_last_included_index snap) (sn_last_included_term snap) (sn_data snap),
              commit_index := sn_last_included_index snap, last_applied := sn_last_included_index snap\<rparr>)) = Some n2"
      "n' = n2\<lparr>pending_snap := None, last_successful_leader_sync_millis := Some t\<rparr>"
      by (auto simp: install_stream_def Let_def bind_eq_Some_conv)
    then show thesis by (intro that(2) [OF _ refl]) (auto split: option.splits if_splits)
  qed
qed

lemma install_stream_tame:
  assumes "install_stream env t snap n = Some (ok, n')"
  shows "tame n n'"
  using assms
proof (cases rule: install_stream_cases)
  case (installed machine n1 n2)
  have "tame n1 n2"
    using installed(3) calm_tame [OF install_membership_frame(6)] by (auto split: option.splits if_splits)
  then show ?thesis by (simp add: installed(2,4))
qed simp_all

lemma snapshot_tame:
  assumes "handle_install_snapshot env req t n = Some (resp, n')"
  shows "tame n n'"
proof -
  let ?f = "follow (iq_leader_id req) (iq_term req) t (n\<lparr>current_millis := t\<rparr>)"
  have f: "tame n ?f" using follow_tame [of "n\<lparr>current_millis := t\<rparr>"] by simp
  consider "n' = n\<lparr>current_millis := t\<rparr>" | p where "n' = ?f\<lparr>pending_snap := p\<rparr>"
    | p snap ok where "install_stream env t snap (?f\<lparr>pending_snap := p\<rparr>) = Some (ok, n')"
    using assms
    by (auto simp: handle_install_snapshot_def receive_snapshot_def Let_def bind_eq_Some_conv split: if_splits chunk.splits)
  then show ?thesis
  proof cases
    case 3
    from install_stream_tame [OF this] f show ?thesis by (simp add: tame_trans)
  qed (use f in simp_all)
qed

lemma record_progress_tame [simp]:
  "tame n (record_replication_progress p i m) = tame n m" "tame n (back_off p m) = tame n m"
  by (simp_all add: record_replication_progress_def back_off_def Let_def split: option.splits)

lemma record_progress_simps [simp]:
  "state (record_replication_progress p i n) = state n" "n_log (record_replication_progress p i n) = n_log n"
  "snapshot_config (record_replication_progress p i n) = snapshot_config n"
  "cluster_config (record_replication_progress p i n) = cluster_config n"
  "commit_index (record_replication_progress p i n) = commit_index n"
  "last_applied (record_replication_progress p i n) = last_applied n"
  by (simp_all add: record_replication_progress_def Let_def)

text \<open>Responses: at most a step down, an update of the progress maps, and small steps.\<close>

lemma append_response_cases [consumes 1, case_names same down progress]:
  assumes "handle_append_entries_response env p resp t n = Some n'"
  obtains "n' = n\<lparr>current_millis := t\<rparr> \<or> n' = back_off p (n\<lparr>current_millis := t\<rparr>)"
  | "current_term n < as_term resp" "n' = step_down (as_term resp) t (n\<lparr>current_millis := t\<rparr>)"
  | m where "state n = Leader" "as_term resp = current_term n" "as_success resp"
    "as_match_index resp \<le> last_index (n_log n)"
    "m = (record_replication_progress p (as_match_index resp) (n\<lparr>current_millis := t\<rparr>))
      \<lparr>last_follower_contact_millis := bm_insert p t (last_follower_contact_millis n)\<rparr>"
    "local_steps env m n'"
proof -
  let ?n = "n\<lparr>current_millis := t\<rparr>"
  let ?r = "record_replication_progress p (as_match_index resp) ?n"
  let ?m = "?r\<lparr>last_follower_contact_millis := bm_insert p t (last_follower_contact_millis n)\<rparr>"
  have r: "last_follower_contact_millis ?r = last_follower_contact_millis n"
    by (simp add: record_replication_progress_def Let_def)
  consider "n' = ?n" | "n' = back_off p ?n" | "current_term n < as_term resp" "n' = step_down (as_term resp) t ?n"
    | k where "state n = Leader" "as_term resp = current_term n" "as_success resp"
        "as_match_index resp \<le> last_index (n_log n)" "advance_commit_index env ?m = Some k"
        "maybe_auto_finalize_joint_configuration env k = Some n'"
    using assms
    by (auto simp: handle_append_entries_response_def Let_def bind_eq_Some_conv r split: if_splits)
  then show thesis
  proof cases
    case (4 k)
    have "local_steps env ?m n'"
      using advance_commit_index_steps [OF 4(5)] maybe_auto_finalize_steps [OF 4(6)] 4(1) by (simp add: steps_trans)
    with 4(1-4) show thesis by (intro that(3) [OF _ _ _ _ refl]) simp_all
  qed (use that(1,2) in auto)
qed

lemma append_response_tame:
  assumes "handle_append_entries_response env p resp t n = Some n'"
  shows "tame n n'"
  using assms
proof (cases rule: append_response_cases)
  case down
  with step_down_tame [of "n\<lparr>current_millis := t\<rparr>" "as_term resp" t] show ?thesis by simp
next
  case (progress m)
  have "tame n m" by (simp add: progress(5))
  with steps_tame [OF progress(6)] show ?thesis by (blast intro: tame_trans)
qed auto

lemma snapshot_response_cases [consumes 1, case_names same down progress]:
  assumes "handle_install_snapshot_response env p resp off fin t n = Some n'"
  obtains c where "n' = n\<lparr>current_millis := t, snapshot_offsets := c\<rparr>"
  | "current_term n < is_term resp" "n' = step_down (is_term resp) t (n\<lparr>current_millis := t\<rparr>)"
  | m c where "state n = Leader" "is_term resp = current_term n" "is_success resp" "fin" "is_done resp"
    "is_last_included_index resp \<le> last_index (n_log n)"
    "m = (record_replication_progress p (is_last_included_index resp)
        (n\<lparr>current_millis := t, snapshot_offsets := bm_insert p off (snapshot_offsets n)\<rparr>))\<lparr>snapshot_offsets := c\<rparr>"
    "local_steps env m n'"
proof -
  let ?n = "n\<lparr>current_millis := t\<rparr>"
  let ?n1 = "n\<lparr>current_millis := t, snapshot_offsets := bm_insert p off (snapshot_offsets n)\<rparr>"
  let ?r = "record_replication_progress p (is_last_included_index resp) ?n1"
  let ?m = "?r\<lparr>snapshot_offsets := bm_insert p 0 (snapshot_offsets ?r)\<rparr>"
  note def = handle_install_snapshot_response_def [of env p resp off fin t n]
  obtain a where a: "accepts_replication_response env ?n p (is_peer_id resp) = Some a"
    using assms by (cases "accepts_replication_response env ?n p (is_peer_id resp)") (simp_all add: def)
  show thesis
  proof (cases "a \<and> current_term n < is_term resp")
    case True
    with assms a have "n' = step_down (is_term resp) t ?n" by (simp add: def)
    with True that(2) show thesis by blast
  next
    case down: False
    show thesis
    proof (cases "a \<and> state n = Leader \<and> is_term resp = current_term n \<and> is_success resp \<and>
        is_last_included_index resp \<le> last_index (n_log n)")
      case True
      show thesis
      proof (cases "fin \<and> is_done resp")
        case last: True
        with True assms a have "advance_commit_index env ?m = Some n'"
          by (simp add: handle_install_snapshot_response_def Let_def)
        from advance_commit_index_steps [OF this] True last show thesis
          by (intro that(3) [OF _ _ _ _ _ _ refl]) simp_all
      next
        case False
        with True assms a have "n' = ?n1" by (auto simp: def Let_def)
        then show thesis by (rule that(1))
      qed
    next
      case False
      with down assms a have "n' = n\<lparr>current_millis := t, snapshot_offsets := snapshot_offsets n'\<rparr>"
        by (auto simp: def Let_def split: if_splits)
      then show thesis by (rule that(1))
    qed
  qed
qed

lemma snapshot_response_tame:
  assumes "handle_install_snapshot_response env p resp off fin t n = Some n'"
  shows "tame n n'"
  using assms
proof (cases rule: snapshot_response_cases)
  case down
  with step_down_tame [of "n\<lparr>current_millis := t\<rparr>" "is_term resp" t] show ?thesis by simp
next
  case (progress m c)
  have "tame n m" by (simp add: progress(7))
  with steps_tame [OF progress(8)] show ?thesis by (blast intro: tame_trans)
qed auto

lemma heartbeat_steps:
  assumes "broadcast_heartbeat env t n = Some n'"
  obtains cs where "local_steps env (n\<lparr>current_millis := t, transport := cs\<rparr>) n'"
proof (cases "state n = Leader")
  case True
  let ?n = "send (TSetMillis t) (n\<lparr>current_millis := t\<rparr>)"
  from True assms obtain ps where
    "maybe_promote_pending_joiners env t (send THeartbeatComplete (fold replicate_to ps ?n)) = Some n'"
    by (auto simp: broadcast_heartbeat_def Let_def bind_eq_Some_conv send_def)
  from promote_steps [OF this] have *: "local_steps env (send THeartbeatComplete (fold replicate_to ps ?n)) n'" .
  have "send THeartbeatComplete (fold replicate_to ps ?n) =
      n\<lparr>current_millis := t, transport := transport (fold replicate_to ps ?n) @ [THeartbeatComplete]\<rparr>"
    by (subst replicate_frame) (simp add: send_def)
  with * that show thesis by metis
next
  case False
  with assms have "n' = n\<lparr>current_millis := t, transport := transport n @ [TSetMillis t]\<rparr>"
    by (simp add: broadcast_heartbeat_def send_def)
  with that [of "transport n @ [TSetMillis t]"] show thesis by simp
qed

lemma begin_read_steps:
  assumes "begin_read env q t d n = Some (r, n')"
  obtains x where "local_steps env (n\<lparr>read_domain := x\<rparr>) n'"
proof -
  let ?m = "\<lambda>x. n\<lparr>read_domain := Some x, current_millis := t,
      n_log := log_append (n_log n) [entry_noop (current_term n) (my_id n)]\<rparr>"
  consider "n' = n" | x where "state n = Leader" "advance_commit_index env (?m x) = Some n'"
    using assms
    by (auto simp: begin_read_def begin_read_with_def Let_def bind_eq_Some_conv split: if_splits option.splits sum.splits)
  then show thesis
  proof cases
    case 1
    with that [of "read_domain n"] show thesis by simp
  next
    case (2 x)
    have "local_step env (n\<lparr>read_domain := Some x\<rparr>) (?m x)"
      using append [of "n\<lparr>read_domain := Some x\<rparr>" "entry_noop (current_term n) (my_id n)" env t] 2(1)
      by (simp add: entry_noop_def)
    with advance_commit_index_steps [OF 2(2)] 2(1) that [of "Some x"] show thesis
      by (simp add: steps_trans [OF steps_one])
  qed
qed

section \<open>Elections\<close>

text \<open>Agreement on everything the log invariants read.\<close>

definition same_log :: "'sm node \<Rightarrow> 'sm node \<Rightarrow> bool" where
  "same_log n m \<longleftrightarrow>
     me m = me n \<and> n_log m = n_log n \<and> snapshot_config m = snapshot_config n \<and> cluster_config m = cluster_config n \<and>
     commit_index m = commit_index n \<and> last_applied m = last_applied n \<and>
     applied_command_results m = applied_command_results n \<and>
     (pending_snap m = pending_snap n \<or> pending_snap m = None)"

lemma same_log_effective: "same_log n m \<Longrightarrow> effective_configuration env m = effective_configuration env n"
  by (simp add: same_log_def effective_configuration_def configuration_at_def)

lemma become_leader_cases:
  assumes "become_leader env t n = Some n'"
  obtains m where "same_log n m" "state m = Leader" "current_term m = current_term n" "voted_for m = voted_for n"
    "persistent m = persistent n" "local_steps env m n'"
proof -
  let ?n = "n\<lparr>state := Leader, known_leader_id := Some (my_id n), last_successful_leader_sync_millis := None,
      current_millis := t, granted_votes := {}, last_follower_contact_millis := bm_empty\<rparr>"
  from assms obtain c where "effective_configuration env ?n = Some c"
    and a: "advance_commit_index env
      ((fold (reset_progress (last_index (n_log n))) (all_members c) ?n)
        \<lparr>n_log := log_append (n_log (fold (reset_progress (last_index (n_log n))) (all_members c) ?n))
          [entry_noop (current_term (fold (reset_progress (last_index (n_log n))) (all_members c) ?n))
             (my_id (fold (reset_progress (last_index (n_log n))) (all_members c) ?n))]\<rparr>) = Some n'"
    by (auto simp: become_leader_def Let_def bind_eq_Some_conv)
  define m where "m = fold (reset_progress (last_index (n_log n))) (all_members c) ?n"
  have "progress_only ?n m" unfolding m_def by (rule reset_progress_frame)
  then have m: "m = ?n\<lparr>next_index := next_index m, match_index := match_index m, snapshot_offsets := snapshot_offsets m\<rparr>"
    by (simp add: progress_only_def)
  have f: "same_log n m" "state m = Leader" "current_term m = current_term n" "voted_for m = voted_for n"
    "persistent m = persistent n"
    by (subst m, simp add: same_log_def)+
  let ?a = "m\<lparr>n_log := log_append (n_log m) [entry_noop (current_term m) (my_id m)]\<rparr>"
  from a have "advance_commit_index env ?a = Some n'" by (simp add: m_def)
  then have "local_steps env ?a n'" by (rule advance_commit_index_steps) (simp add: f)
  moreover have "local_step env m ?a"
    using append [OF f(2), of "entry_noop (current_term m) (my_id m)" env "current_millis m"] by (simp add: entry_noop_def)
  ultimately show thesis using f by (intro that [of m]) (blast intro: steps_trans steps_one)+
qed

lemma become_leader_calm:
  assumes "become_leader env t n = Some n'"
  shows "me n' = me n" "current_term n' = current_term n" "voted_for n' = voted_for n" "synced n \<Longrightarrow> synced n'"
    "state n' \<noteq> Candidate"
proof -
  obtain m where m: "same_log n m" "state m = Leader" "current_term m = current_term n" "voted_for m = voted_for n"
    "persistent m = persistent n" "local_steps env m n'" by (rule become_leader_cases [OF assms])
  from local_steps_calm [OF m(6)] m(1-5)
  show "me n' = me n" "current_term n' = current_term n" "voted_for n' = voted_for n" "synced n \<Longrightarrow> synced n'"
    "state n' \<noteq> Candidate"
    by (auto simp: calm_def same_log_def synced_def)
qed

definition candidate_of :: "'sm node \<Rightarrow> 'sm node \<Rightarrow> bool" where
  "candidate_of n m \<longleftrightarrow> same_log n m \<and> state m = Candidate \<and> current_term m = current_term n + 1 \<and>
     voted_for m = Some (my_id n) \<and> synced m \<and> granted_votes m = {my_id n} \<and> joining m = joining n"

lemma election_tick:
  "effective_configuration env (send (TSetMillis t) (n\<lparr>current_millis := t\<rparr>)) = effective_configuration env n"
  "joining (send (TSetMillis t) (n\<lparr>current_millis := t\<rparr>)) = joining n"
  "my_id (send (TSetMillis t) (n\<lparr>current_millis := t\<rparr>)) = my_id n"
  by (rule effective_configuration_cong) (simp_all add: send_def)

lemma election_idle:
  assumes "joining n \<or> (\<exists>c. effective_configuration env n = Some c \<and> \<not> is_voter c (my_id n))"
  shows "start_election env t n =
    Some (restart_timeout t (n\<lparr>current_millis := t, transport := transport n @ [TSetMillis t], state := Follower\<rparr>))"
proof -
  have "start_election env t n =
      Some (restart_timeout t ((send (TSetMillis t) (n\<lparr>current_millis := t\<rparr>))\<lparr>state := Follower\<rparr>))"
    using assms by (elim disjE exE conjE) (simp_all add: start_election_def election_tick Let_def)
  then show ?thesis by (simp add: send_def)
qed

lemma election_campaign [consumes 3, case_names overflow campaign]:
  assumes "effective_configuration env n = Some c" "is_voter c (my_id n)" "\<not> joining n"
  obtains "current_term n = U64_MAX" "start_election env t n = None"
  | m where "current_term n \<noteq> U64_MAX" "candidate_of n m"
    "start_election env t n = (if has_joint_majority c {my_id n} then become_leader env t m else Some m)"
proof (cases "current_term n = U64_MAX")
  case True
  have "candidacy t (send (TSetMillis t) (n\<lparr>current_millis := t\<rparr>)) = None"
    using True by (simp add: candidacy_def send_def)
  with True assms that(1) show thesis by (simp add: start_election_def election_tick)
next
  case False
  let ?n = "send (TSetMillis t) (n\<lparr>current_millis := t\<rparr>)"
  obtain n1 where n1: "candidacy t ?n = Some n1" using False by (simp add: candidacy_def send_def)
  have n1c: "candidate_of n n1"
    using n1 by (auto simp: candidacy_def send_def candidate_of_def same_log_def synced_def persistent_defs split: if_splits)
  define m where "m = fold (request_vote (last_index (n_log n1)) (last_term (n_log n1))) (all_members c) n1"
  have m1: "m = n1\<lparr>transport := transport m\<rparr>" unfolding m_def by (rule request_votes_frame)
  have "candidate_of n (n1\<lparr>transport := transport m\<rparr>)"
    using n1c by (simp add: candidate_of_def same_log_def synced_def)
  then have m: "candidate_of n m" using m1 by (rule ssubst [rotated])
  have "same_log n n1" "same_log n m" using n1c m by (simp_all add: candidate_of_def)
  note effm = this [THEN same_log_effective, of env, unfolded assms(1)]
  have g: "granted_votes m = {my_id n}" using m by (simp add: candidate_of_def)
  have won: "has_election_majority env m = Some (has_joint_majority c {my_id n})"
    by (simp add: has_election_majority_def effm g)
  have "start_election env t n = (if has_joint_majority c {my_id n} then become_leader env t m else Some m)"
    unfolding start_election_def Let_def election_tick assms(1) n1 effm(1) bind.bind_lunit if_not_P [OF assms(3)]
      m_def [symmetric] won
    by (simp add: assms(2))
  from that(2) [OF False m this] show thesis .
qed

lemma election_cases [consumes 1, case_names idle lost won]:
  assumes "start_election env t n = Some n'"
  obtains cs where "n' = restart_timeout t (n\<lparr>current_millis := t, transport := cs, state := Follower\<rparr>)"
  | c where "candidate_of n n'" "effective_configuration env n = Some c" "is_voter c (my_id n)"
  | c m where "candidate_of n m" "effective_configuration env n = Some c" "is_voter c (my_id n)"
    "has_joint_majority c {my_id n}" "become_leader env t m = Some n'"
proof (cases "joining n \<or> (\<exists>c. effective_configuration env n = Some c \<and> \<not> is_voter c (my_id n))")
  case True
  from election_idle [OF True, of t] assms that(1) show thesis by simp
next
  case False
  have "effective_configuration env n \<noteq> None"
  proof
    assume "effective_configuration env n = None"
    with assms False show False by (simp add: start_election_def election_tick Let_def)
  qed
  with False obtain c where c: "effective_configuration env n = Some c" "is_voter c (my_id n)" "\<not> joining n" by auto
  then show thesis
  proof (cases rule: election_campaign [where t = t])
    case overflow
    with assms show thesis by simp
  next
    case (campaign m)
    show thesis
    proof (cases "has_joint_majority c {my_id n}")
      case True
      with campaign assms have "become_leader env t m = Some n'" by simp
      with campaign(2) c(1,2) True show thesis by (rule that(3))
    next
      case False
      with campaign assms have "m = n'" by simp
      with campaign(2) c(1,2) show thesis by (intro that(2)) simp_all
    qed
  qed
qed

lemma vote_request_facts:
  assumes "handle_vote_request env req t n = Some (resp, n')"
  shows "tame n n'" "same_log n n'" "vs_peer_id resp = my_id n" "vs_term resp = current_term n'"
    "vote_granted resp \<Longrightarrow> voted_for n' = Some (vq_candidate_id req) \<and> vq_term req = current_term n'"
    "vote_granted resp \<Longrightarrow> log_ok req (n_log n) \<and>
       (\<exists>c. effective_configuration env n = Some c \<and> is_voter c (my_id n) \<and> is_voter c (vq_candidate_id req))"
proof -
  let ?n1 = "n\<lparr>current_millis := t\<rparr>"
  define m where "m = (if current_term ?n1 < vq_term req then step_down (vq_term req) t ?n1 else ?n1)"
  have m: "tame n m" "same_log n m" "vq_term req \<le> current_term m"
    using step_down_tame [of ?n1 "vq_term req" t] by (auto simp: m_def same_log_def)
  have eff: "effective_configuration env m = effective_configuration env n"
    using m(2) by (rule same_log_effective)
  from assms obtain b where b: "vote_eligible env req m = Some b"
    unfolding handle_vote_request_def Let_def m_def [symmetric] by (auto simp: bind_eq_Some_conv)
  define g where "g \<longleftrightarrow> b \<and> (voted_for m = None \<or> voted_for m = Some (vq_candidate_id req)) \<and> log_ok req (n_log m)"
  have n': "n' = (if g then grant_vote req t m else m)"
    "resp = \<lparr>vs_peer_id = my_id n', vs_term = current_term n', vote_granted = g\<rparr>"
    using assms b unfolding handle_vote_request_def Let_def m_def [symmetric] by (auto simp: g_def)
  have el: "vq_term req = current_term m \<and> (\<exists>c. effective_configuration env n = Some c \<and> is_voter c (my_id n) \<and>
      is_voter c (vq_candidate_id req))" if b
    using b that m eff by (auto simp: vote_eligible_def bind_eq_Some_conv same_log_def split: if_splits)
  have "tame m n'"
    using g_def by (auto simp: n'(1) grant_vote_def tame_def vote_step_def no_rise_def synced_def persistent_defs)
  with m(1) show "tame n n'" by (rule tame_trans)
  show same: "same_log n n'" using m(2) by (simp add: n'(1) grant_vote_def same_log_def)
  then show "vs_peer_id resp = my_id n" by (simp add: n'(2) same_log_def)
  show "vs_term resp = current_term n'" by (simp add: n'(2))
  show "vote_granted resp \<Longrightarrow> voted_for n' = Some (vq_candidate_id req) \<and> vq_term req = current_term n'"
    using el g_def by (simp add: n' grant_vote_def)
  show "vote_granted resp \<Longrightarrow> log_ok req (n_log n) \<and>
       (\<exists>c. effective_configuration env n = Some c \<and> is_voter c (my_id n) \<and> is_voter c (vq_candidate_id req))"
    using el m(2) g_def by (simp add: n'(2) same_log_def)
qed

lemma vote_response_cases [consumes 1, case_names same down counted won]:
  assumes "handle_vote_response env p resp t n = Some n'"
  obtains "n' = n\<lparr>current_millis := t\<rparr>"
  | "current_term n < vs_term resp" "n' = step_down (vs_term resp) t (n\<lparr>current_millis := t\<rparr>)"
  | c where "state n = Candidate" "vs_term resp = current_term n" "vote_granted resp"
    "effective_configuration env n = Some c" "is_voter c p"
    "n' = n\<lparr>current_millis := t, granted_votes := insert p (granted_votes n)\<rparr>"
  | c where "state n = Candidate" "vs_term resp = current_term n" "vote_granted resp"
    "effective_configuration env n = Some c" "is_voter c p"
    "has_joint_majority c (insert p (granted_votes n))"
    "become_leader env t (n\<lparr>current_millis := t, granted_votes := insert p (granted_votes n)\<rparr>) = Some n'"
proof (cases "state n = Candidate")
  case candidate: True
  let ?n = "n\<lparr>current_millis := t\<rparr>"
  let ?n1 = "n\<lparr>current_millis := t, granted_votes := insert p (granted_votes n)\<rparr>"
  note def = handle_vote_response_def [of env p resp t n]
  show thesis
  proof (cases "current_term n < vs_term resp")
    case True
    with assms candidate have "n' = step_down (vs_term resp) t ?n" by (simp add: def)
    with True that(2) show thesis by blast
  next
    case not_down: False
    show thesis
    proof (cases "vs_term resp \<noteq> current_term n \<or> \<not> vote_granted resp")
      case True
      with assms candidate not_down have "n' = ?n" by (auto simp: def)
      then show thesis by (rule that(1))
    next
      case False
      have eff: "effective_configuration env ?n = effective_configuration env n"
        "effective_configuration env ?n1 = effective_configuration env n"
        by (rule effective_configuration_cong; simp)+
      obtain c where c: "effective_configuration env n = Some c"
        using assms candidate False eff by (cases "effective_configuration env n") (auto simp: def)
      show thesis
      proof (cases "is_voter c p")
        case True
        have "(if has_joint_majority c (insert p (granted_votes n)) then become_leader env t ?n1 else Some ?n1) = Some n'"
          using assms candidate False eff c True by (simp add: def has_election_majority_def Let_def)
        with candidate False c True that(3,4) show thesis by (auto split: if_splits)
      next
        case no: False
        with assms candidate False eff c have "n' = ?n" by (simp add: def)
        then show thesis by (rule that(1))
      qed
    qed
  qed
next
  case False
  with assms that(1) show thesis by (simp add: handle_vote_response_def Let_def)
qed

lemma heartbeat_tame:
  assumes "broadcast_heartbeat env t n = Some n'"
  shows "tame n n'"
proof -
  obtain cs where "local_steps env (n\<lparr>current_millis := t, transport := cs\<rparr>) n'" by (rule heartbeat_steps [OF assms])
  from steps_tame [OF this] show ?thesis by simp
qed

lemma begin_read_tame:
  assumes "begin_read env q t d n = Some (r, n')"
  shows "tame n n'"
proof -
  obtain x where "local_steps env (n\<lparr>read_domain := x\<rparr>) n'" by (rule begin_read_steps [OF assms])
  from steps_tame [OF this] show ?thesis by simp
qed

lemma client_command_steps: "handle_client_command env c t n = Some (r, n') \<Longrightarrow> local_steps env n n'"
  by (auto simp: handle_client_command_def bind_eq_Some_conv intro: submit_command_steps)

text \<open>Every operation other than the two that run elections is tame.\<close>

lemma run_op_tame:
  assumes "run_op env op n = Some n'"
    and "\<And>t. op \<noteq> OpElection t" "\<And>p resp t. op \<noteq> OpVoteResponse p resp t"
  shows "tame n n'"
proof (cases op)
  case (OpSetMillis t)
  with assms(1) show ?thesis by (auto simp: run_op_def set_millis_def send_def)
next
  case (OpVoteRequest req t)
  with assms(1) show ?thesis by (auto simp: run_op_def intro: vote_request_facts)
next
  case (OpAppend req t)
  with assms(1) show ?thesis by (auto simp: run_op_def intro: append_tame)
next
  case (OpAppendResponse p resp t)
  with assms(1) show ?thesis by (auto simp: run_op_def intro: append_response_tame)
next
  case (OpSnapshot req t)
  with assms(1) show ?thesis by (auto simp: run_op_def intro: snapshot_tame)
next
  case (OpSnapshotResponse p resp off fin t)
  with assms(1) show ?thesis by (auto simp: run_op_def intro: snapshot_response_tame)
next
  case (OpHeartbeat t)
  with assms(1) show ?thesis by (auto simp: run_op_def intro: heartbeat_tame)
next
  case (OpCommand c t)
  with assms(1) show ?thesis by (auto simp: run_op_def intro: steps_tame client_command_steps)
next
  case (OpJoint ms t)
  with assms(1) show ?thesis by (auto simp: run_op_def intro: steps_tame submit_joint_steps)
next
  case (OpFinalize t)
  with assms(1) show ?thesis by (auto simp: run_op_def intro: steps_tame submit_finalize_configuration_steps)
next
  case (OpJoin p t)
  with assms(1) show ?thesis by (auto simp: run_op_def intro: steps_tame submit_join_steps)
next
  case (OpRead q t d)
  with assms(1) show ?thesis by (auto simp: run_op_def intro: begin_read_tame)
qed (use assms in blast)+

text \<open>And every operation keeps the term and the vote.\<close>

lemma election_vote_step:
  assumes "start_election env t n = Some n'"
  shows "vote_step n n'"
  using assms
proof (cases rule: election_cases)
  case (won c m)
  with become_leader_calm [OF won(5)] show ?thesis
    by (auto simp: candidate_of_def same_log_def vote_step_def)
qed (auto simp: candidate_of_def same_log_def vote_step_def synced_def)

lemma vote_response_vote_step:
  assumes "handle_vote_response env p resp t n = Some n'"
  shows "vote_step n n'"
  using assms
proof (cases rule: vote_response_cases)
  case down
  with step_down_tame [of "n\<lparr>current_millis := t\<rparr>" "vs_term resp" t] show ?thesis
    by (simp add: tame_def vote_step_def synced_def)
next
  case (won c)
  from become_leader_calm [OF won(7)] show ?thesis by (simp add: vote_step_def synced_def)
qed (simp_all add: vote_step_def synced_def)

lemma run_op_vote_step:
  assumes "run_op env op n = Some n'"
  shows "vote_step n n'"
proof (cases op)
  case (OpElection t)
  with assms show ?thesis by (simp add: run_op_def election_vote_step)
next
  case (OpVoteResponse p resp t)
  with assms show ?thesis by (simp add: run_op_def vote_response_vote_step)
qed (use run_op_tame [OF assms] in \<open>auto simp: tame_def\<close>)

text \<open>A constructed node is the restored one with its membership looked up.\<close>

lemma node_new_cases:
  assumes "node_new env config = Some (Inr n')"
  obtains r machine d where "n' = (restored_node config r machine)\<lparr>decommissioned := d\<rparr>"
proof -
  from assms obtain r where "(case restore_machine env config r of
        Inl e \<Rightarrow> Some (Inl e)
      | Inr machine \<Rightarrow> Option.bind (effective_configuration env (restored_node config r machine))
          (\<lambda>d. Some (Inr ((restored_node config r machine)
             \<lparr>decommissioned := \<not> contains d (my_id (restored_node config r machine))\<rparr>)))) = Some (Inr n')"
    unfolding node_new_def Let_def bind_eq_Some_conv by blast
  with that show thesis
    by (cases "restore_machine env config r") (auto simp: bind_eq_Some_conv)
qed

end
