(* ===== verification/Raft_Sample.thy ===== *)
theory Raft_Sample
  imports Raft_Handlers
begin

text \<open>
  Concrete nodes for the witnesses: a protobuf library that carries a handful of messages,
  an application that logs its commands, and nodes built by \<open>node_new\<close>.
\<close>

definition sample_messages :: "(bytes \<times> internal_raft_command) list" where
  "sample_messages =
     [([], None),
      ([1], Some ProtoFinalize),
      ([2], Some (ProtoJoint
         [\<lparr>sp_id = ''a'', sp_host = ''charlotte:0000000000000001'', sp_port = 0, sp_role = ''VOTER''\<rparr>,
          \<lparr>sp_id = ''b'', sp_host = ''charlotte:0000000000000002'', sp_port = 0, sp_role = ''LEARNER''\<rparr>])),
      ([3], Some (ProtoJoin (Some
         \<lparr>sp_id = ''b'', sp_host = ''charlotte:0000000000000002'', sp_port = 0, sp_role = ''LEARNER''\<rparr>))),
      ([4], Some (ProtoJoint []))]"

fun lookup_bytes :: "(bytes \<times> internal_raft_command) list \<Rightarrow> internal_raft_command \<Rightarrow> bytes option" where
  "lookup_bytes [] m = None"
| "lookup_bytes ((b, x) # rest) m = (if x = m then Some b else lookup_bytes rest m)"

definition sample_pb :: protobuf where
  "sample_pb = \<lparr>pb_encode = lookup_bytes sample_messages, pb_decode = map_of sample_messages\<rparr>"

definition sample_env :: "bytes list env" where
  "sample_env =
     \<lparr>env_pb = sample_pb, sm_apply = (\<lambda>sm t d. (d, sm @ [d])), sm_snapshot = (\<lambda>sm. concat sm),
      sm_restore = (\<lambda>sm d. Inr [d]), sm_reset = (\<lambda>sm. []), sm_query = Some (\<lambda>sm q. concat sm)\<rparr>"

lemma lookup_bytes_map_of:
  "distinct (map fst es) \<Longrightarrow> lookup_bytes es m = Some b \<Longrightarrow> map_of es b = Some m"
  by (induction es m rule: lookup_bytes.induct) (force split: if_splits dest: map_of_SomeD)+

lemma sample_roundtrip: "protobuf_roundtrip (env_pb sample_env)"
proof -
  have "distinct (map fst sample_messages)" by (simp add: sample_messages_def)
  then show ?thesis
    using lookup_bytes_map_of by (simp add: protobuf_roundtrip_def sample_env_def sample_pb_def)
qed

lemma sample_empty: "empty_message sample_env"
  by (simp add: empty_message_def sample_env_def sample_pb_def sample_messages_def)

definition sample_config :: "string \<Rightarrow> peer list \<Rightarrow> bytes list node_config" where
  "sample_config i members =
     \<lparr>nc_me = peer_voter i 1, nc_timeout_millis = 100, nc_log_store = log_new, nc_persistent_state = persistent_new,
      nc_state_machine = Some [], nc_cluster_configuration = the (stable members), nc_transport = [],
      nc_current_millis = 0, nc_snapshot_min_entries = 0, nc_snapshot_chunk_bytes = 4\<rparr>"

definition sample_node :: "string \<Rightarrow> peer list \<Rightarrow> bytes list node" where
  "sample_node i members = projr (the (node_new sample_env (sample_config i members)))"

lemma sample_node_facts:
  "me (sample_node i members) = peer_voter i 1" "state (sample_node i members) = Follower"
  "synced (sample_node i members)" "n_log (sample_node i members) = log_new"
  "cluster_config (sample_node i members) = the (stable members)"
  by (simp_all add: sample_node_def node_new_def restore_machine_def sample_config_def restored_node_def effective_configuration_def
      configuration_at_eq log_new_def snapshot_index_def last_index_def persistent_new_def synced_def Let_def)

text \<open>A cluster of one, after its first election: leader of term 1, its no-op committed.\<close>

definition sample_leader :: "bytes list node" where
  "sample_leader = the (start_election sample_env 500 (sample_node ''a'' [peer_voter ''a'' 1]))"

lemma sample_election_view:
  "map_option (\<lambda>n. (state n, current_term n, commit_index n, last_applied n, last_index (n_log n),
      snapshot_index (n_log n), joints_ok sample_env (n_log n)))
    (start_election sample_env 500 (sample_node ''a'' [peer_voter ''a'' 1])) = Some (Leader, 1, 1, 1, 1, 0, True)"
  by code_simp

lemma sample_election:
  "start_election sample_env 500 (sample_node ''a'' [peer_voter ''a'' 1]) = Some sample_leader"
  using sample_election_view by (auto simp: sample_leader_def)

lemma sample_leader_state:
  "state sample_leader = Leader" "current_term sample_leader = 1" "commit_index sample_leader = 1"
  "last_applied sample_leader = 1" "last_index (n_log sample_leader) = 1" "snapshot_index (n_log sample_leader) = 0"
  "joints_ok sample_env (n_log sample_leader)"
  using sample_election_view by (simp_all add: sample_election)

end
