(* ===== verification/Raft_Election.thy ===== *)
theory Raft_Election
  imports Raft_Sample
begin

text \<open>
  Election safety of a cluster of nodes. The abstract argument is the locale \<open>ballots\<close>: votes
  that never conflict and quorums that meet leave room for one winner per term. The cluster
  is a step relation over nodes that run their handlers in any order, on any messages, with
  crashes and restarts from the persisted state; the only promise of the transport is that
  a granted vote response comes from the voter that granted it.
\<close>

section \<open>The abstract ballot\<close>

locale ballots =
  fixes history :: "'s \<Rightarrow> bool" and cast :: "'s \<Rightarrow> 'v \<Rightarrow> 't \<Rightarrow> 'c \<Rightarrow> bool"
    and wins :: "'q \<Rightarrow> 'v set \<Rightarrow> bool" and meets :: "'q \<Rightarrow> 'q \<Rightarrow> bool"
  assumes one_vote: "history s \<Longrightarrow> cast s v t c \<Longrightarrow> cast s v t d \<Longrightarrow> c = d"
    and meet: "meets q r \<Longrightarrow> wins q A \<Longrightarrow> wins r B \<Longrightarrow> A \<inter> B \<noteq> {}"
begin

lemma one_winner:
  assumes "history s" "meets q r" "wins q A" "wins r B"
    and "\<And>v. v \<in> A \<Longrightarrow> cast s v t c" "\<And>v. v \<in> B \<Longrightarrow> cast s v t d"
  shows "c = d"
proof -
  obtain v where "v \<in> A" "v \<in> B" using meet [OF assms(2-4)] by auto
  with assms(1,5,6) show ?thesis by (blast intro: one_vote)
qed

end

section \<open>The cluster\<close>

text \<open>
  Two ghost records: the votes granted, as voter, term and candidate, and the elections won,
  as winner, term, configuration in force and votes counted.
\<close>

record 'sm cluster =
  nodes :: "string \<Rightarrow> 'sm node"
  votes :: "(string \<times> nat \<times> string) set"
  elected :: "(string \<times> nat \<times> cluster_configuration \<times> string set) set"

definition elections_of ::
    "string \<Rightarrow> 'sm node \<Rightarrow> cluster_configuration option \<Rightarrow> string set \<Rightarrow>
     (string \<times> nat \<times> cluster_configuration \<times> string set) set" where
  "elections_of x n' c ids =
     (if state n' = Leader then (case c of Some d \<Rightarrow> {(x, current_term n', d, ids)} | None \<Rightarrow> {}) else {})"

inductive cluster_step :: "'sm env \<Rightarrow> 'sm cluster \<Rightarrow> 'sm cluster \<Rightarrow> bool" for env where
  election:
    "start_election env t (nodes S x) = Some n' \<Longrightarrow>
     cluster_step env S (S\<lparr>nodes := (nodes S)(x := n'),
       votes := (if current_term n' = current_term (nodes S x) then votes S
                 else insert (x, current_term n', x) (votes S)),
       elected := elected S \<union> elections_of x n' (effective_configuration env (nodes S x)) {x}\<rparr>)"
| vote_request:
    "handle_vote_request env req t (nodes S x) = Some (resp, n') \<Longrightarrow>
     cluster_step env S (S\<lparr>nodes := (nodes S)(x := n'),
       votes := (if vote_granted resp then insert (x, vs_term resp, vq_candidate_id req) (votes S) else votes S)\<rparr>)"
| vote_response:
    "handle_vote_response env p resp t (nodes S x) = Some n' \<Longrightarrow>
     (vote_granted resp \<longrightarrow> (p, vs_term resp, x) \<in> votes S) \<Longrightarrow>
     cluster_step env S (S\<lparr>nodes := (nodes S)(x := n'),
       elected := elected S \<union>
         (if state (nodes S x) = Leader then {}
          else elections_of x n' (effective_configuration env (nodes S x)) (insert p (granted_votes (nodes S x))))\<rparr>)"
| other:
    "run_op env op (nodes S x) = Some n' \<Longrightarrow> (\<And>t. op \<noteq> OpElection t) \<Longrightarrow> (\<And>req t. op \<noteq> OpVoteRequest req t) \<Longrightarrow>
     (\<And>p resp t. op \<noteq> OpVoteResponse p resp t) \<Longrightarrow>
     cluster_step env S (S\<lparr>nodes := (nodes S)(x := n')\<rparr>)"
| restart:
    "node_new env config = Some (Inr n') \<Longrightarrow> nc_me config = me (nodes S x) \<Longrightarrow>
     ps_current_term (nc_persistent_state config) = ps_current_term (persistent (nodes S x)) \<Longrightarrow>
     ps_voted_for (nc_persistent_state config) = ps_voted_for (persistent (nodes S x)) \<Longrightarrow>
     cluster_step env S (S\<lparr>nodes := (nodes S)(x := n')\<rparr>)"

text \<open>
  A cluster starts with followers that know their names, with what they persisted in memory.
\<close>

definition cluster_start :: "'sm cluster \<Rightarrow> bool" where
  "cluster_start S \<longleftrightarrow>
     (\<forall>x. my_id (nodes S x) = x \<and> state (nodes S x) = Follower \<and> synced (nodes S x)) \<and> votes S = {} \<and> elected S = {}"

inductive cluster_reach :: "'sm env \<Rightarrow> 'sm cluster \<Rightarrow> bool" for env where
  start: "cluster_start S \<Longrightarrow> cluster_reach env S"
| step: "cluster_reach env S \<Longrightarrow> cluster_step env S S' \<Longrightarrow> cluster_reach env S'"

section \<open>The invariant\<close>

definition vote_known :: "'sm cluster \<Rightarrow> string \<times> nat \<times> string \<Rightarrow> bool" where
  "vote_known S = (\<lambda>(v, t, c). t \<le> current_term (nodes S v) \<and>
     (t = current_term (nodes S v) \<longrightarrow> voted_for (nodes S v) = Some c))"

definition candidate_backed :: "'sm cluster \<Rightarrow> string \<Rightarrow> bool" where
  "candidate_backed S x \<longleftrightarrow>
     (state (nodes S x) = Candidate \<longrightarrow>
        (\<forall>v \<in> granted_votes (nodes S x). (v, current_term (nodes S x), x) \<in> votes S)) \<and>
     (state (nodes S x) = Leader \<longrightarrow> (\<exists>c ids. (x, current_term (nodes S x), c, ids) \<in> elected S))"

definition election_backed :: "'sm cluster \<Rightarrow> string \<times> nat \<times> cluster_configuration \<times> string set \<Rightarrow> bool" where
  "election_backed S = (\<lambda>(x, t, c, ids). has_joint_majority c ids \<and> (\<forall>v \<in> ids. (v, t, x) \<in> votes S))"

definition single_votes :: "(string \<times> nat \<times> string) set \<Rightarrow> bool" where
  "single_votes V \<longleftrightarrow> (\<forall>v t c d. (v, t, c) \<in> V \<longrightarrow> (v, t, d) \<in> V \<longrightarrow> c = d)"

definition cluster_inv :: "'sm cluster \<Rightarrow> bool" where
  "cluster_inv S \<longleftrightarrow>
     (\<forall>x. my_id (nodes S x) = x \<and> synced (nodes S x) \<and> candidate_backed S x) \<and>
     (\<forall>w \<in> votes S. vote_known S w) \<and> single_votes (votes S) \<and> (\<forall>e \<in> elected S. election_backed S e)"

text \<open>
  One node moves, and the ghost records grow: what has to be checked of the move alone.
\<close>

lemma cluster_inv_move:
  assumes inv: "cluster_inv S"
    and S': "nodes S' = (nodes S)(x := n')" "votes S' = votes S \<union> V" "elected S' = elected S \<union> E"
    and move: "vote_step (nodes S x) n'"
    and new_votes: "\<And>v t c. (v, t, c) \<in> V \<Longrightarrow> v = x \<and> t = current_term n' \<and> voted_for n' = Some c"
    and candidate: "\<And>v. state n' = Candidate \<Longrightarrow> v \<in> granted_votes n' \<Longrightarrow> (v, current_term n', x) \<in> votes S \<union> V"
    and leader: "state n' = Leader \<Longrightarrow> \<exists>c ids. (x, current_term n', c, ids) \<in> elected S \<union> E"
    and new_elections: "\<And>y t c ids. (y, t, c, ids) \<in> E \<Longrightarrow>
      has_joint_majority c ids \<and> (\<forall>v \<in> ids. (v, t, y) \<in> votes S \<union> V)"
  shows "cluster_inv S'"
proof -
  have old: "my_id (nodes S y) = y" "synced (nodes S y)" "candidate_backed S y" for y
    using inv by (simp_all add: cluster_inv_def)
  have known: "vote_known S' (v, t, c)" if "(v, t, c) \<in> votes S'" for v t c
  proof (cases "(v, t, c) \<in> V")
    case True
    with new_votes [OF True] S'(1) show ?thesis by (simp add: vote_known_def)
  next
    case False
    with that S'(2) inv have "vote_known S (v, t, c)" by (auto simp: cluster_inv_def)
    with move S'(1) show ?thesis by (cases "v = x") (auto simp: vote_known_def vote_step_def)
  qed
  have "single_votes (votes S')"
    unfolding single_votes_def
  proof (intro allI impI)
    fix v t c d
    assume w: "(v, t, c) \<in> votes S'" "(v, t, d) \<in> votes S'"
    show "c = d"
    proof (cases "(v, t, c) \<in> V \<or> (v, t, d) \<in> V")
      case True
      then have "v = x \<and> t = current_term n'" using new_votes by blast
      with known [OF w(1)] known [OF w(2)] S'(1) show ?thesis by (simp add: vote_known_def)
    next
      case False
      with w S'(2) have "(v, t, c) \<in> votes S" "(v, t, d) \<in> votes S" by auto
      with inv show ?thesis unfolding cluster_inv_def single_votes_def by blast
    qed
  qed
  moreover have "my_id (nodes S' y) = y" "synced (nodes S' y)" for y
    using old [of y] move S'(1) by (auto simp: vote_step_def)
  moreover have "candidate_backed S' y" for y
    using old(3) [of y] candidate leader S' by (cases "y = x") (auto simp: candidate_backed_def)
  moreover have "election_backed S' e" if "e \<in> elected S'" for e
  proof -
    obtain y t c ids where e: "e = (y, t, c, ids)" by (cases e) auto
    show ?thesis
    proof (cases "e \<in> E")
      case True
      with new_elections [of y t c ids] e S'(2) show ?thesis by (simp add: election_backed_def)
    next
      case False
      with that S'(3) inv have "election_backed S e" by (auto simp: cluster_inv_def)
      with e S'(2) show ?thesis by (auto simp: election_backed_def)
    qed
  qed
  ultimately show ?thesis using known by (auto simp: cluster_inv_def)
qed

text \<open>A tame move of one node, with the votes it casts.\<close>

lemma cluster_inv_tame:
  assumes inv: "cluster_inv S" and S': "nodes S' = (nodes S)(x := n')" "votes S' = votes S \<union> V" "elected S' = elected S"
    and tame: "tame (nodes S x) n'"
    and V: "\<And>v t c. (v, t, c) \<in> V \<Longrightarrow> v = x \<and> t = current_term n' \<and> voted_for n' = Some c"
  shows "cluster_inv S'"
proof (rule cluster_inv_move [OF inv S'(1,2), of "{}"])
  have backed: "candidate_backed S x" using inv by (simp add: cluster_inv_def)
  show "(v, current_term n', x) \<in> votes S \<union> V" if "state n' = Candidate" "v \<in> granted_votes n'" for v
    using backed tame that by (auto simp: candidate_backed_def tame_def no_rise_def)
  show "\<exists>c ids. (x, current_term n', c, ids) \<in> elected S \<union> {}" if "state n' = Leader"
    using backed tame that by (auto simp: candidate_backed_def tame_def no_rise_def)
qed (use S'(3) tame V in \<open>simp_all add: tame_def\<close>)

lemma cluster_inv_election:
  assumes inv: "cluster_inv S" and run: "start_election env t (nodes S x) = Some n'"
    and S': "nodes S' = (nodes S)(x := n')"
      "votes S' = (if current_term n' = current_term (nodes S x) then votes S else insert (x, current_term n', x) (votes S))"
      "elected S' = elected S \<union> elections_of x n' (effective_configuration env (nodes S x)) {x}"
  shows "cluster_inv S'"
proof -
  let ?n = "nodes S x"
  let ?V = "if current_term n' = current_term ?n then {} else {(x, current_term n', x)}"
  let ?E = "elections_of x n' (effective_configuration env ?n) {x}"
  have id: "my_id ?n = x" using inv by (simp add: cluster_inv_def)
  have votes: "votes S' = votes S \<union> ?V" by (simp add: S'(2))
  from run show ?thesis
  proof (cases rule: election_cases)
    case (idle cs)
    show ?thesis
      by (rule cluster_inv_move [OF inv S'(1) votes S'(3) election_vote_step [OF run]])
        (simp_all add: idle elections_of_def)
  next
    case (lost c)
    show ?thesis
      by (rule cluster_inv_move [OF inv S'(1) votes S'(3) election_vote_step [OF run]])
        (use lost(1) id in \<open>auto simp: candidate_of_def elections_of_def split: if_splits\<close>)
  next
    case (won c m)
    note calm = become_leader_calm [OF won(5)]
    have new: "current_term n' = current_term ?n + 1" "voted_for n' = Some x"
      using won(1) calm(2,3) id by (simp_all add: candidate_of_def)
    show ?thesis
      by (rule cluster_inv_move [OF inv S'(1) votes S'(3) election_vote_step [OF run]])
        (use won(2,4) calm(5) id new in \<open>auto simp: elections_of_def split: if_splits\<close>)
  qed
qed

lemma cluster_inv_vote_response:
  assumes inv: "cluster_inv S" and run: "handle_vote_response env p resp t (nodes S x) = Some n'"
    and authentic: "vote_granted resp \<longrightarrow> (p, vs_term resp, x) \<in> votes S"
    and S': "nodes S' = (nodes S)(x := n')" "votes S' = votes S"
      "elected S' = elected S \<union> (if state (nodes S x) = Leader then {}
        else elections_of x n' (effective_configuration env (nodes S x)) (insert p (granted_votes (nodes S x))))"
  shows "cluster_inv S'"
proof -
  let ?n = "nodes S x"
  have backed: "candidate_backed S x" using inv by (simp add: cluster_inv_def)
  have votes: "votes S' = votes S \<union> {}" by (simp add: S'(2))
  note move = vote_response_vote_step [OF run]
  from run show ?thesis
  proof (cases rule: vote_response_cases)
    case same
    show ?thesis
      by (rule cluster_inv_move [OF inv S'(1) votes S'(3) move])
        (use same backed in \<open>auto simp: candidate_backed_def elections_of_def split: if_splits\<close>)
  next
    case down
    show ?thesis
      by (rule cluster_inv_move [OF inv S'(1) votes S'(3) move])
        (use down in \<open>auto simp: elections_of_def split: if_splits\<close>)
  next
    case (counted c)
    show ?thesis
      by (rule cluster_inv_move [OF inv S'(1) votes S'(3) move])
        (use counted(1-3,6) backed authentic in \<open>auto simp: candidate_backed_def elections_of_def\<close>)
  next
    case (won c)
    note calm = become_leader_calm [OF won(7)]
    have all: "(v, current_term n', x) \<in> votes S" if "v \<in> insert p (granted_votes ?n)" for v
      using that won(1-3) backed authentic calm(2) by (auto simp: candidate_backed_def)
    show ?thesis
      by (rule cluster_inv_move [OF inv S'(1) votes S'(3) move])
        (use won(1,4,6) calm(5) all in \<open>auto simp: elections_of_def split: if_splits\<close>)
  qed
qed

lemma restart_facts:
  assumes "node_new env config = Some (Inr n')"
  shows "me n' = nc_me config" "state n' = Follower"
    "current_term n' = ps_current_term (nc_persistent_state config)"
    "voted_for n' = ps_voted_for (nc_persistent_state config)" "synced n'"
proof -
  obtain r machine d where "n' = (restored_node config r machine)\<lparr>decommissioned := d\<rparr>"
    using assms by (rule node_new_cases)
  then show "me n' = nc_me config" "state n' = Follower"
    "current_term n' = ps_current_term (nc_persistent_state config)"
    "voted_for n' = ps_voted_for (nc_persistent_state config)" "synced n'"
    by (simp_all add: restored_node_def Let_def synced_def persistent_defs split: option.splits prod.splits)
qed

lemma cluster_inv_restart:
  assumes inv: "cluster_inv S" and new: "node_new env config = Some (Inr n')"
    and "nc_me config = me (nodes S x)"
    and "ps_current_term (nc_persistent_state config) = ps_current_term (persistent (nodes S x))"
    and "ps_voted_for (nc_persistent_state config) = ps_voted_for (persistent (nodes S x))"
  shows "cluster_inv (S\<lparr>nodes := (nodes S)(x := n')\<rparr>)"
proof (rule cluster_inv_tame [OF inv, where V = "{}"])
  have "synced (nodes S x)" using inv by (simp add: cluster_inv_def)
  then show "tame (nodes S x) n'"
    using restart_facts [OF new] assms(3-5) by (simp add: tame_def vote_step_def no_rise_def synced_def)
qed simp_all

lemma cluster_inv_step:
  assumes "cluster_step env S S'" "cluster_inv S"
  shows "cluster_inv S'"
  using assms
proof (induction rule: cluster_step.induct)
  case (election t S x n')
  show ?case by (rule cluster_inv_election [OF election(2,1)]) simp_all
next
  case (vote_request req t S x resp n')
  note f = vote_request_facts [OF vote_request(1)]
  show ?case
    by (rule cluster_inv_tame [OF vote_request(2), where V = "if vote_granted resp then {(x, vs_term resp, vq_candidate_id req)} else {}"])
      (use f in \<open>auto split: if_splits\<close>)
next
  case (vote_response p resp t S x n')
  show ?case by (rule cluster_inv_vote_response [OF vote_response(3,1,2)]) simp_all
next
  case (other op S x n')
  show ?case by (rule cluster_inv_tame [OF other(5), where V = "{}"]) (use run_op_tame [OF other(1,2,4)] in simp_all)
next
  case (restart config n' S x)
  show ?case by (rule cluster_inv_restart [OF restart(5,1-4)])
qed

lemma cluster_reach_inv: "cluster_reach env S \<Longrightarrow> cluster_inv S"
proof (induction rule: cluster_reach.induct)
  case (start S)
  then show ?case by (simp add: cluster_start_def cluster_inv_def candidate_backed_def single_votes_def)
next
  case (step S S')
  then show ?case by (blast intro: cluster_inv_step)
qed

section \<open>Election safety\<close>

interpretation raft: ballots "\<lambda>(env, S). cluster_reach env S" "\<lambda>(env, S) v t c. (v, t, c) \<in> votes S"
  has_joint_majority overlap
proof
  show "case s of (env, S) \<Rightarrow> cluster_reach env S \<Longrightarrow> (case s of (env, S) \<Rightarrow> \<lambda>v t c. (v, t, c) \<in> votes S) v t c \<Longrightarrow>
      (case s of (env, S) \<Rightarrow> \<lambda>v t c. (v, t, c) \<in> votes S) v t d \<Longrightarrow> c = d" for s :: "'sm env \<times> 'sm cluster" and v t c d
    by (cases s) (auto dest!: cluster_reach_inv simp: cluster_inv_def single_votes_def)
  show "overlap q r \<Longrightarrow> has_joint_majority q A \<Longrightarrow> has_joint_majority r B \<Longrightarrow> A \<inter> B \<noteq> {}" for q r A B
    using overlap_meet by blast
qed

text \<open>
  (C1) Election safety. In every reachable cluster, whatever messages were lost, reordered or
  invented and whichever nodes crashed and restarted from their persisted state: every
  leader won an election of its term with a joint majority of the configuration in force at
  its own log, every vote it counted was granted to it in that term, and two elections of
  the same term whose configurations are the same or neighbours in a membership change have
  the same winner.
\<close>

theorem election_safety:
  assumes "cluster_reach env S"
  shows "(\<forall>x. state (nodes S x) = Leader \<longrightarrow> (\<exists>c A. (x, current_term (nodes S x), c, A) \<in> elected S)) \<and>
    (\<forall>(x, t, c, A) \<in> elected S. has_joint_majority c A \<and> (\<forall>v \<in> A. (v, t, x) \<in> votes S)) \<and>
    (\<forall>x y t c d A B. (x, t, c, A) \<in> elected S \<and> (y, t, d, B) \<in> elected S \<and> overlap c d \<longrightarrow> x = y)"
proof (intro conjI allI impI)
  note inv = cluster_reach_inv [OF assms]
  show "\<exists>c A. (x, current_term (nodes S x), c, A) \<in> elected S" if "state (nodes S x) = Leader" for x
    using inv that by (auto simp: cluster_inv_def candidate_backed_def)
  show backed: "\<forall>(x, t, c, A) \<in> elected S. has_joint_majority c A \<and> (\<forall>v \<in> A. (v, t, x) \<in> votes S)"
    using inv by (auto simp: cluster_inv_def election_backed_def)
  show "x = y" if "(x, t, c, A) \<in> elected S \<and> (y, t, d, B) \<in> elected S \<and> overlap c d" for x y t c d A B
    by (rule raft.one_winner [of "(env, S)" c d A B t]) (use that assms backed in auto)
qed

theorem election_safety_witness:
  "\<exists>S c. cluster_reach sample_env S \<and> state (nodes S ''a'') = Leader \<and> current_term (nodes S ''a'') = 1 \<and>
     (''a'', 1, c, {''a''}) \<in> elected S \<and> has_joint_majority c {''a''} \<and> (''a'', 1, ''a'') \<in> votes S"
proof -
  let ?members = "[peer_voter ''a'' 1]"
  let ?S = "\<lparr>nodes = \<lambda>x. sample_node x ?members, votes = {}, elected = {}\<rparr>"
  let ?c = "effective_configuration sample_env (sample_node ''a'' ?members)"
  let ?T = "?S\<lparr>nodes := (nodes ?S)(''a'' := sample_leader),
       votes := (if current_term sample_leader = current_term (nodes ?S ''a'') then votes ?S
                 else insert (''a'', current_term sample_leader, ''a'') (votes ?S)),
       elected := elected ?S \<union> elections_of ''a'' sample_leader ?c {''a''}\<rparr>"
  have "cluster_start ?S" by (simp add: cluster_start_def sample_node_facts peer_voter_def)
  moreover have "cluster_step sample_env ?S ?T" using election [of sample_env 500 ?S "''a''" sample_leader] sample_election by simp
  ultimately have T: "cluster_reach sample_env ?T" by (blast intro: cluster_reach.intros)
  obtain c where c: "?c = Some c"
    by (auto simp: effective_configuration_def configuration_at_eq sample_node_facts log_new_def)
  have l: "state sample_leader = Leader" "current_term sample_leader = 1" using sample_leader_state by simp_all
  have e: "(''a'', 1, c, {''a''}) \<in> elected ?T" by (simp add: elections_of_def l c)
  from election_safety [OF T] e have "has_joint_majority c {''a''}" "(''a'', 1, ''a'') \<in> votes ?T" by blast+
  with T e l show ?thesis by (intro exI [of _ ?T] exI [of _ c]) simp
qed

end
