(* ===== verification/Raft_Safety.thy ===== *)
theory Raft_Safety
  imports Raft_Sample
begin

text \<open>
  Properties of the Raft node: progress of the application loop, totality of the handlers,
  and the invariants they keep.
\<close>

section \<open>The application loop\<close>

text \<open>A faithful protobuf library reads FINALIZE back.\<close>

lemma finalize_message_roundtrip: "protobuf_roundtrip (env_pb env) \<Longrightarrow> finalize_message env"
  by (auto simp: finalize_message_def intro: config_decode_encode)

text \<open>
  (C6) The application loop ends, and the fuel is an artefact: from every node whose log
  positions are ordered and whose log holds no empty joint entry, \<open>apply_committed\<close> returns
  with every committed entry applied, and it satisfies the recursion of the source, in
  which each turn may re-enter the whole loop through the automatic FINALIZE.
\<close>

theorem apply_committed_recursion:
  assumes "finalize_message env" and "ready env n"
  shows "(\<exists>n'. apply_committed env n = Some n' \<and> last_applied n' = commit_index n') \<and>
    apply_committed env n =
      (if last_applied n < commit_index n then do {
         n' \<leftarrow> apply_entry_with env (apply_committed env) (n\<lparr>last_applied := last_applied n + 1\<rparr>);
         apply_committed env n'
       }
       else Some (maybe_compact_local_snapshot env n))"
proof
  show "\<exists>n'. apply_committed env n = Some n' \<and> last_applied n' = commit_index n'"
    using apply_committed_settles [OF assms] by (auto simp: settles_def)
  let ?f = "apply_fuel n"
  note less = work_less_fuel [OF assms(2)]
  have "apply_committed env n = apply_committed_fuel env (Suc ?f) n"
    unfolding apply_committed_def by (rule fuel_stable [OF assms less]) (use less in simp)
  moreover have "apply_committed_fuel env ?f k = apply_committed env k \<and> settles env (apply_committed_fuel env ?f) k"
    if "ready env k" "work env k < work env n" for k
    using fuel_stable [OF assms(1) that(1) _ work_less_fuel [OF that(1)], of ?f]
      apply_committed_fuel_settles [OF assms(1) that(1), of ?f] that(2) less
    by (simp add: apply_committed_def)
  note turn_cong [OF assms _ this]
  ultimately show "apply_committed env n =
      (if last_applied n < commit_index n then do {
         n' \<leftarrow> apply_entry_with env (apply_committed env) (n\<lparr>last_applied := last_applied n + 1\<rparr>);
         apply_committed env n'
       }
       else Some (maybe_compact_local_snapshot env n))"
    by simp
qed

theorem apply_committed_recursion_witness:
  "\<exists>n. last_applied n < commit_index n \<and> finalize_message sample_env \<and> ready sample_env n \<and>
     (\<exists>n'. apply_committed sample_env n = Some n' \<and> last_applied n' = commit_index n')"
proof -
  let ?e = "entry_new 1 ''a'' [2]"
  let ?n = "sample_leader\<lparr>n_log := log_append (n_log sample_leader) [?e], commit_index := 2\<rparr>"
  have "config_decode (env_pb sample_env) (e_data ?e) \<noteq> Some (Joint [])" by code_simp
  then have "ready sample_env ?n"
    using sample_leader_state
    by (auto simp: ready_def log_inv_def mem.app_last mem.app_snap joints_ok_def)
      (auto simp: log_append_def)
  moreover have "finalize_message sample_env" by (rule finalize_message_roundtrip [OF sample_roundtrip])
  moreover have "last_applied ?n < commit_index ?n" using sample_leader_state by simp
  ultimately show ?thesis using apply_committed_recursion [of sample_env ?n] by blast
qed

end
