(* ===== verification/Raft_Soundness.thy ===== *)
theory Raft_Soundness
  imports Raft_Safety
begin

text \<open>
  Soundness of the node's handlers in the manner of a type system: on a well-formed node
  every handler returns (no assertion fails, no loop runs out), and the node it leaves behind
  is well-formed again, with every committed entry applied and the configuration in force
  the one the log spells out.
\<close>

section \<open>Well-formed nodes\<close>

definition stream_ok :: "'sm node \<Rightarrow> bool" where
  "stream_ok n =
     (case pending_snap n of
        None \<Rightarrow> True
      | Some s \<Rightarrow> sn_offset s = length (sn_data s) \<and> length (sn_data s) \<le> MAX_SNAPSHOT_BYTES)"

definition node_core :: "'sm env \<Rightarrow> 'sm node \<Rightarrow> bool" where
  "node_core env n \<longleftrightarrow> log_inv n \<and> config_inv env n \<and> synced n \<and> bm_len (applied_command_results n) \<le> 128 \<and>
     stream_ok n"

definition node_inv :: "'sm env \<Rightarrow> 'sm node \<Rightarrow> bool" where
  "node_inv env n \<longleftrightarrow> node_core env n \<and> joints_ok env (n_log n) \<and> last_applied n = commit_index n"

text \<open>The protobuf library: decoding inverts encoding, and no bytes are the message without fields.\<close>

definition faithful :: "'sm env \<Rightarrow> bool" where
  "faithful env \<longleftrightarrow> protobuf_roundtrip (env_pb env) \<and> empty_message env"

lemma faithful_finalize: "faithful env \<Longrightarrow> finalize_message env"
  by (simp add: faithful_def finalize_message_roundtrip)

lemma faithful_noop: "faithful env \<Longrightarrow> config_decode (env_pb env) [] = None"
  by (simp add: faithful_def empty_message_def config_decode_def)

lemma node_inv_ready: "node_inv env n \<Longrightarrow> ready env n"
  by (simp add: node_inv_def node_core_def ready_def)

lemma node_inv_same_log:
  assumes "node_inv env n" "same_log n m" "synced m"
  shows "node_inv env m"
  using assms
  by (auto simp: node_inv_def node_core_def same_log_def log_inv_def config_inv_def configuration_at_def stream_ok_def
      split: option.splits)

lemma same_log_refl [simp, intro]: "same_log n n"
  by (simp add: same_log_def)

section \<open>Small steps keep the core\<close>

lemma trim_results_len: "bm_len (trim_results m) \<le> 128"
proof (induction m rule: trim_results.induct)
  case (1 m)
  show ?case
  proof (cases "128 < bm_len m")
    case True
    then obtain k ks where k: "bm_keys m = k # ks"
      by (cases "bm_keys m") (auto simp: bm_len_eq_card set_bm_keys [symmetric])
    with True "1.IH" show ?thesis by (subst trim_results.simps) simp
  next
    case False
    then show ?thesis by (subst trim_results.simps) simp
  qed
qed

lemma admission_results [simp]:
  "applied_command_results (complete_admission env index n) = applied_command_results n"
  "applied_command_results (relinquish n) = applied_command_results n"
  "applied_command_results (retain_active n) = applied_command_results n"
  by (simp_all add: complete_admission_def snapshot_admitted_membership_def relinquish_def retain_active_def Let_def
      split: prod.splits)

lemma enter_results:
  "enter_configuration index command n = Some n' \<Longrightarrow> applied_command_results n' = applied_command_results n"
  by (cases command) (auto simp: enter_configuration_def bind_eq_Some_conv)

lemma adopt_results:
  "adopt_configuration env index command n = Some n' \<Longrightarrow> applied_command_results n' = applied_command_results n"
  by (auto simp: adopt_configuration_def bind_eq_Some_conv dest!: enter_results)

lemma consume_results:
  assumes "consume_entry env n = Some n'" "bm_len (applied_command_results n) \<le> 128"
  shows "bm_len (applied_command_results n') \<le> 128"
  using assms(1)
proof (cases rule: consume_cases)
  case (command e)
  with assms(2) show ?thesis
    by (simp add: apply_command_def Let_def trim_results_len split: option.splits prod.splits)
next
  case (adopt e c)
  from adopt_results [OF adopt(5)] assms(2) show ?thesis by simp
qed (use assms(2) in simp_all)

lemma compact_results:
  "applied_command_results (maybe_compact_local_snapshot env n) = applied_command_results n"
  by (simp add: maybe_compact_local_snapshot_def Let_def split: option.splits prod.splits)

lemma node_core_step:
  assumes "local_step env n n'" "node_core env n" "faithful env"
  shows "node_core env n'"
proof -
  note calm = local_step_calm [OF assms(1)]
  have core: "log_inv n" "config_inv env n" "synced n" "stream_ok n" "bm_len (applied_command_results n) \<le> 128"
    using assms(2) by (simp_all add: node_core_def)
  have "bm_len (applied_command_results n') \<le> 128"
    using assms(1) core(5)
    by (induction rule: local_step.induct) (simp_all add: consume_results compact_results)
  moreover have "config_inv env n'"
    using assms(3) config_inv_step [OF assms(1) core(1,2)] by (simp add: faithful_def)
  ultimately show ?thesis
    using log_inv_step(1) [OF assms(1) core(1)] core(3,4) calm
    by (simp add: node_core_def calm_def synced_def stream_ok_def)
qed

lemma node_core_steps:
  assumes "local_steps env n n'" "node_core env n" "faithful env"
  shows "node_core env n'"
  using assms(1,2) by (rule steps_invariant) (rule node_core_step [OF _ _ assms(3)])

section \<open>Calls that return\<close>

text \<open>
  A call that returns, in a ready node reached by small steps, and applies what it commits.
\<close>

definition lands :: "'sm env \<Rightarrow> 'sm node \<Rightarrow> 'sm node \<Rightarrow> bool" where
  "lands env n n' \<longleftrightarrow> local_steps env n n' \<and> ready env n' \<and>
     (last_applied n = commit_index n \<longrightarrow> last_applied n' = commit_index n')"

lemma lands_refl: "ready env n \<Longrightarrow> lands env n n"
  by (simp add: lands_def)

lemma lands_trans: "lands env a b \<Longrightarrow> lands env b c \<Longrightarrow> lands env a c"
  by (auto simp: lands_def intro: steps_trans)

lemma lands_inv: "lands env n n' \<Longrightarrow> node_inv env n \<Longrightarrow> faithful env \<Longrightarrow> node_inv env n'"
  by (auto simp: lands_def node_inv_def ready_def intro: node_core_steps)

lemma advance_lands:
  assumes "faithful env" "ready env n" "state n = Leader"
  obtains n' where "advance_commit_index env n = Some n'" "lands env n n'"
proof -
  have "settles env (apply_committed env) k" if "ready env k" for k
    by (rule apply_committed_settles [OF faithful_finalize [OF assms(1)] that])
  then obtain n' where n': "advance_commit_with env (apply_committed env) n = Some n'" "ready env n'"
    "n' = n \<or> last_applied n' = commit_index n'"
    using advance_total [OF assms(2), of "apply_committed env"] by metis
  then have a: "advance_commit_index env n = Some n'" by (simp add: advance_commit_index_def)
  from advance_commit_index_steps [OF a assms(3)] n' a show thesis by (intro that) (auto simp: lands_def)
qed

lemma append_lands:
  assumes "ready env n" "state n = Leader" "e_term e = current_term n"
    and "config_decode (env_pb env) (e_data e) \<noteq> Some (Joint [])"
  shows "lands env n (n\<lparr>current_millis := t, n_log := log_append (n_log n) [e]\<rparr>)"
  using append_ready [OF assms(1,4)] steps_one [OF append [OF assms(2,3)]] by (simp add: lands_def)

lemma tick_lands: "ready env n \<Longrightarrow> lands env n (n\<lparr>current_millis := t\<rparr>)"
  by (auto simp: lands_def intro: steps_one tick)

lemma submit_lands:
  assumes "faithful env" "ready env n" "config_decode (env_pb env) command \<noteq> Some (Joint [])"
  obtains r n' where "submit_command env command t n = Some (r, n')" "lands env n n'"
proof (cases "state n = Leader \<and> length command \<le> MAX_COMMAND_BYTES")
  case True
  let ?e = "entry_new (current_term n) (my_id n) command"
  let ?m = "n\<lparr>current_millis := t, n_log := log_append (n_log n) [?e]\<rparr>"
  have m: "lands env n ?m" using True assms(2,3) by (intro append_lands) (simp_all add: entry_new_def)
  then have r: "ready env ?m" "state ?m = Leader" using True by (simp_all add: lands_def)
  obtain n' where "advance_commit_index env ?m = Some n'" "lands env ?m n'"
    by (rule advance_lands [OF assms(1) r])
  with True m show thesis
    by (intro that [of "Inr (last_index (n_log ?m))" n'])
      (auto simp: submit_command_def submit_command_with_def advance_commit_index_def Let_def intro: lands_trans)
next
  case False
  then have "submit_command env command t n =
      Some (Inl (if state n \<noteq> Leader then ERR_NOT_LEADER else ERR_TOO_LARGE), n\<lparr>current_millis := t\<rparr>)"
    by (auto simp: submit_command_def submit_command_with_def Let_def not_le)
  from that [OF this tick_lands [OF assms(2)]] show thesis .
qed

lemma finalize_flag_lands: "ready env n \<Longrightarrow> lands env n (n\<lparr>finalize_configuration_pending := True\<rparr>)"
  by (auto simp: lands_def intro: steps_one finalize)

lemma submit_finalize_lands:
  assumes "faithful env" "ready env n"
  obtains r n' where "submit_finalize_configuration env t n = Some (r, n')" "lands env n n'"
proof (cases "config_encode (env_pb env) Finalize")
  case None
  then show thesis
    by (intro that [of "Inl ERR_TOO_LARGE" n])
      (simp_all add: submit_finalize_configuration_def submit_finalize_with_def lands_refl assms(2))
next
  case (Some d)
  then have "config_decode (env_pb env) d \<noteq> Some (Joint [])"
    using faithful_finalize [OF assms(1)] by (simp add: finalize_message_def)
  then obtain r n' where "submit_command env d t n = Some (r, n')" "lands env n n'"
    by (rule submit_lands [OF assms])
  with Some show thesis
    by (intro that) (simp_all add: submit_finalize_configuration_def submit_finalize_with_def submit_command_def)
qed

lemma auto_finalize_lands:
  assumes "faithful env" "ready env n"
  obtains n' where "maybe_auto_finalize_joint_configuration env n = Some n'" "lands env n n'"
proof (cases "auto_finalize_due n")
  case True
  obtain r m where m: "submit_finalize_configuration env (current_millis n) n = Some (r, m)" "lands env n m"
    by (rule submit_finalize_lands [OF assms])
  let ?n' = "case r of Inr _ \<Rightarrow> m\<lparr>finalize_configuration_pending := True\<rparr> | Inl _ \<Rightarrow> m"
  have "lands env m ?n'"
    using m(2) by (auto simp: lands_refl finalize_flag_lands lands_def split: sum.splits intro: steps_one finalize)
  with True m show thesis
    by (intro that [of ?n'])
      (auto simp: maybe_auto_finalize_joint_configuration_def auto_finalize_with_def submit_finalize_configuration_def
        intro: lands_trans split: sum.splits)
next
  case False
  then show thesis
    by (intro that [of n])
      (simp_all add: maybe_auto_finalize_joint_configuration_def auto_finalize_with_def lands_refl assms(2))
qed

text \<open>Configuration commands are never read back as an empty joint change.\<close>

lemma collect_peers_length: "collect_peers specs = Some ps \<Longrightarrow> length ps = length specs"
  by (induction specs arbitrary: ps) (auto split: option.splits)

lemma joint_command_ok:
  assumes "faithful env" "config_encode (env_pb env) (Joint ms) = Some d" "ms \<noteq> []"
  shows "config_decode (env_pb env) d \<noteq> Some (Joint [])"
  using assms collect_peers_length [of "map peer_spec_of ms" "[]"]
  by (auto simp: faithful_def protobuf_roundtrip_def config_encode_def config_decode_def)

lemma join_command_ok:
  assumes "faithful env" "config_encode (env_pb env) (Join p) = Some d"
  shows "config_decode (env_pb env) d \<noteq> Some (Joint [])"
  using assms by (auto simp: faithful_def protobuf_roundtrip_def config_encode_def config_decode_def)

lemma submit_joint_lands:
  assumes "faithful env" "ready env n" "members \<noteq> []"
  obtains r n' where "submit_joint_configuration env members t n = Some (r, n')" "lands env n n'"
proof -
  consider (busy) "is_joint_consensus (cluster_config n) \<or> finalize_configuration_pending n \<or>
      has_uncommitted_configuration_change env n"
    | (large) "\<not> (is_joint_consensus (cluster_config n) \<or> finalize_configuration_pending n \<or>
      has_uncommitted_configuration_change env n)" "config_encode (env_pb env) (Joint members) = None"
    | (sent) d where "\<not> (is_joint_consensus (cluster_config n) \<or> finalize_configuration_pending n \<or>
      has_uncommitted_configuration_change env n)" "config_encode (env_pb env) (Joint members) = Some d"
    by (cases "config_encode (env_pb env) (Joint members)") blast+
  then show thesis
  proof cases
    case busy
    then show thesis
      by (intro that [of "Inl ERR_CONFIG_IN_PROGRESS" n]) (simp_all add: submit_joint_configuration_def lands_refl assms(2))
  next
    case large
    then show thesis
      by (intro that [of "Inl ERR_TOO_LARGE" n]) (simp_all add: submit_joint_configuration_def lands_refl assms(2))
  next
    case (sent d)
    obtain r m where m: "submit_command env d t n = Some (r, m)" "lands env n m"
      by (rule submit_lands [OF assms(1,2) joint_command_ok [OF assms(1) sent(2) assms(3)]])
    show thesis
    proof (cases r)
      case (Inl e)
      with sent m show thesis by (intro that [of "Inl e" m]) (simp_all add: submit_joint_configuration_def)
    next
      case (Inr index)
      have "ready env m" using m(2) by (simp add: lands_def)
      then obtain n' where "maybe_auto_finalize_joint_configuration env m = Some n'" "lands env m n'"
        by (rule auto_finalize_lands [OF assms(1)])
      with sent m Inr show thesis
        by (intro that [of "Inr index" n']) (auto simp: submit_joint_configuration_def intro: lands_trans)
    qed
  qed
qed

lemma submit_join_lands:
  assumes "faithful env" "ready env n"
  obtains r n' where "submit_join env p t n = Some (r, n')" "lands env n n'"
proof -
  have "(\<exists>r. submit_join env p t n = Some (r, n)) \<or>
      (\<exists>d. config_encode (env_pb env) (Join p) = Some d \<and> submit_join env p t n = submit_command env d t n)"
    by (auto simp: submit_join_def split: option.split)
  then show thesis
  proof (elim disjE exE conjE)
    fix r
    assume "submit_join env p t n = Some (r, n)"
    with lands_refl [OF assms(2)] show thesis by (intro that)
  next
    fix d
    assume d: "config_encode (env_pb env) (Join p) = Some d" "submit_join env p t n = submit_command env d t n"
    from submit_lands [OF assms join_command_ok [OF assms(1) d(1)], of t] d(2) that show thesis by auto
  qed
qed

lemma push_peer_nonempty: "ps \<noteq> [] \<or> qs \<noteq> [] \<Longrightarrow> fold push_peer qs ps \<noteq> []"
proof (induction qs arbitrary: ps)
  case (Cons q qs)
  have "push_peer q ps \<noteq> []" by (cases ps) (auto simp: push_peer_def)
  with Cons.IH show ?case by simp
qed simp

lemma promote_lands:
  assumes "faithful env" "ready env n"
  obtains n' where "maybe_promote_pending_joiners env t n = Some n'" "lands env n n'"
proof (cases "state n \<noteq> Leader \<or> bm_is_empty (pending_joiners n) \<or> is_joint_consensus (cluster_config n) \<or>
    finalize_configuration_pending n \<or> ready_joiners n = []")
  case True
  then show thesis by (intro that [of n]) (simp_all add: maybe_promote_pending_joiners_def lands_refl assms(2))
next
  case False
  then have "fold push_peer (ready_joiners n) (all_members (cluster_config n)) \<noteq> []"
    by (intro push_peer_nonempty) simp
  then obtain r n' where "submit_joint_configuration env
      (fold push_peer (ready_joiners n) (all_members (cluster_config n))) t n = Some (r, n')" "lands env n n'"
    by (rule submit_joint_lands [OF assms])
  with False show thesis by (intro that [of n']) (simp_all add: maybe_promote_pending_joiners_def)
qed

section \<open>Soundness of the handlers\<close>

definition sound :: "'sm env \<Rightarrow> 'sm node option \<Rightarrow> bool" where
  "sound env r \<longleftrightarrow> (\<exists>n'. r = Some n' \<and> node_inv env n')"

lemma sound_Some [simp]: "sound env (Some n') \<longleftrightarrow> node_inv env n'"
  by (simp add: sound_def)

lemma lands_sound:
  assumes "faithful env" "node_inv env n" "r = Some n'" "lands env n n'"
  shows "sound env r"
  using assms lands_inv by (auto simp: sound_def)

text \<open>Fields that the invariant does not read.\<close>

lemma same_log_updates [simp]:
  "same_log n (m\<lparr>current_millis := t\<rparr>) = same_log n m" "same_log n (m\<lparr>transport := cs\<rparr>) = same_log n m"
  "same_log n (m\<lparr>state := r\<rparr>) = same_log n m" "same_log n (m\<lparr>read_domain := x\<rparr>) = same_log n m"
  "same_log n (m\<lparr>granted_votes := g\<rparr>) = same_log n m" "same_log n (m\<lparr>snapshot_offsets := c\<rparr>) = same_log n m"
  "same_log n (m\<lparr>last_follower_contact_millis := l\<rparr>) = same_log n m"
  "same_log n (m\<lparr>last_successful_leader_sync_millis := o'\<rparr>) = same_log n m"
  "same_log n (restart_timeout t m) = same_log n m" "same_log n (back_off p m) = same_log n m"
  "same_log n (record_replication_progress p i m) = same_log n m"
  by (simp_all add: same_log_def back_off_def record_replication_progress_def Let_def split: option.splits)

lemma synced_updates [simp]:
  "synced (m\<lparr>current_millis := t\<rparr>) = synced m" "synced (m\<lparr>transport := cs\<rparr>) = synced m"
  "synced (m\<lparr>snapshot_offsets := c\<rparr>) = synced m" "synced (m\<lparr>last_follower_contact_millis := l\<rparr>) = synced m"
  "synced (m\<lparr>granted_votes := g\<rparr>) = synced m" "synced (m\<lparr>read_domain := x\<rparr>) = synced m"
  "synced (step_down trm t m)" "synced (back_off p m) = synced m" "synced (record_replication_progress p i m) = synced m"
  by (simp_all add: synced_def back_off_def record_replication_progress_def Let_def split: option.splits)

lemma same_log_step_down: "same_log n (step_down trm t (n\<lparr>current_millis := t\<rparr>))"
  by (simp add: same_log_def)

lemma same_log_sound:
  assumes "node_inv env n" "same_log n m" "tame n m"
  shows "node_inv env m"
  using assms node_inv_same_log [of env n m]
  by (simp add: node_inv_def node_core_def tame_def vote_step_def)

lemma become_leader_sound:
  assumes "faithful env" "node_inv env n"
  shows "sound env (become_leader env t n)"
proof -
  let ?n = "n\<lparr>state := Leader, known_leader_id := Some (my_id n), last_successful_leader_sync_millis := None,
      current_millis := t, granted_votes := {}, last_follower_contact_millis := bm_empty\<rparr>"
  obtain c where c: "effective_configuration env ?n = Some c"
    by (rule effective_configuration_total [of env ?n]) (use assms(2) in \<open>simp_all add: node_inv_def\<close>)
  define m where "m = fold (reset_progress (last_index (n_log n))) (all_members c) ?n"
  have "progress_only ?n m" unfolding m_def by (rule reset_progress_frame)
  then have m: "m = ?n\<lparr>next_index := next_index m, match_index := match_index m, snapshot_offsets := snapshot_offsets m\<rparr>"
    by (simp add: progress_only_def)
  have "same_log n m \<and> synced m \<and> state m = Leader"
    by (subst (1 2 3) m) (use assms(2) in \<open>simp add: same_log_def synced_def node_inv_def node_core_def\<close>)
  then have f: "node_inv env m" "state m = Leader" using node_inv_same_log [OF assms(2)] by simp_all
  let ?e = "entry_noop (current_term m) (my_id m)"
  let ?a = "m\<lparr>n_log := log_append (n_log m) [?e]\<rparr>"
  have a: "lands env m ?a"
    using append_lands [OF node_inv_ready [OF f(1)] f(2), of ?e "current_millis m"] faithful_noop [OF assms(1)]
    by (simp add: entry_noop_def)
  then have "ready env ?a" "state ?a = Leader" using f(2) by (simp_all add: lands_def)
  then obtain n' where n': "advance_commit_index env ?a = Some n'" "lands env ?a n'"
    by (rule advance_lands [OF assms(1)])
  have "become_leader env t n = Some n'"
    using c n'(1) by (simp add: become_leader_def Let_def m_def)
  from lands_sound [OF assms(1) f(1) this lands_trans [OF a n'(2)]] show ?thesis .
qed

lemma election_sound:
  assumes "faithful env" "node_inv env n" "current_term n \<noteq> U64_MAX"
  shows "sound env (start_election env t n)"
proof (cases "joining n \<or> (\<exists>c. effective_configuration env n = Some c \<and> \<not> is_voter c (my_id n))")
  case True
  let ?m = "restart_timeout t (n\<lparr>current_millis := t, transport := transport n @ [TSetMillis t], state := Follower\<rparr>)"
  have "synced ?m" using assms(2) by (simp add: node_inv_def node_core_def synced_def)
  with node_inv_same_log [OF assms(2), of ?m] election_idle [OF True, of t] show ?thesis by simp
next
  case False
  obtain c where c: "effective_configuration env n = Some c"
    by (rule effective_configuration_total [of env n]) (use assms(2) in \<open>simp_all add: node_inv_def\<close>)
  with False have v: "is_voter c (my_id n)" "\<not> joining n" by auto
  from c v show ?thesis
  proof (cases rule: election_campaign [where t = t])
    case overflow
    with assms(3) show ?thesis by simp
  next
    case (campaign m)
    have "node_inv env m" using node_inv_same_log [OF assms(2)] campaign(2) by (simp add: candidate_of_def)
    with become_leader_sound [OF assms(1) this] campaign(3) show ?thesis by simp
  qed
qed

lemma vote_eligible_total: "effective_configuration env m = Some c \<Longrightarrow> \<exists>b. vote_eligible env req m = Some b"
  by (auto simp: vote_eligible_def)

lemma vote_request_sound:
  assumes "node_inv env n"
  obtains resp n' where "handle_vote_request env req t n = Some (resp, n')" "node_inv env n'"
proof -
  let ?m = "if current_term (n\<lparr>current_millis := t\<rparr>) < vq_term req then step_down (vq_term req) t (n\<lparr>current_millis := t\<rparr>)
    else n\<lparr>current_millis := t\<rparr>"
  obtain c where "effective_configuration env ?m = Some c"
    by (rule effective_configuration_total [of env ?m]) (use assms in \<open>simp_all add: node_inv_def\<close>)
  then obtain b where "vote_eligible env req ?m = Some b" using vote_eligible_total by blast
  then obtain resp n' where r: "handle_vote_request env req t n = Some (resp, n')"
    unfolding handle_vote_request_def Let_def by auto
  from same_log_sound [OF assms] vote_request_facts(1,2) [OF r] r that show thesis by blast
qed

lemma vote_response_sound:
  assumes "faithful env" "node_inv env n"
  shows "sound env (handle_vote_response env p resp t n)"
proof -
  let ?n = "n\<lparr>current_millis := t\<rparr>"
  let ?n1 = "n\<lparr>current_millis := t, granted_votes := insert p (granted_votes n)\<rparr>"
  have sync: "synced n" using assms(2) by (simp add: node_inv_def node_core_def)
  have n: "node_inv env ?n" "node_inv env ?n1" "node_inv env (step_down (vs_term resp) t ?n)"
    by (rule node_inv_same_log [OF assms(2)]; use sync in \<open>simp add: same_log_step_down\<close>)+
  obtain c where c: "effective_configuration env n = Some c"
    by (rule effective_configuration_total [of env n]) (use assms(2) in \<open>simp_all add: node_inv_def\<close>)
  have eff: "effective_configuration env ?n = Some c" "effective_configuration env ?n1 = Some c"
    by (subst c [symmetric], rule effective_configuration_cong; simp)+
  show ?thesis
    using n become_leader_sound [OF assms(1) n(2)] eff
    by (simp add: handle_vote_response_def has_election_majority_def Let_def)
qed

lemma accepts_total:
  assumes "joints_ok env (n_log n)"
  obtains a where "accepts_replication_response env n p q = Some a"
proof -
  obtain c where "effective_configuration env n = Some c" by (rule effective_configuration_total [OF assms])
  with that show thesis by (cases "p \<noteq> q \<or> p = my_id n") (auto simp: accepts_replication_response_def)
qed

lemma advance_sound:
  assumes "faithful env" "node_inv env n" "state n = Leader"
  obtains n' where "advance_commit_index env n = Some n'" "node_inv env n'"
proof -
  obtain n' where "advance_commit_index env n = Some n'" "lands env n n'"
    by (rule advance_lands [OF assms(1) node_inv_ready [OF assms(2)] assms(3)])
  with assms that show thesis by (blast intro: lands_inv)
qed

lemma append_response_sound:
  assumes "faithful env" "node_inv env n"
  shows "sound env (handle_append_entries_response env p resp t n)"
proof -
  let ?n = "n\<lparr>current_millis := t\<rparr>"
  have sync: "synced n" and ok: "joints_ok env (n_log ?n)" using assms(2) by (simp_all add: node_inv_def node_core_def)
  define m where "m = (record_replication_progress p (as_match_index resp) ?n)
      \<lparr>last_follower_contact_millis :=
        bm_insert p t (last_follower_contact_millis (record_replication_progress p (as_match_index resp) ?n))\<rparr>"
  have inv: "node_inv env ?n" "node_inv env (step_down (as_term resp) t ?n)" "node_inv env (back_off p ?n)" "node_inv env m"
    by (rule node_inv_same_log [OF assms(2)];
        use sync in \<open>simp add: m_def same_log_step_down\<close>)+
  obtain a where a: "accepts_replication_response env ?n p (as_peer_id resp) = Some a" by (rule accepts_total [OF ok])
  have "sound env (Option.bind (advance_commit_index env m) (maybe_auto_finalize_joint_configuration env))" if "state n = Leader"
  proof -
    have "state m = Leader" using that by (simp add: m_def)
    then obtain k where k: "advance_commit_index env m = Some k" "node_inv env k"
      by (rule advance_sound [OF assms(1) inv(4)])
    obtain n' where "maybe_auto_finalize_joint_configuration env k = Some n'" "lands env k n'"
      by (rule auto_finalize_lands [OF assms(1) node_inv_ready [OF k(2)]])
    with k assms(1) show ?thesis by (simp add: lands_inv)
  qed
  with a inv show ?thesis
    by (simp add: handle_append_entries_response_def Let_def m_def [symmetric] del: not_le)
qed

lemma snapshot_response_sound:
  assumes "faithful env" "node_inv env n"
  shows "sound env (handle_install_snapshot_response env p resp off fin t n)"
proof -
  let ?n = "n\<lparr>current_millis := t\<rparr>"
  have sync: "synced n" and ok: "joints_ok env (n_log ?n)" using assms(2) by (simp_all add: node_inv_def node_core_def)
  define m where "m = (let n2 = record_replication_progress p (is_last_included_index resp)
        (?n\<lparr>snapshot_offsets := bm_insert p off (snapshot_offsets ?n)\<rparr>)
      in n2\<lparr>snapshot_offsets := bm_insert p 0 (snapshot_offsets n2)\<rparr>)"
  have inv: "node_inv env ?n" "node_inv env (step_down (is_term resp) t ?n)" "node_inv env (?n\<lparr>snapshot_offsets := c\<rparr>)"
    "node_inv env m" for c
    by (rule node_inv_same_log [OF assms(2)];
        use sync in \<open>simp add: m_def same_log_step_down Let_def\<close>)+
  obtain a where a: "accepts_replication_response env ?n p (is_peer_id resp) = Some a" by (rule accepts_total [OF ok])
  have "sound env (advance_commit_index env m)" if "state n = Leader"
  proof -
    have "state m = Leader" using that by (simp add: m_def Let_def)
    then show ?thesis by (rule advance_sound [OF assms(1) inv(4)]) simp
  qed
  with a inv show ?thesis
    by (simp add: handle_install_snapshot_response_def Let_def m_def)
qed

lemma heartbeat_sound:
  assumes "faithful env" "node_inv env n"
  shows "sound env (broadcast_heartbeat env t n)"
proof -
  let ?n = "send (TSetMillis t) (n\<lparr>current_millis := t\<rparr>)"
  have sync: "synced n" using assms(2) by (simp add: node_inv_def node_core_def)
  have inv: "node_inv env (n\<lparr>current_millis := t, transport := cs\<rparr>)" for cs
    by (rule node_inv_same_log [OF assms(2)]) (use sync in simp_all)
  obtain c where c: "effective_configuration env ?n = Some c"
    by (rule effective_configuration_total [of env ?n]) (use assms(2) in \<open>simp_all add: node_inv_def send_def\<close>)
  let ?ps = "fold push_peer (pending_joiner_peers ?n) (all_members c)"
  let ?m = "send THeartbeatComplete (fold replicate_to ?ps ?n)"
  have m: "?m = n\<lparr>current_millis := t, transport := transport (fold replicate_to ?ps ?n) @ [THeartbeatComplete]\<rparr>"
    by (subst replicate_frame) (simp add: send_def)
  have "node_inv env ?m" unfolding m by (rule inv)
  then obtain n' where n': "maybe_promote_pending_joiners env t ?m = Some n'" "lands env ?m n'"
    by (rule promote_lands [OF assms(1) node_inv_ready])
  have "sound env (maybe_promote_pending_joiners env t ?m)"
    by (rule lands_sound [OF assms(1) \<open>node_inv env ?m\<close> n'])
  moreover have "node_inv env ?n" using inv by (simp add: send_def)
  ultimately show ?thesis by (simp add: broadcast_heartbeat_def replication_peers_def c Let_def)
qed

lemma read_sound:
  assumes "faithful env" "node_inv env n"
  obtains r n' where "begin_read env q t d n = Some (r, n')" "node_inv env n'"
proof (cases "\<exists>r. begin_read env q t d n = Some (r, n)")
  case True
  with assms(2) that show thesis by blast
next
  case False
  let ?e = "entry_noop (current_term n) (my_id n)"
  let ?m = "\<lambda>x. n\<lparr>read_domain := Some x, current_millis := t, n_log := log_append (n_log n) [?e]\<rparr>"
  obtain x r where x: "state n = Leader"
    "begin_read env q t d n = Option.bind (advance_commit_index env (?m x)) (\<lambda>n3. Some (r, n3))"
    using False
    by (auto simp: begin_read_def begin_read_with_def Let_def split: if_splits option.splits sum.splits)
  have sync: "synced n" using assms(2) by (simp add: node_inv_def node_core_def)
  have i: "node_inv env (n\<lparr>read_domain := Some x\<rparr>)"
    by (rule node_inv_same_log [OF assms(2)]) (use sync in simp_all)
  have "lands env (n\<lparr>read_domain := Some x\<rparr>) (?m x)"
    using append_lands [OF node_inv_ready [OF i], of ?e t] x(1) faithful_noop [OF assms(1)] by (simp add: entry_noop_def)
  then have "node_inv env (?m x)" by (rule lands_inv [OF _ i assms(1)])
  then obtain n' where "advance_commit_index env (?m x) = Some n'" "node_inv env n'"
    by (rule advance_sound [OF assms(1)]) (simp_all add: x(1))
  with x(2) that show thesis by simp
qed

section \<open>Appending from a leader\<close>

text \<open>
  The request agrees with what this node has committed: the assumption Raft discharges for
  every leader of the cluster. And it carries no empty joint entry.
\<close>

definition committed_agrees :: "'sm node \<Rightarrow> append_entries_request \<Rightarrow> bool" where
  "committed_agrees n req \<longleftrightarrow>
     (\<forall>k < length (aq_entries req).
        snapshot_index (n_log n) < aq_prev_log_index req + 1 + k \<and> aq_prev_log_index req + 1 + k \<le> commit_index n \<longrightarrow>
        term_at (n_log n) (aq_prev_log_index req + 1 + k) = e_term (aq_entries req ! k))"

definition entries_ok :: "'sm env \<Rightarrow> log_entry list \<Rightarrow> bool" where
  "entries_ok env es \<longleftrightarrow> (\<forall>e \<in> set es. config_decode (env_pb env) (e_data e) \<noteq> Some (Joint []))"

lemma normalize_entries:
  assumes "normalize_append l req = Inr (prev, prev_term, es)"
  shows "snapshot_index l \<le> prev" "aq_prev_log_index req \<le> prev"
    "es = drop (prev - aq_prev_log_index req) (aq_entries req)"
  using assms by (auto simp: normalize_append_def Let_def split: if_splits)

lemma merge_entries_set: "set (ls_entries (merge_entries l idx es)) \<subseteq> set (ls_entries l) \<union> set es"
proof (induction es arbitrary: idx)
  case (Cons e es)
  have "set (ls_entries (truncate_from l idx)) \<subseteq> set (ls_entries l)"
    by (auto simp: truncate_from_def dest: in_set_takeD)
  with Cons [of "Suc idx"] show ?case by (auto simp: merge_entries_def log_append_def)
qed (simp add: merge_entries_def)

lemma configuration_at_cong:
  assumes "snapshot_index (n_log m) = snapshot_index (n_log n)" "snapshot_config m = snapshot_config n"
    and "\<And>i. i \<le> j \<Longrightarrow> entry_at (n_log m) i = entry_at (n_log n) i"
  shows "configuration_at env m j = configuration_at env n j"
proof -
  have "config_fold pb (n_log m) xs c = config_fold pb (n_log n) xs c" if "\<And>x. x \<in> set xs \<Longrightarrow> x \<le> j" for pb xs c
    using that
  proof (induction xs arbitrary: c)
    case (Cons x xs)
    have "config_fold pb (n_log m) xs = config_fold pb (n_log n) xs" using Cons by auto
    with assms(3) [of x] Cons.prems show ?case by (cases "entry_at (n_log n) x") simp_all
  qed simp
  from this [of "[sat_add (snapshot_index (n_log n)) 1 ..< Suc j]"] assms(1,2) show ?thesis
    by (simp add: configuration_at_def less_Suc_eq_le del: upt_Suc)
qed

text \<open>A leader's entries replace nothing committed.\<close>

lemma merge_facts:
  assumes norm: "normalize_append (n_log n) req = Inr (prev, prev_term, es)" and prev: "prev \<le> last_index (n_log n)"
    and inv: "log_inv n"
  defines "l \<equiv> merge_entries (n_log n) (prev + 1) es"
  shows "snapshot_index l = snapshot_index (n_log n)" "prev + length es \<le> last_index l"
    "k < length es \<Longrightarrow> \<exists>x. entry_at l (prev + 1 + k) = Some x \<and> e_term x = e_term (es ! k)"
    "committed_agrees n req \<Longrightarrow> commit_index n \<le> last_index l \<and> (\<forall>j \<le> commit_index n. entry_at l j = entry_at (n_log n) j)"
proof -
  note norm = normalize_entries [OF norm]
  have i: "snapshot_index (n_log n) < prev + 1" "prev + 1 \<le> Suc (last_index (n_log n))" "commit_index n \<le> last_index (n_log n)"
    using norm(1) prev inv by (auto simp: log_inv_def)
  show "snapshot_index l = snapshot_index (n_log n)" by (simp add: l_def merge_entries_eq mem.merge_snap)
  show "prev + length es \<le> last_index l"
    using mem.merge_last [OF i(1,2), of es] by (auto simp: l_def merge_entries_eq split: if_splits)
  show "k < length es \<Longrightarrow> \<exists>x. entry_at l (prev + 1 + k) = Some x \<and> e_term x = e_term (es ! k)"
    using mem.merge_new [OF i(1,2), of k es] by (simp add: l_def merge_entries_eq)
  assume agree: "committed_agrees n req"
  have terms: "term_at (n_log n) (prev + 1 + k) = e_term (es ! k)" if "k < length es" "prev + 1 + k \<le> commit_index n" for k
    using agree [unfolded committed_agrees_def, rule_format, of "prev - aq_prev_log_index req + k"] that norm
    by (simp add: add.commute add.left_commute)
  show "commit_index n \<le> last_index l \<and> (\<forall>j \<le> commit_index n. entry_at l j = entry_at (n_log n) j)"
    using mem.merge_prefix [OF i terms] by (simp add: l_def merge_entries_eq)
qed

lemma merge_sound:
  assumes inv: "node_inv env n" and norm: "normalize_append (n_log n) req = Inr (prev, prev_term, es)"
    and prev: "prev \<le> last_index (n_log n)" and agree: "committed_agrees n req" and ok: "entries_ok env (aq_entries req)"
    and m: "same_log n m" "synced m"
  shows "node_inv env (m\<lparr>n_log := merge_entries (n_log n) (prev + 1) es\<rparr>)"
    "prev + length es \<le> last_index (merge_entries (n_log n) (prev + 1) es)"
proof -
  let ?l = "merge_entries (n_log n) (prev + 1) es"
  have "log_inv n" using inv by (simp add: node_inv_def node_core_def)
  note facts = merge_facts [OF norm prev this] and norm = normalize_entries [OF norm]
  have keep: "commit_index n \<le> last_index ?l" "\<And>j. j \<le> commit_index n \<Longrightarrow> entry_at ?l j = entry_at (n_log n) j"
    using facts(4) [OF agree] by simp_all
  note snap = facts(1)
  show "prev + length es \<le> last_index ?l" by (rule facts(2))
  have m': "node_inv env m" by (rule node_inv_same_log [OF inv m])
  have "configuration_at env (m\<lparr>n_log := ?l\<rparr>) (last_applied m) = configuration_at env m (last_applied m)"
    by (rule configuration_at_cong) (use snap keep(2) m(1) inv in \<open>auto simp: same_log_def node_inv_def\<close>)
  moreover have "joints_ok env ?l"
    using merge_entries_set [of "n_log n" "prev + 1" es] inv ok norm(3)
    by (auto simp: joints_ok_def node_inv_def entries_ok_def dest!: subsetD in_set_dropD)
  ultimately show "node_inv env (m\<lparr>n_log := ?l\<rparr>)"
    using m' snap keep(1) m(1) inv
    by (auto simp: node_inv_def node_core_def log_inv_def config_inv_def same_log_def synced_def stream_ok_def)
qed

lemma commit_sound:
  assumes "faithful env" "node_inv env n" "commit_index n < c" "c \<le> last_index (n_log n)"
  shows "sound env (apply_committed env (n\<lparr>commit_index := c\<rparr>))"
proof -
  let ?m = "n\<lparr>commit_index := c\<rparr>"
  have core: "node_core env ?m"
    using assms(2-4) by (auto simp: node_inv_def node_core_def log_inv_def config_inv_def configuration_at_eq synced_def
        stream_ok_def)
  then have "ready env ?m" using assms(2) by (simp add: ready_def node_core_def node_inv_def)
  then have "settles env (apply_committed env) ?m" by (rule apply_committed_settles [OF faithful_finalize [OF assms(1)]])
  then obtain n' where n': "apply_committed env ?m = Some n'" "last_applied n' = commit_index n'" "ready env n'"
    by (rule settlesE)
  have "node_core env n'" by (rule node_core_steps [OF apply_committed_steps [OF n'(1)] core assms(1)])
  with n' show ?thesis by (simp add: node_inv_def ready_def)
qed

lemma append_sound:
  assumes "faithful env" "node_inv env n" "committed_agrees n req" "entries_ok env (aq_entries req)"
  obtains resp n' where "handle_append_entries env req t n = Some (resp, n')" "node_inv env n'"
proof -
  let ?n = "n\<lparr>current_millis := t\<rparr>"
  let ?f = "follow (aq_leader_id req) (aq_term req) t ?n"
  have sync: "synced n" using assms(2) by (simp add: node_inv_def node_core_def)
  have f: "same_log n ?f" "synced ?f" using sync by (simp_all add: same_log_def synced_def)
  have inv: "node_inv env ?n" "node_inv env ?f"
    by (rule node_inv_same_log [OF assms(2)]; use sync f in simp)+
  show thesis
  proof (cases "aq_term req < current_term n \<or> leader_refused ?n (aq_leader_id req) (aq_term req)")
    case True
    then have "\<exists>resp. handle_append_entries env req t n = Some (resp, ?n)"
      by (cases "aq_term req < current_term n") (simp_all add: handle_append_entries_def Let_def)
    with inv(1) that show thesis by blast
  next
    case fresh: False
    show thesis
    proof (cases "normalize_append (n_log n) req")
      case (Inl r)
      with fresh have "\<exists>resp. handle_append_entries env req t n = Some (resp, ?f)"
        by (cases r) (simp add: handle_append_entries_def Let_def)
      with inv(2) that show thesis by blast
    next
      case (Inr r)
      obtain prev prev_term es where r: "normalize_append (n_log n) req = Inr (prev, prev_term, es)"
        using Inr by (cases r) auto
      show thesis
      proof (cases "last_index (n_log n) < prev \<or> 0 < prev \<and> term_at (n_log n) prev \<noteq> prev_term")
        case True
        with fresh r have "\<exists>resp. handle_append_entries env req t n = Some (resp, ?f)"
          by (cases "last_index (n_log n) < prev") (simp_all add: handle_append_entries_def Let_def)
        with inv(2) that show thesis by blast
      next
        case False
        let ?m = "?f\<lparr>n_log := merge_entries (n_log n) (prev + 1) es\<rparr>"
        let ?c = "min (aq_leader_commit req) (prev + length es)"
        note merge = merge_sound [OF assms(2) r _ assms(3,4) f]
        have m: "node_inv env ?m" "?c \<le> last_index (n_log ?m)" using merge False by (simp_all add: min.coboundedI2)
        have "sound env (if commit_index n < ?c then apply_committed env (?m\<lparr>commit_index := ?c\<rparr>) else Some ?m)"
          using commit_sound [OF assms(1) m(1) _ m(2)] m(1) by simp
        then obtain n3 where n3: "(if commit_index n < ?c then apply_committed env (?m\<lparr>commit_index := ?c\<rparr>) else Some ?m) = Some n3"
          "node_inv env n3" by (auto simp: sound_def)
        have "node_inv env (n3\<lparr>last_successful_leader_sync_millis := Some t\<rparr>)"
          by (rule node_inv_same_log [OF n3(2)]) (use n3(2) in \<open>simp_all add: node_inv_def node_core_def synced_def\<close>)
        with append_matched [of req n t prev prev_term es env] fresh r False n3(1) that show thesis
          by (simp add: Let_def del: min_less_iff_conj)
      qed
    qed
  qed
qed

section \<open>Installing a leader's snapshot\<close>

text \<open>
  A completed stream is a membership envelope, as every snapshot taken by a node is.
\<close>

definition enveloped :: "bytes \<Rightarrow> bool" where
  "enveloped data = (case decode_snapshot_payload data of Some e \<Rightarrow> env_current_members e \<noteq> [] | None \<Rightarrow> False)"

lemma envelope_configuration_total:
  assumes "env_current_members e \<noteq> []"
  obtains c where "envelope_configuration e = Some c"
proof -
  obtain c where c: "stable (env_current_members e) = Some c"
    using assms by (auto simp: stable_def Let_def member_map_empty_iff)
  show thesis
  proof (cases "env_next_members e = []")
    case True
    with c that show thesis by (simp add: envelope_configuration_def)
  next
    case False
    then have "transition_to c (env_next_members e) \<noteq> None" by (simp add: transition_None_iff)
    with c False that show thesis by (auto simp: envelope_configuration_def)
  qed
qed

lemma install_membership_total:
  assumes "env_current_members e \<noteq> []"
  obtains n' where "install_membership i e n = Some n'"
  by (rule envelope_configuration_total [OF assms]) (use that in \<open>simp add: install_membership_def Let_def\<close>)

lemma install_entries: "set (ls_entries (log_install_snapshot l i trm d)) \<subseteq> set (ls_entries l)"
  by (auto simp: log_install_snapshot_def Let_def dest: in_set_dropD split: option.splits if_splits)

lemma install_stream_sound:
  assumes "node_inv env n" "enveloped (sn_data snap)" "0 < sn_last_included_index snap"
  obtains ok n' where "install_stream env t snap n = Some (ok, n')" "node_inv env n'"
proof -
  from assms(2) obtain e where e: "decode_snapshot_payload (sn_data snap) = Some e" "env_current_members e \<noteq> []"
    by (auto simp: enveloped_def split: option.splits)
  let ?i = "sn_last_included_index snap"
  let ?l = "log_install_snapshot (n_log n) ?i (sn_last_included_term snap) (sn_data snap)"
  have "\<exists>ok n'. install_stream env t snap n = Some (ok, n')"
  proof -
    let ?m = "\<lambda>machine. n\<lparr>state_machine := machine, n_log := ?l, commit_index := ?i, last_applied := ?i\<rparr>"
    have "\<exists>n'. install_membership ?i e (?m machine) = Some n'" for machine
      using install_membership_total [OF e(2), of ?i "?m machine"] by blast
    then show ?thesis
      using e(2) unfolding install_stream_def Let_def e(1) option.simps
      by (auto simp: bind_eq_Some_conv split: sum.split)
  qed
  then obtain ok n' where r: "install_stream env t snap n = Some (ok, n')" by blast
  from r have "node_inv env n'"
  proof (cases rule: install_stream_cases)
    case refused
    have "node_inv env (n\<lparr>pending_snap := None\<rparr>)"
      by (rule node_inv_same_log [OF assms(1)])
        (use assms(1) in \<open>simp_all add: same_log_def node_inv_def node_core_def synced_def\<close>)
    with refused show ?thesis by simp
  next
    case (installed machine n1 n2)
    with e have "install_membership ?i e n1 = Some n2" by simp
    note f = install_membership_frame [OF this]
    have "joints_ok env ?l" using assms(1) install_entries by (fastforce simp: node_inv_def joints_ok_def)
    moreover have "synced n2" using f(6) assms(1) by (simp add: installed(2) calm_def synced_def node_inv_def node_core_def)
    moreover have "bm_len (applied_command_results n2) \<le> 128"
      using f(7) assms(1) by (simp add: installed(2) node_inv_def node_core_def)
    moreover have "configuration_at env n2 ?i = Some (cluster_config n2)"
      using f(2,3) by (simp add: installed(2) configuration_at_eq)
    ultimately show ?thesis
      using f(3-5) install_snapshot_last [of ?i "n_log n" "sn_last_included_term snap" "sn_data snap"]
      by (simp add: installed(2,4) node_inv_def node_core_def log_inv_def config_inv_def configuration_at_def synced_def
          stream_ok_def del: upt_Suc)
  qed
  with r that show thesis by blast
qed

text \<open>What a request must satisfy: when it completes a stream, the stream is enveloped.\<close>

definition snapshot_ok :: "'sm node \<Rightarrow> install_snapshot_request \<Rightarrow> bool" where
  "snapshot_ok n req =
     (iq_done req \<longrightarrow>
        (case receive_chunk req (open_stream req (if current_term n < iq_term req then None else pending_snap n)) of
           Accepted snap \<Rightarrow> enveloped (sn_data snap)
         | _ \<Rightarrow> True))"

lemma follow_pending: "pending_snap (follow l trm t n) = (if current_term n < trm then None else pending_snap n)"
  by (simp add: follow_def step_down_def Let_def)

lemma stream_step:
  assumes "stream_ok n" "open_stream req (pending_snap n) = Some s"
  shows "sn_offset s = length (sn_data s)" "length (sn_data s) \<le> MAX_SNAPSHOT_BYTES"
  using assms by (auto simp: open_stream_def stream_ok_def split: option.splits if_splits)

lemma receive_chunk_ok:
  assumes "receive_chunk req (Some s) = Accepted snap" "sn_offset s = length (sn_data s)"
  shows "sn_offset snap = length (sn_data snap)" "length (sn_data snap) \<le> MAX_SNAPSHOT_BYTES"
    "sn_last_included_index snap = iq_last_included_index req"
  using assms by (auto simp: receive_chunk_def sat_add_def MAX_SNAPSHOT_BYTES_def U64_MAX_def split: if_splits)

lemma node_inv_stream:
  assumes "node_inv env n" "\<And>s. p = Some s \<Longrightarrow> sn_offset s = length (sn_data s) \<and> length (sn_data s) \<le> MAX_SNAPSHOT_BYTES"
  shows "node_inv env (n\<lparr>pending_snap := p\<rparr>)"
  using assms
  by (auto simp: node_inv_def node_core_def log_inv_def config_inv_def configuration_at_def synced_def stream_ok_def
      split: option.splits)

lemma receive_snapshot_sound:
  assumes "node_inv env n"
    "\<And>snap. iq_done req \<Longrightarrow> receive_chunk req (open_stream req (pending_snap n)) = Accepted snap \<Longrightarrow> enveloped (sn_data snap)"
  obtains resp n' where "receive_snapshot env req t n = Some (resp, n')" "node_inv env n'"
proof -
  define opened where "opened = open_stream req (pending_snap n)"
  have stream: "stream_ok n" using assms(1) by (simp add: node_inv_def node_core_def)
  have opened: "node_inv env (n\<lparr>pending_snap := p\<rparr>)" if "p = None \<or> p = opened" for p
    using that stream_step [OF stream] by (intro node_inv_stream [OF assms(1)]) (auto simp: opened_def)
  note eq = receive_snapshot_def [of env req t n, unfolded Let_def, folded opened_def]
  show thesis
  proof (cases "iq_last_included_index req \<le> commit_index n")
    case True
    show thesis by (rule that [OF eq [unfolded if_P [OF True]]]) (simp add: opened)
  next
    case ahead: False
    note eq = eq [unfolded if_not_P [OF ahead]]
    show thesis
    proof (cases "receive_chunk req opened")
      case (Refused o')
      show thesis by (rule that [OF eq [unfolded Refused chunk.simps]]) (simp add: opened)
    next
      case Oversized
      show thesis by (rule that [OF eq [unfolded Oversized chunk.simps]]) (simp add: opened)
    next
      case (Accepted snap)
      let ?m = "n\<lparr>pending_snap := Some snap\<rparr>"
      from Accepted obtain s where s: "opened = Some s" by (auto simp: receive_chunk_def split: option.splits)
      note snap = receive_chunk_ok [OF Accepted [unfolded s] stream_step(1) [OF stream s [unfolded opened_def]]]
      have m: "node_inv env ?m" using snap by (intro node_inv_stream [OF assms(1)]) simp_all
      note eq = eq [unfolded Accepted chunk.simps]
      show thesis
      proof (cases "iq_done req")
        case True
        then have e: "enveloped (sn_data snap)" by (rule assms(2)) (simp add: Accepted opened_def [symmetric])
        have "0 < sn_last_included_index snap" using ahead snap(3) by simp
        from install_stream_sound [OF m e this] obtain ok n'
          where r: "install_stream env t snap ?m = Some (ok, n')" "node_inv env n'" .
        show thesis by (rule that [OF _ r(2)]) (use True r(1) in \<open>simp add: eq\<close>)
      next
        case False
        show thesis by (rule that [OF _ m]) (use False in \<open>simp add: eq\<close>)
      qed
    qed
  qed
qed

lemma snapshot_sound:
  assumes "node_inv env n" "snapshot_ok n req"
  obtains resp n' where "handle_install_snapshot env req t n = Some (resp, n')" "node_inv env n'"
proof -
  let ?n = "n\<lparr>current_millis := t\<rparr>"
  define f where "f = follow (iq_leader_id req) (iq_term req) t ?n"
  have sync: "synced n" using assms(1) by (simp add: node_inv_def node_core_def)
  have f: "same_log n f" "synced f" using sync by (simp_all add: f_def same_log_def synced_def)
  have inv: "node_inv env ?n" "node_inv env f"
    by (rule node_inv_same_log [OF assms(1)]; use sync f in simp)+
  have pend: "pending_snap f = (if current_term n < iq_term req then None else pending_snap n)"
    by (simp add: f_def follow_pending)
  show thesis
  proof (cases "iq_term req < current_term n \<or> leader_refused ?n (iq_leader_id req) (iq_term req)")
    case True
    then have "\<exists>resp. handle_install_snapshot env req t n = Some (resp, ?n)"
      by (cases "iq_term req < current_term n") (simp_all add: handle_install_snapshot_def Let_def)
    with inv(1) that show thesis by blast
  next
    case False
    then have eq: "handle_install_snapshot env req t n = receive_snapshot env req t f"
      by (simp add: handle_install_snapshot_def f_def Let_def)
    have whole: "enveloped (sn_data snap)"
      if "iq_done req" "receive_chunk req (open_stream req (pending_snap f)) = Accepted snap" for snap
      using that assms(2) unfolding snapshot_ok_def pend by simp
    obtain resp n' where "receive_snapshot env req t f = Some (resp, n')" "node_inv env n'"
      by (rule receive_snapshot_sound [OF inv(2) whole])
    with eq that show thesis by simp
  qed
qed

section \<open>Every handler\<close>

text \<open>
  What the operations rely on from outside: the term has room for a candidacy, a leader's
  entries agree with what is committed here and hold no empty joint change, a completed
  snapshot stream is enveloped, and nobody proposes an empty joint change.
\<close>

definition op_ok :: "'sm env \<Rightarrow> 'sm node \<Rightarrow> node_op \<Rightarrow> bool" where
  "op_ok env n op =
     (case op of
        OpElection _ \<Rightarrow> current_term n \<noteq> U64_MAX
      | OpAppend req _ \<Rightarrow> committed_agrees n req \<and> entries_ok env (aq_entries req)
      | OpSnapshot req _ \<Rightarrow> snapshot_ok n req
      | OpCommand c _ \<Rightarrow> config_decode (env_pb env) c \<noteq> Some (Joint [])
      | OpJoint ms _ \<Rightarrow> ms \<noteq> []
      | _ \<Rightarrow> True)"

lemma command_sound:
  assumes "faithful env" "node_inv env n" "config_decode (env_pb env) c \<noteq> Some (Joint [])"
  shows "sound env (map_option snd (handle_client_command env c t n))"
proof -
  obtain r n' where "submit_command env c t n = Some (r, n')" "lands env n n'"
    by (rule submit_lands [OF assms(1) node_inv_ready [OF assms(2)] assms(3)])
  then show ?thesis using lands_inv [OF _ assms(2,1)] by (simp add: handle_client_command_def sound_def)
qed

lemma change_sound:
  assumes "faithful env" "node_inv env n"
  shows "ms \<noteq> [] \<Longrightarrow> sound env (map_option snd (submit_joint_configuration env ms t n))"
    "sound env (map_option snd (submit_finalize_configuration env t n))"
    "sound env (map_option snd (submit_join env p t n))"
proof -
  note r = node_inv_ready [OF assms(2)] and inv = lands_inv [OF _ assms(2,1)]
  show "sound env (map_option snd (submit_joint_configuration env ms t n))" if "ms \<noteq> []"
    by (rule submit_joint_lands [OF assms(1) r that, of t]) (simp add: inv sound_def)
  show "sound env (map_option snd (submit_finalize_configuration env t n))"
    by (rule submit_finalize_lands [OF assms(1) r, of t]) (simp add: inv sound_def)
  show "sound env (map_option snd (submit_join env p t n))"
    by (rule submit_join_lands [OF assms(1) r, of p t]) (simp add: inv sound_def)
qed

lemma request_sound:
  assumes "faithful env" "node_inv env n"
  shows "sound env (map_option snd (handle_vote_request env vq t n))"
    "committed_agrees n aq \<Longrightarrow> entries_ok env (aq_entries aq) \<Longrightarrow>
      sound env (map_option snd (handle_append_entries env aq t n))"
    "snapshot_ok n iq \<Longrightarrow> sound env (map_option snd (handle_install_snapshot env iq t n))"
    "sound env (map_option snd (begin_read env q t d n))"
proof -
  show "sound env (map_option snd (handle_vote_request env vq t n))"
    by (rule vote_request_sound [OF assms(2), of vq t]) (simp add: sound_def)
  show "sound env (map_option snd (handle_append_entries env aq t n))"
    if "committed_agrees n aq" "entries_ok env (aq_entries aq)"
    by (rule append_sound [OF assms that, of t]) (simp add: sound_def)
  show "sound env (map_option snd (handle_install_snapshot env iq t n))" if "snapshot_ok n iq"
    by (rule snapshot_sound [OF assms(2) that, of t]) (simp add: sound_def)
  show "sound env (map_option snd (begin_read env q t d n))"
    by (rule read_sound [OF assms, of q t d]) (simp add: sound_def)
qed

lemma run_op_sound:
  assumes "faithful env" "node_inv env n" "op_ok env n op"
  shows "sound env (run_op env op n)"
proof (cases op)
  case (OpSetMillis t)
  have "node_inv env (set_millis t n)"
    using assms(2) by (intro node_inv_same_log [OF assms(2)])
      (simp_all add: set_millis_def send_def same_log_def node_inv_def node_core_def synced_def)
  with OpSetMillis show ?thesis by (simp add: run_op_def)
qed (use assms in \<open>simp_all add: run_op_def op_ok_def election_sound vote_response_sound append_response_sound
    snapshot_response_sound heartbeat_sound command_sound change_sound request_sound\<close>)

section \<open>A node's life\<close>

lemma node_new_sound:
  assumes "node_new env config = Some (Inr n)" "joints_ok env (nc_log_store config)"
  shows "node_inv env n"
proof -
  obtain r machine d where n: "n = (restored_node config r machine)\<lparr>decommissioned := d\<rparr>"
    using assms(1) by (rule node_new_cases)
  let ?m = "restored_node config r machine"
  have m: "n_log ?m = nc_log_store config" "commit_index ?m = snapshot_index (nc_log_store config)"
    "last_applied ?m = snapshot_index (nc_log_store config)" "snapshot_config ?m = cluster_config ?m"
    "applied_command_results ?m = bm_empty" "pending_snap ?m = None" "synced ?m"
    by (simp_all add: restored_node_def Let_def synced_def set_join_admission_def split: prod.split option.split)
  show ?thesis
    using m assms(2)
    by (simp add: n node_inv_def node_core_def log_inv_def config_inv_def configuration_at_eq synced_def stream_ok_def
        last_index_def snapshot_index_def)
qed

primrec run_ops :: "'sm env \<Rightarrow> node_op list \<Rightarrow> 'sm node \<Rightarrow> 'sm node option" where
  "run_ops env [] n = Some n"
| "run_ops env (op # ops) n = (case run_op env op n of None \<Rightarrow> None | Some n' \<Rightarrow> run_ops env ops n')"

primrec ops_ok :: "'sm env \<Rightarrow> node_op list \<Rightarrow> 'sm node \<Rightarrow> bool" where
  "ops_ok env [] n = True"
| "ops_ok env (op # ops) n =
     (op_ok env n op \<and> (case run_op env op n of None \<Rightarrow> True | Some n' \<Rightarrow> ops_ok env ops n'))"

lemma run_ops_sound:
  assumes "faithful env" "node_inv env n" "ops_ok env ops n"
  shows "sound env (run_ops env ops n)"
  using assms(2,3)
proof (induction ops arbitrary: n)
  case (Cons op ops)
  then obtain n' where "run_op env op n = Some n'" "node_inv env n'"
    using run_op_sound [OF assms(1) Cons.prems(1), of op] by (auto simp: sound_def)
  with Cons show ?case by simp
qed simp

text \<open>
  (C2) A node that starts from any stored state and then serves any sequence of ticks,
  messages from peers and client calls never panics and never gets stuck: every handler
  returns, the log keeps snapshot \<open>\<le>\<close> applied \<open>\<le>\<close> committed \<open>\<le>\<close> last, every committed entry has
  been applied, the configuration in force is the one that the log spells out at the last
  applied index, term and vote are on stable storage, the remembered results stay below 128
  and the incoming snapshot stream below its limit.  The operations must come with room in
  the term, a leader's requests must agree with what is committed here, and no empty joint
  change may be proposed.
\<close>

theorem handlers_sound:
  assumes "faithful env" "node_new env config = Some (Inr n)" "joints_ok env (nc_log_store config)" "ops_ok env ops n"
  shows "\<exists>n'. run_ops env ops n = Some n' \<and> node_inv env n'"
  using run_ops_sound [OF assms(1) node_new_sound [OF assms(2,3)] assms(4)] by (auto simp: sound_def)

lemma sample_faithful: "faithful sample_env"
  by (simp add: faithful_def sample_roundtrip sample_empty)

lemma sample_start: "node_new sample_env (sample_config i members) = Some (Inr (sample_node i members))"
  by (simp add: sample_node_def node_new_def restore_machine_def sample_config_def restored_node_def effective_configuration_def
      configuration_at_eq log_new_def snapshot_index_def last_index_def persistent_new_def Let_def)

lemma sample_term: "current_term (sample_node i members) = 0"
  by (simp add: sample_node_def node_new_def restore_machine_def sample_config_def restored_node_def effective_configuration_def
      configuration_at_eq log_new_def snapshot_index_def last_index_def persistent_new_def Let_def)

theorem handlers_sound_witness:
  "\<exists>n'. run_ops sample_env [OpElection 500, OpCommand [9] 600, OpHeartbeat 700, OpFinalize 800]
     (sample_node ''a'' [peer_voter ''a'' 1]) = Some n' \<and> node_inv sample_env n'"
proof -
  have "ops_ok sample_env [OpElection 500, OpCommand [9] 600, OpHeartbeat 700, OpFinalize 800]
      (sample_node ''a'' [peer_voter ''a'' 1])"
    by (auto simp: op_ok_def sample_term U64_MAX_def config_decode_def sample_env_def sample_pb_def sample_messages_def
        split: option.split)
  moreover have "joints_ok sample_env (nc_log_store (sample_config ''a'' [peer_voter ''a'' 1]))"
    by (simp add: joints_ok_def sample_config_def log_new_def)
  ultimately show ?thesis by (intro handlers_sound [OF sample_faithful sample_start])
qed

end
