(* ===== verification/Raft_Replication.thy ===== *)
theory Raft_Replication
  imports Raft_Soundness
begin

text \<open>
  What the handlers do to the replicated log: a leader commits only what a joint majority
  holds, nothing committed is ever lost or rewritten, and an acknowledged request is in
  the log.
\<close>

section \<open>Routine operations\<close>

text \<open>Changes that leave the log alone, interleaved with small steps.\<close>

inductive routine :: "'sm env \<Rightarrow> 'sm node \<Rightarrow> 'sm node \<Rightarrow> bool" for env n where
  idle: "routine env n n"
| quiet: "routine env n m \<Longrightarrow> same_log m n' \<Longrightarrow> routine env n n'"
| small: "routine env n m \<Longrightarrow> local_step env m n' \<Longrightarrow> routine env n n'"

lemma routine_quiet: "same_log n m \<Longrightarrow> routine env n m"
  by (rule quiet [OF idle])

lemma routine_steps: "local_steps env m n' \<Longrightarrow> routine env n m \<Longrightarrow> routine env n n'"
  by (induction rule: local_steps_induct) (simp_all add: small)

lemma become_leader_routine:
  assumes "become_leader env t m = Some n'" "same_log n m"
  shows "routine env n n'"
proof -
  obtain k where "same_log m k" "local_steps env k n'" by (rule become_leader_cases [OF assms(1)])
  from routine_steps [OF this(2) quiet [OF routine_quiet [OF assms(2)] this(1)]] show ?thesis .
qed

lemma election_routine:
  assumes "start_election env t n = Some n'"
  shows "routine env n n'"
  using assms
proof (cases rule: election_cases)
  case (won c m)
  then show ?thesis by (auto simp: candidate_of_def intro: become_leader_routine)
qed (auto simp: candidate_of_def intro: routine_quiet)

lemma vote_response_routine:
  assumes "handle_vote_response env p resp t n = Some n'"
  shows "routine env n n'"
  using assms
proof (cases rule: vote_response_cases)
  case down
  then show ?thesis by (simp add: routine_quiet same_log_step_down)
next
  case (won c)
  show ?thesis by (rule become_leader_routine [OF won(7)]) simp
qed (simp_all add: routine_quiet)

lemma append_response_routine:
  assumes "handle_append_entries_response env p resp t n = Some n'"
  shows "routine env n n'"
  using assms
proof (cases rule: append_response_cases)
  case down
  then show ?thesis by (simp add: routine_quiet same_log_step_down)
next
  case (progress m)
  show ?thesis by (rule routine_steps [OF progress(6)]) (simp add: progress(5) routine_quiet)
qed (auto intro: routine_quiet)

lemma snapshot_response_routine:
  assumes "handle_install_snapshot_response env p resp off fin t n = Some n'"
  shows "routine env n n'"
  using assms
proof (cases rule: snapshot_response_cases)
  case down
  then show ?thesis by (simp add: routine_quiet same_log_step_down)
next
  case (progress m c)
  show ?thesis by (rule routine_steps [OF progress(8)]) (simp add: progress(7) routine_quiet)
qed (simp add: routine_quiet)

lemma heartbeat_routine:
  assumes "broadcast_heartbeat env t n = Some n'"
  shows "routine env n n'"
proof -
  obtain cs where "local_steps env (n\<lparr>current_millis := t, transport := cs\<rparr>) n'" by (rule heartbeat_steps [OF assms])
  from routine_steps [OF this] show ?thesis by (simp add: routine_quiet)
qed

lemma begin_read_routine:
  assumes "begin_read env q t d n = Some (r, n')"
  shows "routine env n n'"
proof -
  obtain x where "local_steps env (n\<lparr>read_domain := x\<rparr>) n'" by (rule begin_read_steps [OF assms])
  from routine_steps [OF this] show ?thesis by (simp add: routine_quiet)
qed

definition from_leader :: "node_op \<Rightarrow> bool" where
  "from_leader op = (case op of OpAppend _ _ \<Rightarrow> True | OpSnapshot _ _ \<Rightarrow> True | _ \<Rightarrow> False)"

lemma run_op_routine:
  assumes "run_op env op n = Some n'" "\<not> from_leader op"
  shows "routine env n n'"
proof (cases op)
  case (OpSetMillis t)
  with assms(1) show ?thesis by (auto simp: run_op_def set_millis_def send_def intro: routine_quiet)
next
  case (OpElection t)
  with assms(1) show ?thesis by (simp add: run_op_def election_routine)
next
  case (OpVoteRequest req t)
  with assms(1) show ?thesis by (auto simp: run_op_def intro: routine_quiet vote_request_facts)
next
  case (OpVoteResponse p resp t)
  with assms(1) show ?thesis by (simp add: run_op_def vote_response_routine)
next
  case (OpAppendResponse p resp t)
  with assms(1) show ?thesis by (simp add: run_op_def append_response_routine)
next
  case (OpSnapshotResponse p resp off fin t)
  with assms(1) show ?thesis by (simp add: run_op_def snapshot_response_routine)
next
  case (OpHeartbeat t)
  with assms(1) show ?thesis by (simp add: run_op_def heartbeat_routine)
next
  case (OpCommand c t)
  with assms(1) show ?thesis by (auto simp: run_op_def intro: routine_steps idle client_command_steps)
next
  case (OpJoint ms t)
  with assms(1) show ?thesis by (auto simp: run_op_def intro: routine_steps idle submit_joint_steps)
next
  case (OpFinalize t)
  with assms(1) show ?thesis by (auto simp: run_op_def intro: routine_steps idle submit_finalize_configuration_steps)
next
  case (OpJoin p t)
  with assms(1) show ?thesis by (auto simp: run_op_def intro: routine_steps idle submit_join_steps)
next
  case (OpRead q t d)
  with assms(1) show ?thesis by (auto simp: run_op_def intro: begin_read_routine)
qed (use assms in \<open>simp_all add: from_leader_def\<close>)

section \<open>Committed entries stay\<close>

text \<open>
  Positions only grow, and what was committed is still there unless a snapshot covers it.
\<close>

definition keeps :: "'sm node \<Rightarrow> 'sm node \<Rightarrow> bool" where
  "keeps n n' \<longleftrightarrow>
     commit_index n \<le> commit_index n' \<and> last_applied n \<le> last_applied n' \<and>
     snapshot_index (n_log n) \<le> snapshot_index (n_log n') \<and>
     (\<forall>j. snapshot_index (n_log n') < j \<and> j \<le> commit_index n \<longrightarrow> entry_at (n_log n') j = entry_at (n_log n) j)"

lemma keeps_refl [simp]: "keeps n n"
  by (simp add: keeps_def)

lemma keeps_trans: "keeps a b \<Longrightarrow> keeps b c \<Longrightarrow> keeps a c"
  by (auto simp: keeps_def)

lemma same_log_keeps: "same_log n n' \<Longrightarrow> keeps n n'"
  by (simp add: keeps_def same_log_def)

lemma same_log_inv: "same_log n n' \<Longrightarrow> log_inv n' = log_inv n"
  by (simp add: log_inv_def same_log_def)

lemma step_entries:
  assumes "local_step env n n'" "log_inv n" "snapshot_index (n_log n') < j" "j \<le> last_index (n_log n)"
  shows "entry_at (n_log n') j = entry_at (n_log n) j"
  using assms
proof (induction rule: local_step.induct)
  case (consume n n')
  note f = consume_frame [OF consume(2)]
  have "snapshot_index (n_log n) \<le> last_applied n'" "last_applied n' \<le> last_index (n_log n)" "0 < last_applied n'"
    using consume(1,3) f(4) by (auto simp: log_inv_def)
  from rebased_log(4) [OF f(2) this consume(4)] show ?case .
next
  case (append n e t)
  then show ?case by (simp add: mem.app_entry)
next
  case (compact n)
  show ?case
  proof (cases "commit_index n = 0")
    case True
    then have "maybe_compact_local_snapshot env n = n"
      by (simp add: maybe_compact_local_snapshot_def split: option.splits)
    then show ?thesis by simp
  next
    case False
    with compact rebased_log(4) [OF compact_frame(2) [of n env]] show ?thesis by (simp add: log_inv_def)
  qed
qed simp_all

lemma steps_entries:
  assumes "local_steps env n n'" "log_inv n" "snapshot_index (n_log n') < j" "j \<le> last_index (n_log n)"
  shows "entry_at (n_log n') j = entry_at (n_log n) j"
  using assms
proof (induction rule: local_steps_induct)
  case (step n m n')
  note m = log_inv_steps [OF step(1,4)]
  note n' = log_inv_step [OF step(2)]
  have "snapshot_index (n_log m) < j" using n'(5) m step(5) by simp
  with step_entries [OF step(2) _ step(5)] step(3,4,6) m show ?case by simp
qed simp

lemma steps_keeps:
  assumes "local_steps env n n'" "log_inv n"
  shows "keeps n n'" "log_inv n'"
  using log_inv_steps [OF assms] steps_entries [OF assms] assms(2) by (auto simp: keeps_def log_inv_def)

lemma routine_keeps:
  assumes "routine env n n'" "log_inv n"
  shows "keeps n n' \<and> log_inv n'"
  using assms
proof (induction rule: routine.induct)
  case (quiet m n')
  then have "keeps n m" "log_inv m" by simp_all
  with same_log_keeps [OF quiet(2)] same_log_inv [OF quiet(2)] show ?case by (simp add: keeps_trans [of n m n'])
next
  case (small m n')
  then have m: "keeps n m" "log_inv m" by simp_all
  from keeps_trans [OF m(1)] steps_keeps [OF steps_one [OF small(2)] m(2)] show ?case by simp
qed simp

text \<open>The node after the merge and before the new commit index, and the small steps from there.\<close>

lemma append_merged_steps:
  assumes "commit_index n < c \<and> apply_committed env (m\<lparr>commit_index := c\<rparr>) = Some n3 \<or> c \<le> commit_index n \<and> n3 = m"
    and "c \<le> last_index (n_log m)" "commit_index m = commit_index n" "log_inv m"
  obtains m' where "n_log m' = n_log m" "log_inv m'" "commit_index n \<le> commit_index m'" "last_applied m' = last_applied m"
    "local_steps env m' n3"
  using assms(1)
proof
  assume "commit_index n < c \<and> apply_committed env (m\<lparr>commit_index := c\<rparr>) = Some n3"
  with assms(2-4) apply_committed_steps show thesis
    by (intro that [of "m\<lparr>commit_index := c\<rparr>"]) (auto simp: log_inv_def)
next
  assume "c \<le> commit_index n \<and> n3 = m"
  with assms(3,4) show thesis by (intro that [of m]) auto
qed

lemma append_keeps:
  assumes "handle_append_entries env req t n = Some (resp, n')" "log_inv n" "committed_agrees n req"
  shows "keeps n n'"
  using assms(1)
proof (cases rule: append_cases)
  case (merged prev prev_term es n2 n3)
  note facts = merge_facts [OF merged(2,3) assms(2)]
  have n2: "n_log n2 = merge_entries (n_log n) (prev + 1) es" "commit_index n2 = commit_index n"
    "last_applied n2 = last_applied n" by (simp_all add: merged(5))
  have agree: "commit_index n \<le> last_index (n_log n2)" "\<And>j. j \<le> commit_index n \<Longrightarrow> entry_at (n_log n2) j = entry_at (n_log n) j"
    using facts(4) [OF assms(3)] by (simp_all add: n2)
  have inv2: "log_inv n2" using assms(2) agree(1) facts(1) by (simp add: log_inv_def n2)
  have "min (aq_leader_commit req) (prev + length es) \<le> last_index (n_log n2)" using facts(2) by (simp add: n2)
  from merged(6) this n2(2) inv2 obtain m where m: "n_log m = n_log n2" "log_inv m" "commit_index n \<le> commit_index m"
    "last_applied m = last_applied n2" "local_steps env m n3" by (rule append_merged_steps)
  have "keeps n m" using m(1,3,4) agree(2) facts(1) by (simp add: keeps_def n2)
  from keeps_trans [OF this steps_keeps(1) [OF m(5,2)]] show ?thesis by (simp add: merged(7) keeps_def)
qed (simp_all add: keeps_def)

lemma snapshot_keeps:
  assumes "handle_install_snapshot env req t n = Some (resp, n')" "log_inv n"
  shows "keeps n n'"
proof -
  let ?f = "follow (iq_leader_id req) (iq_term req) t (n\<lparr>current_millis := t\<rparr>)"
  have f: "keeps n (?f\<lparr>pending_snap := p\<rparr>)" for p by (simp add: keeps_def)
  consider "n' = n\<lparr>current_millis := t\<rparr>" | p where "n' = ?f\<lparr>pending_snap := p\<rparr>"
    | p q snap ok where "install_stream env t snap (?f\<lparr>pending_snap := p\<rparr>) = Some (ok, n')"
        "commit_index n < iq_last_included_index req" "receive_chunk req q = Accepted snap"
    using assms(1)
    by (auto simp: handle_install_snapshot_def receive_snapshot_def Let_def bind_eq_Some_conv
        split: if_splits chunk.splits)
  then show ?thesis
  proof cases
    case (3 p q snap ok)
    have snap: "commit_index n < sn_last_included_index snap"
      using 3(2,3) by (auto simp: receive_chunk_def split: option.splits if_splits)
    from 3(1) show ?thesis
    proof (cases rule: install_stream_cases)
      case refused
      with f [of None] show ?thesis by simp
    next
      case (installed machine n1 n2)
      have "n_log n2 = n_log n1 \<and> commit_index n2 = commit_index n1 \<and> last_applied n2 = last_applied n1"
        using installed(3) by (auto split: option.splits if_splits dest: install_membership_frame)
      with snap assms(2) show ?thesis by (auto simp: installed(2,4) keeps_def log_inv_def)
    qed
  qed (use f in \<open>simp_all add: keeps_def\<close>)
qed

lemma run_op_keeps:
  assumes "run_op env op n = Some n'" "log_inv n" "op_ok env n op"
  shows "keeps n n'"
proof (cases "from_leader op")
  case True
  with assms show ?thesis
    by (auto simp: from_leader_def run_op_def op_ok_def intro: append_keeps snapshot_keeps split: node_op.splits)
next
  case False
  from routine_keeps [OF run_op_routine [OF assms(1) False] assms(2)] show ?thesis by simp
qed

lemma run_ops_keeps:
  assumes "faithful env" "node_inv env n" "ops_ok env ops n" "run_ops env ops n = Some n'"
  shows "keeps n n' \<and> current_term n \<le> current_term n'"
  using assms(2-4)
proof (induction ops arbitrary: n)
  case (Cons op ops)
  then obtain m where m: "run_op env op n = Some m" "run_ops env ops m = Some n'" "ops_ok env ops m" "op_ok env n op"
    by (auto split: option.splits)
  have "node_inv env m" using run_op_sound [OF assms(1) Cons.prems(1) m(4)] m(1) by (simp add: sound_def)
  from Cons.IH [OF this m(3,2)] have "keeps m n'" "current_term m \<le> current_term n'" by simp_all
  moreover have "keeps n m" "current_term n \<le> current_term m"
    using run_op_keeps [OF m(1) _ m(4)] Cons.prems(1) run_op_vote_step [OF m(1)]
    by (simp_all add: node_inv_def node_core_def vote_step_def)
  ultimately show ?case using keeps_trans by fastforce
qed simp

text \<open>
  (C3) Nothing committed is lost: through any sequence of operations that respects the
  protocol, term, commit index, applied index and snapshot boundary never move back, and
  every entry that was committed is still at its place with its contents, unless the
  snapshot has absorbed it.
\<close>

theorem committed_entries_stay:
  assumes "faithful env" "node_inv env n" "ops_ok env ops n" "run_ops env ops n = Some n'"
  shows "current_term n \<le> current_term n' \<and> commit_index n \<le> commit_index n' \<and> last_applied n \<le> last_applied n' \<and>
    snapshot_index (n_log n) \<le> snapshot_index (n_log n') \<and>
    (\<forall>j. snapshot_index (n_log n') < j \<and> j \<le> commit_index n \<longrightarrow> entry_at (n_log n') j = entry_at (n_log n) j)"
  using run_ops_keeps [OF assms] by (simp add: keeps_def)

section \<open>The commit rule\<close>

text \<open>
  A node that may commit up to \<open>c\<close>: a leader, an entry of its own term at \<open>c\<close>, and a set of
  holders that is a joint majority of the configuration at \<open>c\<close> and, for each FINALIZE that
  becomes committed on the way, of the joint configuration it leaves.
\<close>

definition holders :: "'sm node \<Rightarrow> nat \<Rightarrow> string set" where
  "holders m c = {i. i = my_id m \<or> c \<le> get_or_zero (match_index m) i}"

definition may_commit :: "'sm env \<Rightarrow> 'sm node \<Rightarrow> nat \<Rightarrow> bool" where
  "may_commit env m c \<longleftrightarrow>
     state m = Leader \<and> commit_index m < c \<and> c \<le> last_index (n_log m) \<and> term_at (n_log m) c = current_term m \<and>
     (\<exists>configuration ids. configuration_at env m c = Some configuration \<and> ids \<subseteq> holders m c \<and>
        has_joint_majority configuration ids \<and>
        (\<forall>j. commit_index m < j \<and> j \<le> c \<and> is_finalize_at env m j \<longrightarrow>
           (\<exists>before. configuration_at env m (j - 1) = Some before \<and> has_joint_majority before ids)))"

lemma finalizes_quorum:
  assumes "finalizes_have_quorum env n ids js = Some True" "j \<in> set js" "is_finalize_at env n j"
  shows "\<exists>before. configuration_at env n (j - 1) = Some before \<and> has_joint_majority before ids"
  using assms by (induction js) (auto simp: bind_eq_Some_conv split: if_splits)

lemma replicated_holders: "replicated_at m configuration c \<subseteq> holders m c"
  by (auto simp: replicated_at_def holders_def)

lemma commit_scan_may_commit:
  assumes "commit_scan env n [commit_index n + 1 ..< Suc (last_index (n_log n))] (commit_index n) = Some c"
    and "commit_index n < c" "state n = Leader"
  shows "may_commit env n c"
proof -
  from commit_scan_sound [OF assms(1)] assms(2) obtain configuration
    where c: "c \<le> last_index (n_log n)" "term_at (n_log n) c = current_term n" "configuration_at env n c = Some configuration"
      "has_joint_majority configuration (replicated_at n configuration c)"
      "finalizes_have_quorum env n (replicated_at n configuration c) [commit_index n + 1 ..< Suc c] = Some True"
    by auto
  have "\<exists>before. configuration_at env n (j - 1) = Some before \<and> has_joint_majority before (replicated_at n configuration c)"
    if "commit_index n < j" "j \<le> c" "is_finalize_at env n j" for j
  proof -
    have "j \<in> set [commit_index n + 1 ..< Suc c]" using that(1,2) by auto
    from finalizes_quorum [OF c(5) this that(3)] show ?thesis .
  qed
  then show ?thesis
    unfolding may_commit_def
    using c assms(2,3) by (intro conjI exI [of _ configuration] exI [of _ "replicated_at n configuration c"])
      (auto simp: replicated_holders)
qed

lemma routine_commits:
  assumes "routine env n n'" "log_inv n" "commit_index n' \<noteq> commit_index n"
  shows "\<exists>m. routine env n m \<and> may_commit env m (commit_index n') \<and> keeps (m\<lparr>commit_index := commit_index n'\<rparr>) n'"
  using assms
proof (induction rule: routine.induct)
  case (quiet m n')
  then obtain k where "routine env n k" "may_commit env k (commit_index m)" "keeps (k\<lparr>commit_index := commit_index m\<rparr>) m"
    by (auto simp: same_log_def)
  with quiet(2) keeps_trans [OF _ same_log_keeps [OF quiet(2)]] show ?case by (auto simp: same_log_def)
next
  case (small m n')
  have inv: "log_inv m" using routine_keeps [OF small(1,4)] by simp
  show ?case
  proof (cases "commit_index n' = commit_index m")
    case True
    with small obtain k where "routine env n k" "may_commit env k (commit_index m)" "keeps (k\<lparr>commit_index := commit_index m\<rparr>) m"
      by auto
    moreover have "keeps m n'" by (rule steps_keeps [OF steps_one [OF small(2)] inv])
    ultimately show ?thesis using True keeps_trans by metis
  next
    case False
    from small(2) have "may_commit env m (commit_index n') \<and> n' = m\<lparr>commit_index := commit_index n'\<rparr>"
    proof cases
      case consume
      with consume_frame(3) False show ?thesis by auto
    next
      case (commit c)
      with commit_scan_may_commit show ?thesis by auto
    qed (use False in \<open>auto simp: compact_frame\<close>)
    with small(1) keeps_refl show ?thesis by metis
  qed
qed simp


section \<open>What an acknowledgement means\<close>

lemma normalize_length:
  assumes "normalize_append l req = Inr (prev, prev_term, es)"
  shows "prev + length es = max (snapshot_index l) (aq_prev_log_index req + length (aq_entries req))"
    "k < length (aq_entries req) \<Longrightarrow> snapshot_index l < aq_prev_log_index req + 1 + k \<Longrightarrow>
      \<exists>k'. k' < length es \<and> aq_prev_log_index req + 1 + k = prev + 1 + k' \<and> es ! k' = aq_entries req ! k"
    "snapshot_index l < aq_prev_log_index req \<Longrightarrow> prev = aq_prev_log_index req \<and> prev_term = aq_prev_log_term req"
proof -
  let ?p = "aq_prev_log_index req" and ?es = "aq_entries req"
  have p: "(prev = ?p \<and> es = ?es \<and> prev_term = aq_prev_log_term req \<and> snapshot_index l \<le> ?p) \<or>
      (?p < snapshot_index l \<and> prev = snapshot_index l \<and> snapshot_index l - ?p \<le> length ?es \<and>
        es = drop (snapshot_index l - ?p) ?es)"
    using assms by (auto simp: normalize_append_def Let_def split: if_splits)
  then show "prev + length es = max (snapshot_index l) (?p + length ?es)" by auto
  show "snapshot_index l < ?p \<Longrightarrow> prev = ?p \<and> prev_term = aq_prev_log_term req" using p by auto
  assume k: "k < length ?es" "snapshot_index l < ?p + 1 + k"
  from p show "\<exists>k'. k' < length es \<and> ?p + 1 + k = prev + 1 + k' \<and> es ! k' = ?es ! k"
  proof
    assume "?p < snapshot_index l \<and> prev = snapshot_index l \<and> snapshot_index l - ?p \<le> length ?es \<and>
        es = drop (snapshot_index l - ?p) ?es"
    with k show ?thesis by (intro exI [of _ "k - (snapshot_index l - ?p)"]) auto
  qed (use k in auto)
qed

lemma append_success:
  assumes "handle_append_entries env req t n = Some (resp, n')" "log_inv n" "committed_agrees n req" "as_success resp"
  shows "as_match_index resp = max (snapshot_index (n_log n)) (aq_prev_log_index req + length (aq_entries req))"
    "as_match_index resp \<le> last_index (n_log n')"
    "snapshot_index (n_log n) < aq_prev_log_index req \<Longrightarrow>
      term_at (n_log n) (aq_prev_log_index req) = aq_prev_log_term req"
    "k < length (aq_entries req) \<Longrightarrow> snapshot_index (n_log n') < aq_prev_log_index req + 1 + k \<Longrightarrow>
      \<exists>x. entry_at (n_log n') (aq_prev_log_index req + 1 + k) = Some x \<and> e_term x = e_term (aq_entries req ! k)"
proof -
  let ?p = "aq_prev_log_index req" and ?es = "aq_entries req"
  have "as_match_index resp = max (snapshot_index (n_log n)) (?p + length ?es) \<and>
    as_match_index resp \<le> last_index (n_log n') \<and>
    (snapshot_index (n_log n) < ?p \<longrightarrow> term_at (n_log n) ?p = aq_prev_log_term req) \<and>
    (k < length ?es \<longrightarrow> snapshot_index (n_log n') < ?p + 1 + k \<longrightarrow>
      (\<exists>x. entry_at (n_log n') (?p + 1 + k) = Some x \<and> e_term x = e_term (?es ! k)))"
    using assms(1)
  proof (cases rule: append_cases)
    case (covered ok m)
    with assms(4) have "m = snapshot_index (n_log n)" "?p + length ?es < snapshot_index (n_log n)"
      by (auto simp: normalize_append_def append_response_def Let_def split: if_splits)
    with covered assms(4) show ?thesis using mem.snap_le [of "n_log n"] by (auto simp: append_response_def)
  next
    case (merged prev prev_term es n2 n3)
    note facts = merge_facts [OF merged(2,3) assms(2)] and norm = normalize_length [OF merged(2)]
    have n2: "n_log n2 = merge_entries (n_log n) (prev + 1) es" "commit_index n2 = commit_index n"
      "last_applied n2 = last_applied n" by (simp_all add: merged(5))
    have inv2: "log_inv n2" using assms(2) facts(1) facts(4) [OF assms(3)] by (simp add: log_inv_def n2)
    have "min (aq_leader_commit req) (prev + length es) \<le> last_index (n_log n2)" using facts(2) by (simp add: n2)
    from merged(6) this n2(2) inv2 obtain m where m: "n_log m = n_log n2" "log_inv m" "commit_index n \<le> commit_index m"
      "last_applied m = last_applied n2" "local_steps env m n3" by (rule append_merged_steps)
    note steps = log_inv_steps [OF m(5,2)] and entries = steps_entries [OF m(5,2)]
    have log: "n_log n' = n_log n3" and match: "as_match_index resp = prev + length es"
      using merged(7,8) by (simp_all add: append_response_def)
    have "\<exists>x. entry_at (n_log n') (?p + 1 + k) = Some x \<and> e_term x = e_term (?es ! k)"
      if k: "k < length ?es" "snapshot_index (n_log n') < ?p + 1 + k"
    proof -
      have "snapshot_index (n_log n) < ?p + 1 + k" using k(2) steps facts(1) by (simp add: log m(1) n2)
      then obtain k' where k': "k' < length es" "?p + 1 + k = prev + 1 + k'" "es ! k' = ?es ! k" using norm(2) [OF k(1)] by blast
      have "?p + 1 + k \<le> last_index (n_log m)" using k'(1,2) facts(2) by (simp add: m(1) n2)
      with entries [of "?p + 1 + k"] k(2) facts(3) [OF k'(1)] k'(2,3) show ?thesis by (simp add: log m(1) n2)
    qed
    moreover have "prev + length es \<le> last_index (n_log n')" using facts(2) steps by (simp add: log m(1) n2)
    ultimately show ?thesis using norm(1,3) merged(4) by (auto simp: match)
  qed (use assms(4) in \<open>simp_all add: append_response_def\<close>)
  then show "as_match_index resp = max (snapshot_index (n_log n)) (?p + length ?es)"
    "as_match_index resp \<le> last_index (n_log n')"
    "snapshot_index (n_log n) < ?p \<Longrightarrow> term_at (n_log n) ?p = aq_prev_log_term req"
    "k < length ?es \<Longrightarrow> snapshot_index (n_log n') < ?p + 1 + k \<Longrightarrow>
      \<exists>x. entry_at (n_log n') (?p + 1 + k) = Some x \<and> e_term x = e_term (?es ! k)" by blast+
qed

lemma append_failure:
  assumes "handle_append_entries env req t n = Some (resp, n')" "\<not> as_success resp"
  shows "n_log n' = n_log n \<and> commit_index n' = commit_index n \<and> last_applied n' = last_applied n"
  using assms(1) by (cases rule: append_cases) (use assms(2) in \<open>auto simp: append_response_def\<close>)

text \<open>
  (C5) An acknowledgement is true: when AppendEntries answers with success, the previous
  entry agreed, every entry of the request above the snapshot is in the log with the
  request's term, and the acknowledged index is the last one of the request (or the
  snapshot, if that is further) and within the log.  A refusal leaves log, commit index and
  applied index alone.
\<close>

theorem append_acknowledged:
  assumes "handle_append_entries env req t n = Some (resp, n')" "log_inv n" "committed_agrees n req"
  shows "if as_success resp then
      as_match_index resp = max (snapshot_index (n_log n)) (aq_prev_log_index req + length (aq_entries req)) \<and>
      as_match_index resp \<le> last_index (n_log n') \<and>
      (snapshot_index (n_log n) < aq_prev_log_index req \<longrightarrow>
         term_at (n_log n) (aq_prev_log_index req) = aq_prev_log_term req) \<and>
      (\<forall>k < length (aq_entries req). snapshot_index (n_log n') < aq_prev_log_index req + 1 + k \<longrightarrow>
         (\<exists>x. entry_at (n_log n') (aq_prev_log_index req + 1 + k) = Some x \<and> e_term x = e_term (aq_entries req ! k)))
    else n_log n' = n_log n \<and> commit_index n' = commit_index n \<and> last_applied n' = last_applied n"
  using append_success [OF assms] append_failure [OF assms(1)] by auto

section \<open>Concrete runs\<close>

lemma sample_node_inv: "node_inv sample_env (sample_node i members)"
  by (rule node_new_sound [OF sample_start]) (simp add: joints_ok_def sample_config_def log_new_def)

lemma sample_run: "run_op sample_env (OpElection 500) (sample_node ''a'' [peer_voter ''a'' 1]) = Some sample_leader"
  by (simp add: run_op_def sample_election)

lemma sample_leader_inv: "node_inv sample_env sample_leader"
proof -
  have "op_ok sample_env (sample_node ''a'' [peer_voter ''a'' 1]) (OpElection 500)"
    by (simp add: op_ok_def sample_term U64_MAX_def)
  from run_op_sound [OF sample_faithful sample_node_inv this] show ?thesis unfolding sample_run by simp
qed

theorem committed_entries_stay_witness:
  "\<exists>n'. run_ops sample_env [OpCommand [9] 600, OpHeartbeat 700] sample_leader = Some n' \<and>
     1 \<le> current_term n' \<and> 1 \<le> commit_index n' \<and> 1 \<le> last_applied n'"
proof -
  have ok: "ops_ok sample_env [OpCommand [9] 600, OpHeartbeat 700] sample_leader"
    by (auto simp: op_ok_def config_decode_def sample_env_def sample_pb_def sample_messages_def split: option.split)
  obtain n' where n': "run_ops sample_env [OpCommand [9] 600, OpHeartbeat 700] sample_leader = Some n'"
    using run_ops_sound [OF sample_faithful sample_leader_inv ok] by (auto simp: sound_def)
  from committed_entries_stay [OF sample_faithful sample_leader_inv ok n'] n' show ?thesis
    by (simp add: sample_leader_state)
qed


definition sample_append :: append_entries_request where
  "sample_append =
     \<lparr>aq_term = 1, aq_leader_id = ''a'', aq_prev_log_index = 0, aq_prev_log_term = 0, aq_leader_commit = 1,
      aq_entries = [\<lparr>e_term = 1, e_peer_id = ''a'', e_data = [9]\<rparr>, \<lparr>e_term = 1, e_peer_id = ''a'', e_data = [8]\<rparr>]\<rparr>"

lemma sample_append_view:
  "map_option (\<lambda>(resp, n). (as_success resp, as_match_index resp, snapshot_index (n_log n)))
     (handle_append_entries sample_env sample_append 100 (sample_node ''b'' [peer_voter ''a'' 1, peer_voter ''b'' 2])) =
   Some (True, 2, 0)"
  by code_simp

theorem append_acknowledged_witness:
  "\<exists>resp n' x. handle_append_entries sample_env sample_append 100
       (sample_node ''b'' [peer_voter ''a'' 1, peer_voter ''b'' 2]) = Some (resp, n') \<and>
     as_success resp \<and> as_match_index resp \<le> last_index (n_log n') \<and> entry_at (n_log n') 2 = Some x \<and> e_term x = 1"
proof -
  let ?n = "sample_node ''b'' [peer_voter ''a'' 1, peer_voter ''b'' 2]"
  obtain resp n' where r: "handle_append_entries sample_env sample_append 100 ?n = Some (resp, n')"
    "as_success resp" "snapshot_index (n_log n') = 0"
    using sample_append_view by auto
  have inv: "log_inv ?n" using sample_node_inv by (simp add: node_inv_def node_core_def)
  have "commit_index ?n = 0" using inv by (simp add: log_inv_def sample_node_facts log_new_def last_index_def)
  then have "committed_agrees ?n sample_append" by (simp add: committed_agrees_def)
  from append_acknowledged [OF r(1) inv this] r show ?thesis
    by (auto simp: sample_append_def numeral_2_eq_2 dest!: spec [of _ "1::nat"])
qed

end
