(* ===== verification/Raft_Corner_Cases.thy ===== *)
theory Raft_Corner_Cases
  imports Raft_Replication
begin

text \<open>
  Corner cases of the membership protocol in which the node does not do what its comments
  and its callers expect.
\<close>

section \<open>The FINALIZE flag of a lone voter\<close>

definition sample_ack :: append_entries_response where
  "sample_ack = \<lparr>as_peer_id = ''b'', as_term = 1, as_success = True, as_match_index = 2\<rparr>"

definition sample_change :: node_op where
  "sample_change = OpJoint [peer_voter ''a'' 1, peer_learner ''b'' 2] 600"

lemma sample_change_view:
  "map_option (\<lambda>m. (bm_keys (current_members (cluster_config m)), bm_keys (next_members (cluster_config m)),
      map_option (\<lambda>n. (state n, is_joint_consensus (cluster_config n), last_index (n_log n), last_applied n,
          finalize_configuration_pending n))
        (run_op sample_env (OpAppendResponse ''b'' sample_ack 700) m)))
    (run_op sample_env sample_change sample_leader) =
   Some ([''a''], [''a'', ''b''], Some (Leader, False, 3, 3, True))"
  by code_simp


section \<open>The empty joint change\<close>

lemma commit_scan_fails:
  assumes "i \<in> set js" "term_at (n_log n) i = current_term n" "configuration_at env n i = None"
  shows "commit_scan env n js candidate = None"
  using assms
proof (induction js arbitrary: candidate)
  case (Cons j js)
  then show ?case by (cases "configuration_at env n j") (auto simp: Let_def split: bind_splits)
qed simp

text \<open>
  (C37) A client's bytes that decode as a joint change without members are accepted by a leader
  like any other command, and make it panic: the configuration of the appended entry is
  computed with a failing assertion before the entry can be refused.
\<close>

theorem empty_joint_panics:
  assumes "state n = Leader" "length command \<le> MAX_COMMAND_BYTES" "config_decode (env_pb env) command = Some (Joint [])"
    and "log_inv n"
  shows "handle_client_command env command t n = None"
proof -
  let ?e = "entry_new (current_term n) (my_id n) command"
  let ?m = "n\<lparr>current_millis := t, n_log := log_append (n_log n) [?e]\<rparr>"
  let ?i = "Suc (last_index (n_log n))"
  have log: "last_index (n_log ?m) = ?i" "entry_at (n_log ?m) ?i = Some ?e"
    "snapshot_index (n_log ?m) \<le> last_index (n_log n)"
    using mem.snap_le [of "n_log n"] by (simp_all add: mem.app_last mem.app_entry mem.app_snap)
  have "configuration_at env ?m ?i = None"
    using configuration_at_Suc [OF log(3,2), of env] assms(3)
    by (cases "configuration_at env ?m (last_index (n_log n))")
      (simp_all add: config_step_def entry_new_def transition_None_iff)
  then have "commit_scan env ?m [commit_index n + 1 ..< Suc ?i] (commit_index n) = None"
    using assms(4) mem.trm_entry [OF log(2)]
    by (intro commit_scan_fails [of ?i]) (auto simp: entry_new_def log_inv_def)
  with assms(1,2) log(1) show ?thesis
    by (simp add: handle_client_command_def submit_command_def submit_command_with_def advance_commit_with_def Let_def
        del: upt_Suc)
qed

theorem empty_joint_panics_witness: "handle_client_command sample_env [4] 600 sample_leader = None"
proof (rule empty_joint_panics)
  show "log_inv sample_leader" using sample_leader_inv by (simp add: node_inv_def node_core_def)
qed (simp_all add: sample_leader_state MAX_COMMAND_BYTES_def config_decode_def sample_env_def sample_pb_def
    sample_messages_def)

section \<open>The configuration of a joining node\<close>

definition sample_admission :: append_entries_request where
  "sample_admission =
     \<lparr>aq_term = 1, aq_leader_id = ''a'', aq_prev_log_index = 0, aq_prev_log_term = 0, aq_leader_commit = 2,
      aq_entries = [entry_noop 1 ''a'', entry_new 1 ''a'' [2]]\<rparr>"

lemma sample_admission_view:
  "map_option (\<lambda>(resp, n). (as_success resp, bm_keys (current_members (cluster_config n)),
       bm_keys (next_members (cluster_config n)), joining n))
     (handle_append_entries sample_env sample_admission 100
        (begin_joining sample_env ''a'' 50 (sample_node ''b'' [peer_voter ''b'' 2]))) =
   Some (True, [''b''], [''a'', ''b''], False)"
  by code_simp


end
