(* ===== verification/Admitted_Map.thy ===== *)
theory Admitted_Map
  imports Prelude
begin

text \<open>
  The kernel's registries (\<^verbatim>\<open>catten/src/klib/collections/retirement_list.rs\<close>): linked lists of
  preallocated nodes that are relinked but never grown under a lock, and on top of them a map
  that keeps its nodes in key order. A published node is its payload with the charge that was
  paid for its storage.
\<close>

section \<open>Retirement lists\<close>

type_synonym ('t, 'c) node = "'t \<times> 'c"
type_synonym ('t, 'c) retirement_list = "('t, 'c) node list"

definition rl_new :: "('t, 'c) retirement_list" where
  "rl_new = []"

definition rl_publish :: "'c \<Rightarrow> 't \<Rightarrow> ('t, 'c) node" where
  "rl_publish charge value = (value, charge)"

definition rl_push :: "('t, 'c) node \<Rightarrow> ('t, 'c) retirement_list \<Rightarrow> ('t, 'c) retirement_list" where
  "rl_push entry xs = entry # xs"

definition rl_pop :: "('t, 'c) retirement_list \<Rightarrow> (('t, 'c) node \<times> ('t, 'c) retirement_list) option" where
  "rl_pop xs = (case xs of [] \<Rightarrow> None | entry # rest \<Rightarrow> Some (entry, rest))"

text \<open>The loop of \<open>reverse\<close>: pop from one list, push onto the other.\<close>

function rl_reverse_loop :: "('t, 'c) retirement_list \<Rightarrow> ('t, 'c) retirement_list \<Rightarrow> ('t, 'c) retirement_list" where
  "rl_reverse_loop xs reversed =
     (case rl_pop xs of
        Some (entry, rest) \<Rightarrow> rl_reverse_loop rest (rl_push entry reversed)
      | None \<Rightarrow> reversed)"
  by pat_completeness auto

termination
  by (relation "measure (\<lambda>(xs, _). length xs)") (auto simp: rl_pop_def split: list.splits)

declare rl_reverse_loop.simps [simp del]

definition rl_reverse :: "('t, 'c) retirement_list \<Rightarrow> ('t, 'c) retirement_list" where
  "rl_reverse xs = rl_reverse_loop xs rl_new"

definition rl_iter :: "('t, 'c) retirement_list \<Rightarrow> 't list" where
  "rl_iter xs = map fst xs"

text \<open>The cursor walks over the nodes that do not come after the new one.\<close>

primrec rl_insert_before :: "('t, 'c) node \<Rightarrow> ('t \<Rightarrow> bool) \<Rightarrow> ('t, 'c) retirement_list \<Rightarrow> ('t, 'c) retirement_list" where
  "rl_insert_before entry before [] = [entry]"
| "rl_insert_before entry before (node # rest) =
     (if \<not> before (fst node) then node # rl_insert_before entry before rest else entry # node # rest)"

primrec rl_take_first ::
    "('t \<Rightarrow> bool) \<Rightarrow> ('t, 'c) retirement_list \<Rightarrow> ('t, 'c) node option \<times> ('t, 'c) retirement_list" where
  "rl_take_first matches [] = (None, [])"
| "rl_take_first matches (node # rest) =
     (if matches (fst node) then (Some node, rest)
      else let (found, rest') = rl_take_first matches rest in (found, node # rest'))"

section \<open>Admitted maps\<close>

type_synonym ('k, 'v, 'c) admitted_map = "('k \<times> 'v, 'c) retirement_list"

definition am_new :: "('k, 'v, 'c) admitted_map" where
  "am_new = rl_new"

definition am_get :: "('k, 'v, 'c) admitted_map \<Rightarrow> 'k \<Rightarrow> 'v option" where
  "am_get m key = map_option snd (find (\<lambda>(k, _). k = key) (rl_iter m))"

definition am_contains_key :: "('k, 'v, 'c) admitted_map \<Rightarrow> 'k \<Rightarrow> bool" where
  "am_contains_key m key \<longleftrightarrow> am_get m key \<noteq> None"

text \<open>A write through \<open>get_mut\<close>: the first node with the key gets the new value.\<close>

primrec am_set :: "'k \<Rightarrow> ('v \<Rightarrow> 'v) \<Rightarrow> ('k, 'v, 'c) admitted_map \<Rightarrow> ('k, 'v, 'c) admitted_map" where
  "am_set key f [] = []"
| "am_set key f (node # rest) =
     (case node of ((k, v), c) \<Rightarrow> if k = key then ((k, f v), c) # rest else node # am_set key f rest)"

definition am_values :: "('k, 'v, 'c) admitted_map \<Rightarrow> 'v list" where
  "am_values m = map snd (rl_iter m)"

definition am_first_key_value :: "('k, 'v, 'c) admitted_map \<Rightarrow> ('k \<times> 'v) option" where
  "am_first_key_value m = (case rl_iter m of [] \<Rightarrow> None | kv # _ \<Rightarrow> Some kv)"

text \<open>\<open>None\<close> is the failed assertion on a key that is already there.\<close>

definition am_insert :: "'c \<Rightarrow> 'k::linorder \<Rightarrow> 'v \<Rightarrow> ('k, 'v, 'c) admitted_map \<Rightarrow> ('k, 'v, 'c) admitted_map option" where
  "am_insert prepared key value m =
     (if am_contains_key m key then None
      else Some (rl_insert_before (rl_publish prepared (key, value)) (\<lambda>(other, _). key < other) m))"

definition am_take ::
    "'k \<Rightarrow> ('k, 'v, 'c) admitted_map \<Rightarrow> ('k \<times> 'v, 'c) node option \<times> ('k, 'v, 'c) admitted_map" where
  "am_take key m = rl_take_first (\<lambda>(k, _). k = key) m"

text \<open>
  The disposal of a detached registry: take the first key until there is none. The failed
  \<open>unwrap\<close> of a key that vanished is \<open>None\<close>.
\<close>

function am_drain :: "('k, 'v, 'c) admitted_map \<Rightarrow> ('k \<times> 'v, 'c) node list option" where
  "am_drain m =
     (case am_first_key_value m of
        None \<Rightarrow> Some []
      | Some (key, _) \<Rightarrow>
          (case am_take key m of
             (None, _) \<Rightarrow> None
           | (Some node, rest) \<Rightarrow> map_option ((#) node) (am_drain rest)))"
  by pat_completeness auto

lemma rl_take_first_length:
  "rl_take_first P xs = (Some x, ys) \<Longrightarrow> length xs = Suc (length ys)"
  by (induction xs arbitrary: ys) (auto split: if_splits prod.splits)

termination am_drain
  by (relation "measure length") (auto simp: am_take_def dest!: rl_take_first_length [OF sym])

declare am_drain.simps [simp del]

section \<open>Lists\<close>

lemma rl_reverse_loop_eq: "rl_reverse_loop xs ys = rev xs @ ys"
proof (induction xs arbitrary: ys)
  case Nil
  then show ?case by (subst rl_reverse_loop.simps) (simp add: rl_pop_def)
next
  case (Cons x xs)
  then show ?case by (subst rl_reverse_loop.simps) (simp add: rl_pop_def rl_push_def)
qed

lemma rl_reverse_eq [simp]: "rl_reverse xs = rev xs"
  by (simp add: rl_reverse_def rl_reverse_loop_eq rl_new_def)

section \<open>Agreement with ordered maps\<close>

text \<open>Nodes in strictly increasing key order, read as an ordered map of values with charges.\<close>

definition am_nodes :: "('k, 'v, 'c) admitted_map \<Rightarrow> ('k \<times> 'v \<times> 'c) list" where
  "am_nodes m = map (\<lambda>((k, v), c). (k, v, c)) m"

definition am_ordered :: "('k::linorder, 'v, 'c) admitted_map \<Rightarrow> bool" where
  "am_ordered m \<longleftrightarrow> ordered_entries (am_nodes m)"

definition am_abs :: "('k::linorder, 'v, 'c) admitted_map \<Rightarrow> ('k, 'v \<times> 'c) bmap" where
  "am_abs m = Bmap (am_nodes m)"

lemma am_nodes_simps [simp]: "am_nodes [] = []" "am_nodes (((k, v), c) # m) = (k, v, c) # am_nodes m"
  by (simp_all add: am_nodes_def)

lemma bm_entries_abs: "am_ordered m \<Longrightarrow> bm_entries (am_abs m) = am_nodes m"
  by (simp add: am_abs_def am_ordered_def Bmap_inverse)

lemma am_get_nodes: "am_get m k = map_option fst (map_of (am_nodes m) k)"
  by (induction m) (auto simp: am_get_def rl_iter_def split: if_splits)

lemma am_contains_nodes: "am_contains_key m k \<longleftrightarrow> k \<in> fst ` set (am_nodes m)"
  by (simp add: am_contains_key_def am_get_nodes map_of_eq_None_iff)

lemma am_insert_nodes:
  assumes "am_insert c k v m = Some m'"
  shows "am_nodes m' = ins_entry k (v, c) (am_nodes m)"
proof -
  have "am_nodes (rl_insert_before ((k, v), c) (\<lambda>(other, _). k < other) m) = ins_entry k (v, c) (am_nodes m)"
    if "k \<notin> fst ` set (am_nodes m)"
    using that by (induction m) (auto split: if_splits)
  with assms show ?thesis by (auto simp: am_insert_def am_contains_nodes rl_publish_def split: if_splits)
qed

lemma am_take_nodes:
  assumes "am_ordered m" "am_take k m = (r, m')"
  shows "am_nodes m' = filter (\<lambda>(a, _). a \<noteq> k) (am_nodes m)"
    "r = map_option (\<lambda>(v, c). ((k, v), c)) (map_of (am_nodes m) k)"
proof -
  have "am_nodes m' = filter (\<lambda>(a, _). a \<noteq> k) (am_nodes m) \<and>
    r = map_option (\<lambda>(v, c). ((k, v), c)) (map_of (am_nodes m) k)"
    using assms
  proof (induction m arbitrary: m')
    case (Cons node m)
    obtain a v c where node: "node = ((a, v), c)" by (metis prod.exhaust)
    show ?case
    proof (cases "a = k")
      case True
      with Cons.prems have "\<forall>x \<in> set (am_nodes m). fst x \<noteq> k" by (auto simp: node am_ordered_def)
      then have "filter (\<lambda>(a, _). a \<noteq> k) (am_nodes m) = am_nodes m" by (auto simp: filter_id_conv)
      with True Cons.prems show ?thesis by (simp add: node am_take_def)
    next
      case False
      with Cons.prems obtain m'' where "am_take k m = (r, m'')" "m' = node # m''"
        by (auto simp: node am_take_def split: prod.splits)
      with Cons.IH [of m''] Cons.prems(1) False show ?thesis by (simp add: node am_ordered_def)
    qed
  qed (simp add: am_take_def)
  then show "am_nodes m' = filter (\<lambda>(a, _). a \<noteq> k) (am_nodes m)"
    "r = map_option (\<lambda>(v, c). ((k, v), c)) (map_of (am_nodes m) k)" by blast+
qed

lemma am_drain_all: "am_drain m = Some m"
proof (induction m)
  case (Cons node m)
  obtain k v c where "node = ((k, v), c)" by (metis prod.exhaust)
  with Cons show ?case by (subst am_drain.simps) (simp add: am_first_key_value_def rl_iter_def am_take_def)
qed (simp add: am_drain.simps am_first_key_value_def rl_iter_def)

section \<open>The interface of a registry\<close>

text \<open>
  What the kernel's tables rely on: lookup, insertion of a fresh key, detachment together
  with the charge, and the smallest key.
\<close>

locale registry =
  fixes valid :: "'m \<Rightarrow> bool" and look :: "'m \<Rightarrow> 'k::linorder \<Rightarrow> ('v \<times> 'c) option"
    and put :: "'c \<Rightarrow> 'k \<Rightarrow> 'v \<Rightarrow> 'm \<Rightarrow> 'm option"
    and detach :: "'k \<Rightarrow> 'm \<Rightarrow> (('k \<times> 'v) \<times> 'c) option \<times> 'm"
  assumes put_None_iff: "valid m \<Longrightarrow> put c k v m = None \<longleftrightarrow> look m k \<noteq> None"
    and put_look: "valid m \<Longrightarrow> put c k v m = Some m' \<Longrightarrow> valid m' \<and> look m' = (look m)(k \<mapsto> (v, c))"
    and detach_look: "valid m \<Longrightarrow> detach k m = (r, m') \<Longrightarrow> valid m' \<and> look m' = (look m)(k := None) \<and>
      r = map_option (\<lambda>(v, c). ((k, v), c)) (look m k)"
begin

lemma detach_put:
  assumes "valid m" "put c k v m = Some m'"
  shows "\<exists>m''. detach k m' = (Some ((k, v), c), m'') \<and> valid m'' \<and> look m'' = look m"
proof -
  have p: "valid m'" "look m' = (look m)(k \<mapsto> (v, c))" using put_look [OF assms] by auto
  have k: "look m k = None" using put_None_iff [OF assms(1), of c k v] assms(2) by (simp del: not_None_eq)
  obtain r m'' where r: "detach k m' = (r, m'')" by (cases "detach k m'")
  have "look m'' = look m" using detach_look [OF p(1) r] k p(2) by (auto simp: fun_eq_iff)
  with detach_look [OF p(1) r] p(2) r show ?thesis by simp
qed

lemma put_other: "valid m \<Longrightarrow> put c k v m = Some m' \<Longrightarrow> j \<noteq> k \<Longrightarrow> look m' j = look m j"
  using put_look by auto

end

lemma am_insert_abs:
  assumes "am_ordered m" "am_insert c k v m = Some m'"
  shows "am_ordered m'" "am_abs m' = bm_insert k (v, c) (am_abs m)"
proof -
  show "am_ordered m'"
    using assms(1) by (simp add: am_ordered_def am_insert_nodes [OF assms(2)] ordered_ins_entry)
  then have "bm_entries (am_abs m') = bm_entries (bm_insert k (v, c) (am_abs m))"
    by (simp add: bm_entries_abs assms(1) am_insert_nodes [OF assms(2)])
  then show "am_abs m' = bm_insert k (v, c) (am_abs m)" by (simp only: bm_entries_inject)
qed

lemma am_take_abs:
  assumes "am_ordered m" "am_take k m = (r, m')"
  shows "am_ordered m'" "am_abs m' = bm_remove k (am_abs m)"
    "r = map_option (\<lambda>(v, c). ((k, v), c)) (bm_get (am_abs m) k)"
proof -
  note t = am_take_nodes [OF assms]
  show "am_ordered m'" using assms(1) by (simp add: am_ordered_def t(1) ordered_filter)
  then have "bm_entries (am_abs m') = bm_entries (bm_remove k (am_abs m))"
    by (simp add: bm_entries_abs assms(1) t(1) bm_remove_def case_prod_beta')
  then show "am_abs m' = bm_remove k (am_abs m)" by (simp only: bm_entries_inject)
  show "r = map_option (\<lambda>(v, c). ((k, v), c)) (bm_get (am_abs m) k)"
    using t(2) by (simp add: bm_get_def bm_entries_abs assms(1))
qed

lemma am_get_abs: "am_ordered m \<Longrightarrow> am_get m k = map_option fst (bm_get (am_abs m) k)"
  by (simp add: am_get_nodes bm_get_def bm_entries_abs)

lemma am_insert_None: "am_ordered m \<Longrightarrow> am_insert c k v m = None \<longleftrightarrow> bm_contains (am_abs m) k"
  by (simp add: am_insert_def am_contains_key_def am_get_abs bm_contains_def)

interpretation admitted: registry am_ordered "\<lambda>m. bm_get (am_abs m)" am_insert am_take
proof
  show "am_insert c k v m = None \<longleftrightarrow> bm_get (am_abs m) k \<noteq> None" if "am_ordered m" for m :: "('a, 'b, 'c) admitted_map" and c k v
    using am_insert_None [OF that] by (simp add: bm_contains_def)
  show "am_ordered m' \<and> bm_get (am_abs m') = (bm_get (am_abs m))(k \<mapsto> (v, c))"
    if "am_ordered m" "am_insert c k v m = Some m'" for m :: "('a, 'b, 'c) admitted_map" and c k v m'
    using am_insert_abs [OF that] by simp
  show "am_ordered m' \<and> bm_get (am_abs m') = (bm_get (am_abs m))(k := None) \<and>
      r = map_option (\<lambda>(v, c). ((k, v), c)) (bm_get (am_abs m) k)"
    if "am_ordered m" "am_take k m = (r, m')" for m :: "('a, 'b, 'c) admitted_map" and k r m'
    using am_take_abs [OF that] by simp
qed

text \<open>
  (C23) The kernel's registries are ordered maps: on a registry whose nodes are in key order,
  lookup, insertion and detachment do what they do on an ordered map from keys to values and
  charges, the order is kept, insertion fails exactly on a key that is present, detaching
  what was inserted gives back value and charge and the registry of before, and draining a
  registry yields every node, in key order.
\<close>

theorem registry_refines_map:
  assumes "am_ordered m"
  shows "(\<forall>k. am_get m k = map_option fst (bm_get (am_abs m) k)) \<and>
    (\<forall>c k v. am_insert c k v m = None \<longleftrightarrow> bm_contains (am_abs m) k) \<and>
    (\<forall>c k v m'. am_insert c k v m = Some m' \<longrightarrow>
       am_ordered m' \<and> am_abs m' = bm_insert k (v, c) (am_abs m) \<and>
       (\<exists>m''. am_take k m' = (Some ((k, v), c), m'') \<and> am_abs m'' = am_abs m)) \<and>
    (\<forall>k r m'. am_take k m = (r, m') \<longrightarrow>
       am_ordered m' \<and> am_abs m' = bm_remove k (am_abs m) \<and>
       r = map_option (\<lambda>(v, c). ((k, v), c)) (bm_get (am_abs m) k)) \<and>
    map_option (map (\<lambda>((k, v), c). (k, v, c))) (am_drain m) = Some (bm_entries (am_abs m))"
proof (intro conjI allI impI)
  show "am_get m k = map_option fst (bm_get (am_abs m) k)" for k by (rule am_get_abs [OF assms])
  show "am_insert c k v m = None \<longleftrightarrow> bm_contains (am_abs m) k" for c k v by (rule am_insert_None [OF assms])
  fix c k v m'
  assume m': "am_insert c k v m = Some m'"
  show "am_ordered m'" "am_abs m' = bm_insert k (v, c) (am_abs m)" by (rule am_insert_abs [OF assms m'])+
  show "\<exists>m''. am_take k m' = (Some ((k, v), c), m'') \<and> am_abs m'' = am_abs m"
    using admitted.detach_put [OF assms m'] bmap_eqI by blast
next
  fix k r m'
  assume m': "am_take k m = (r, m')"
  show "am_ordered m'" "am_abs m' = bm_remove k (am_abs m)"
    "r = map_option (\<lambda>(v, c). ((k, v), c)) (bm_get (am_abs m) k)" by (rule am_take_abs [OF assms m'])+
next
  show "map_option (map (\<lambda>((k, v), c). (k, v, c))) (am_drain m) = Some (bm_entries (am_abs m))"
    by (simp add: am_drain_all bm_entries_abs assms am_nodes_def)
qed

theorem registry_refines_map_witness:
  "\<exists>m' m''. am_insert () (2::nat) ''b'' [((1, ''a''), ()), ((3, ''c''), ())] = Some m' \<and> am_ordered m' \<and>
     am_take 2 m' = (Some ((2, ''b''), ()), m'') \<and> am_abs m'' = am_abs [((1, ''a''), ()), ((3, ''c''), ())]"
proof -
  let ?m = "[((1::nat, ''a''), ()), ((3, ''c''), ())]"
  have m: "am_ordered ?m" by (simp add: am_ordered_def)
  obtain m' where m': "am_insert () 2 ''b'' ?m = Some m'"
    by (simp add: am_insert_def am_contains_key_def am_get_def rl_iter_def)
  with registry_refines_map [OF m] show ?thesis by blast
qed

end
