(* ===== verification/Capability.thy ===== *)
theory Capability
  imports Budgets Lifecycle Admitted_Map "HOL-Library.Monad_Syntax" "HOL-Library.Multiset"
begin

text \<open>
  The capability namespaces of the kernel (\<^verbatim>\<open>catten/src/capability.rs\<close> with its submodules
  \<^verbatim>\<open>budget.rs\<close> and \<^verbatim>\<open>record.rs\<close>): one table per address space, whose entries are staged, live or in
  escrow, and the tokens by which the subsystems move authority. The two registries are
  ordered maps (\<open>Admitted_Map\<close> shows that the kernel's lists are such maps). An account shared by
  reference counting is its index in \<open>accounts\<close>, so two references are the same pointer when
  the indices agree. A result \<open>None\<close> is a failed assertion, \<open>expect\<close> or \<open>unwrap\<close>. Where the
  kernel allocates storage, the outcome of the allocator is an argument. The limits are the
  compile-time policy of \<^verbatim>\<open>resource_policy.rs\<close>, also an argument.
\<close>

section \<open>Data\<close>

datatype object_kind = Ipc | Memory | Completion | Device | Mailbox | SystemObserver

datatype entry_state = Staged | Live | Escrow

datatype allocation_error = IdentityExhausted | ResourceLimit | Retired | AllocationFailed | UnknownCapability

type_synonym asid = usize
type_synonym object_capability = u64
type_synonym account_ref = nat

definition KERNEL_ASID :: asid where
  "KERNEL_ASID = 0"

record address_space_handle =
  ah_id :: asid
  ah_generation :: usize

record cap_policy =
  domain_limit :: usize
  node_limit :: usize
  ordinary_limit :: usize

record account =
  ac_used :: count_budget
  ac_retired :: bool

record node_budget =
  nb_total :: count_budget
  nb_ordinary :: count_budget

record cap_charge =
  ch_domain :: account_ref
  ch_platform :: bool

record cap_entry =
  en_kind :: object_kind
  en_state :: entry_state
  en_charge :: cap_charge

record namespace =
  next_serial :: u64
  address_space :: "address_space_handle option"
  ns_platform :: bool
  ns_budget :: account_ref
  ns_objects :: "(object_capability, cap_entry) bmap"

record capabilities =
  tables :: "(asid, namespace) bmap"
  accounts :: "(account_ref, account) bmap"
  next_account :: account_ref
  node :: node_budget

section \<open>Admission of records\<close>

definition node_budget_new :: "cap_policy \<Rightarrow> node_budget" where
  "node_budget_new p = \<lparr>nb_total = cb_new (node_limit p), nb_ordinary = cb_new (ordinary_limit p)\<rparr>"

definition node_reserve :: "bool \<Rightarrow> node_budget \<Rightarrow> ((allocation_error + unit) \<times> node_budget) option" where
  "node_reserve platform b =
     (case cb_reserve (nb_total b) () of
        (Inl _, _) \<Rightarrow> Some (Inl ResourceLimit, b)
      | (Inr _, tot) \<Rightarrow>
          if platform then Some (Inr (), b\<lparr>nb_total := tot\<rparr>)
          else
            (case cb_reserve (nb_ordinary b) () of
               (Inr _, ordinary) \<Rightarrow> Some (Inr (), b\<lparr>nb_total := tot, nb_ordinary := ordinary\<rparr>)
             | (Inl _, _) \<Rightarrow>
                 (case cb_release tot () of
                    (Inr _, tot') \<Rightarrow> Some (Inl ResourceLimit, b\<lparr>nb_total := tot'\<rparr>)
                  | (Inl _, _) \<Rightarrow> None)))"

definition node_release :: "bool \<Rightarrow> node_budget \<Rightarrow> node_budget option" where
  "node_release platform b =
     (case cb_release (nb_total b) () of
        (Inl _, _) \<Rightarrow> None
      | (Inr _, tot) \<Rightarrow>
          if platform then Some (b\<lparr>nb_total := tot\<rparr>)
          else
            (case cb_release (nb_ordinary b) () of
               (Inl _, _) \<Rightarrow> None
             | (Inr _, ordinary) \<Rightarrow> Some (b\<lparr>nb_total := tot, nb_ordinary := ordinary\<rparr>)))"

definition account_new :: "cap_policy \<Rightarrow> capabilities \<Rightarrow> account_ref \<times> capabilities" where
  "account_new p k =
     (next_account k,
      k\<lparr>accounts := bm_insert (next_account k) \<lparr>ac_used = cb_new (domain_limit p), ac_retired = False\<rparr> (accounts k),
        next_account := next_account k + 1\<rparr>)"

definition accepting :: "capabilities \<Rightarrow> account_ref \<Rightarrow> bool" where
  "accepting k domain = (case bm_get (accounts k) domain of Some a \<Rightarrow> \<not> ac_retired a | None \<Rightarrow> False)"

definition account_retire :: "account_ref \<Rightarrow> capabilities \<Rightarrow> capabilities" where
  "account_retire domain k =
     (case bm_get (accounts k) domain of
        None \<Rightarrow> k
      | Some a \<Rightarrow> k\<lparr>accounts := bm_insert domain (a\<lparr>ac_retired := True\<rparr>) (accounts k)\<rparr>)"

definition charge_reserve ::
    "account_ref \<Rightarrow> bool \<Rightarrow> capabilities \<Rightarrow> ((allocation_error + cap_charge) \<times> capabilities) option" where
  "charge_reserve domain platform k =
     (case bm_get (accounts k) domain of
        None \<Rightarrow> None
      | Some local \<Rightarrow>
          if ac_retired local then Some (Inl Retired, k)
          else
            (case cb_reserve (ac_used local) () of
               (Inl _, _) \<Rightarrow> Some (Inl ResourceLimit, k)
             | (Inr _, used) \<Rightarrow> do {
                 (r, nb) \<leftarrow> node_reserve platform (node k);
                 case r of
                   Inl e \<Rightarrow>
                     (case cb_release used () of
                        (Inl _, _) \<Rightarrow> None
                      | (Inr _, used') \<Rightarrow>
                          Some (Inl e, k\<lparr>accounts := bm_insert domain (local\<lparr>ac_used := used'\<rparr>) (accounts k), node := nb\<rparr>))
                 | Inr _ \<Rightarrow>
                     Some (Inr \<lparr>ch_domain = domain, ch_platform = platform\<rparr>,
                       k\<lparr>accounts := bm_insert domain (local\<lparr>ac_used := used\<rparr>) (accounts k), node := nb\<rparr>)
               }))"

definition charge_drop :: "cap_charge \<Rightarrow> capabilities \<Rightarrow> capabilities option" where
  "charge_drop c k =
     (case bm_get (accounts k) (ch_domain c) of
        None \<Rightarrow> None
      | Some local \<Rightarrow>
          (case cb_release (ac_used local) () of
             (Inl _, _) \<Rightarrow> None
           | (Inr _, used) \<Rightarrow> do {
               nb \<leftarrow> node_release (ch_platform c) (node k);
               Some (k\<lparr>accounts := bm_insert (ch_domain c) (local\<lparr>ac_used := used\<rparr>) (accounts k), node := nb\<rparr>)
             }))"

section \<open>Namespaces\<close>

text \<open>The outcome of the allocations that prepare a record and a namespace.\<close>

record backing =
  bk_record :: "allocation_error option"
  bk_node :: bool
  bk_account :: bool

definition namespace_new :: "account_ref \<Rightarrow> namespace" where
  "namespace_new domain =
     \<lparr>next_serial = 1, address_space = None, ns_platform = False, ns_budget = domain, ns_objects = bm_empty\<rparr>"

definition prepare_namespace ::
    "cap_policy \<Rightarrow> backing \<Rightarrow> capabilities \<Rightarrow> (allocation_error + namespace) \<times> capabilities" where
  "prepare_namespace p bk k =
     (if \<not> bk_node bk \<or> \<not> bk_account bk then (Inl AllocationFailed, k)
      else let (domain, k') = account_new p k in (Inr (namespace_new domain), k'))"

definition publish_into ::
    "asid \<Rightarrow> address_space_handle option \<Rightarrow> namespace \<Rightarrow> capabilities \<Rightarrow> capabilities option" where
  "publish_into owner identity value k =
     (if bm_contains (tables k) owner then None
      else Some (k\<lparr>tables := bm_insert owner (value\<lparr>address_space := identity\<rparr>) (tables k)\<rparr>))"

definition publish_namespace :: "address_space_handle \<Rightarrow> namespace \<Rightarrow> capabilities \<Rightarrow> capabilities option" where
  "publish_namespace handle value k = publish_into (ah_id handle) (Some handle) value k"

definition update_table :: "asid \<Rightarrow> (namespace \<Rightarrow> namespace) \<Rightarrow> capabilities \<Rightarrow> capabilities" where
  "update_table owner f k =
     (case bm_get (tables k) owner of
        None \<Rightarrow> k
      | Some t \<Rightarrow> k\<lparr>tables := bm_insert owner (f t) (tables k)\<rparr>)"

definition set_state :: "object_capability \<Rightarrow> entry_state \<Rightarrow> namespace \<Rightarrow> namespace" where
  "set_state cap s t =
     (case bm_get (ns_objects t) cap of
        None \<Rightarrow> t
      | Some e \<Rightarrow> t\<lparr>ns_objects := bm_insert cap (e\<lparr>en_state := s\<rparr>) (ns_objects t)\<rparr>)"

definition drop_entry :: "object_capability \<Rightarrow> namespace \<Rightarrow> namespace" where
  "drop_entry cap t = t\<lparr>ns_objects := bm_remove cap (ns_objects t)\<rparr>"

definition mark_platform :: "address_space_handle \<Rightarrow> capabilities \<Rightarrow> capabilities" where
  "mark_platform handle k =
     (case bm_get (tables k) (ah_id handle) of
        None \<Rightarrow> k
      | Some t \<Rightarrow>
          if address_space t = Some handle \<and> accepting k (ns_budget t)
          then update_table (ah_id handle) (\<lambda>t. t\<lparr>ns_platform := True\<rparr>) k else k)"

section \<open>Reservations\<close>

text \<open>\<open>PreparedReservation\<close>, with the fields of its \<open>PreparingRecord\<close>.\<close>

record preparation =
  pr_owner :: asid
  pr_kind :: object_kind
  pr_identity :: "address_space_handle option"
  pr_namespace :: "namespace option"
  pr_node :: bool
  pr_charge :: "cap_charge option"

record reservation =
  rs_owner :: asid
  rs_cap :: object_capability
  rs_kind :: object_kind
  rs_namespace :: account_ref
  rs_active :: bool

definition prepare_reservation ::
    "cap_policy \<Rightarrow> backing \<Rightarrow> asid \<Rightarrow> object_kind \<Rightarrow> address_space_handle option \<Rightarrow> capabilities \<Rightarrow>
     (allocation_error + preparation) \<times> capabilities" where
  "prepare_reservation p bk owner kind captured k =
     (let identity = (if owner = KERNEL_ASID then None else captured) in
      case (case bm_get (tables k) owner of
              Some table \<Rightarrow> if address_space table = identity then Inr False else Inl Retired
            | None \<Rightarrow> if identity \<noteq> None then Inl Retired else Inr True) of
        Inl e \<Rightarrow> (Inl e, k)
      | Inr missing \<Rightarrow>
          (case bk_record bk of
             Some e \<Rightarrow> (Inl e, k)
           | None \<Rightarrow>
               (case (if missing then map_prod (map_sum id Some) id (prepare_namespace p bk k) else (Inr None, k)) of
                  (Inl e, k') \<Rightarrow> (Inl e, k')
                | (Inr ns, k') \<Rightarrow>
                    (Inr \<lparr>pr_owner = owner, pr_kind = kind, pr_identity = identity, pr_namespace = ns,
                          pr_node = True, pr_charge = None\<rparr>, k'))))"

text \<open>\<open>PreparingRecord::insert\<close>: charge, mint an identity, link the entry.\<close>

definition record_insert ::
    "preparation \<Rightarrow> namespace \<Rightarrow> bool \<Rightarrow> entry_state \<Rightarrow> capabilities \<Rightarrow>
     ((allocation_error + object_capability) \<times> preparation \<times> capabilities) option" where
  "record_insert p table platform s k =
     (if \<not> pr_node p \<or> pr_charge p \<noteq> None then None
      else do {
        (r, k1) \<leftarrow> charge_reserve (ns_budget table) platform k;
        case r of
          Inl e \<Rightarrow> Some (Inl e, p, k1)
        | Inr charge \<Rightarrow>
            (case claim_generation (next_serial table) of
               None \<Rightarrow> Some (Inl IdentityExhausted, p\<lparr>pr_charge := Some charge\<rparr>, k1)
             | Some (cap, next) \<Rightarrow>
                 if bm_contains (ns_objects table) cap then None
                 else
                   Some (Inr cap, p\<lparr>pr_node := False\<rparr>,
                     k1\<lparr>tables := bm_insert (pr_owner p)
                          (table\<lparr>next_serial := next,
                             ns_objects := bm_insert cap \<lparr>en_kind = pr_kind p, en_state = s, en_charge = charge\<rparr>
                               (ns_objects table)\<rparr>) (tables k1)\<rparr>))
      })"

text \<open>\<open>namespace\<close>: the table of the owner, created from the preparation where it may be.\<close>

definition owner_namespace :: "preparation \<Rightarrow> capabilities \<Rightarrow> ((allocation_error + unit) \<times> preparation \<times> capabilities) option" where
  "owner_namespace p k =
     (if bm_contains (tables k) (pr_owner p) then Some (Inr (), p, k)
      else if pr_identity p \<noteq> None then Some (Inl Retired, p, k)
      else
        (case pr_namespace p of
           None \<Rightarrow> Some (Inl Retired, p, k)
         | Some ns \<Rightarrow> do {
             k' \<leftarrow> publish_into (pr_owner p) None ns k;
             Some (Inr (), p\<lparr>pr_namespace := None\<rparr>, k')
           }))"

definition reserve_prepared_captured ::
    "preparation \<Rightarrow> capabilities \<Rightarrow> ((allocation_error + reservation) \<times> preparation \<times> capabilities) option" where
  "reserve_prepared_captured p k =
     (if pr_identity p \<noteq> None \<and> \<not> bm_contains (tables k) (pr_owner p) then Some (Inl Retired, p, k)
      else do {
        (r, p1, k1) \<leftarrow> owner_namespace p k;
        case r of
          Inl e \<Rightarrow> Some (Inl e, p1, k1)
        | Inr _ \<Rightarrow>
            (case bm_get (tables k1) (pr_owner p) of
               None \<Rightarrow> None
             | Some table \<Rightarrow>
                 if address_space table \<noteq> pr_identity p then Some (Inl Retired, p1, k1)
                 else do {
                   (r, p2, k2) \<leftarrow> record_insert p1 table (pr_owner p = KERNEL_ASID \<or> ns_platform table) Staged k1;
                   Some (case r of
                           Inl e \<Rightarrow> Inl e
                         | Inr cap \<Rightarrow> Inr \<lparr>rs_owner = pr_owner p, rs_cap = cap, rs_kind = pr_kind p,
                             rs_namespace = ns_budget table, rs_active = True\<rparr>, p2, k2)
                 })
      })"

text \<open>The argument is the fence of the memory subsystem, \<open>memory::budget::accepting\<close>.\<close>

definition reserve_in_lifecycle ::
    "(address_space_handle \<Rightarrow> bool) \<Rightarrow> preparation \<Rightarrow> capabilities \<Rightarrow>
     ((allocation_error + reservation) \<times> preparation \<times> capabilities) option" where
  "reserve_in_lifecycle sponsored p k =
     (if (case pr_identity p of None \<Rightarrow> False | Some handle \<Rightarrow> \<not> sponsored handle) then Some (Inl Retired, p, k)
      else reserve_prepared_captured p k)"

definition finish_preparation :: "preparation \<Rightarrow> capabilities \<Rightarrow> capabilities option" where
  "finish_preparation p k = (case pr_charge p of None \<Rightarrow> Some k | Some c \<Rightarrow> charge_drop c k)"

definition reserve_captured ::
    "cap_policy \<Rightarrow> backing \<Rightarrow> asid \<Rightarrow> object_kind \<Rightarrow> address_space_handle option \<Rightarrow> capabilities \<Rightarrow>
     ((allocation_error + reservation) \<times> capabilities) option" where
  "reserve_captured p bk owner kind identity k =
     (case prepare_reservation p bk owner kind identity k of
        (Inl e, k1) \<Rightarrow> Some (Inl e, k1)
      | (Inr prep, k1) \<Rightarrow> do {
          (r, prep', k2) \<leftarrow> reserve_prepared_captured prep k1;
          k3 \<leftarrow> finish_preparation prep' k2;
          Some (r, k3)
        })"

text \<open>\<open>publish\<close> and \<open>Drop\<close>; publication consumes the token, so its failure drops it.\<close>

definition reservation_publish :: "reservation \<Rightarrow> capabilities \<Rightarrow> (allocation_error + object_capability) \<times> reservation \<times> capabilities" where
  "reservation_publish r k =
     (case bm_get (tables k) (rs_owner r) of
        None \<Rightarrow> (Inl Retired, r, k)
      | Some table \<Rightarrow>
          if ns_budget table \<noteq> rs_namespace r \<or> \<not> accepting k (ns_budget table) then (Inl Retired, r, k)
          else
            (case bm_get (ns_objects table) (rs_cap r) of
               None \<Rightarrow> (Inl UnknownCapability, r, k)
             | Some e \<Rightarrow>
                 if en_kind e \<noteq> rs_kind r \<or> en_state e \<noteq> Staged then (Inl UnknownCapability, r, k)
                 else (Inr (rs_cap r), r\<lparr>rs_active := False\<rparr>, update_table (rs_owner r) (set_state (rs_cap r) Live) k)))"

definition discard_captured ::
    "asid \<Rightarrow> object_capability \<Rightarrow> account_ref \<Rightarrow> entry_state \<Rightarrow> capabilities \<Rightarrow> cap_entry option \<times> capabilities" where
  "discard_captured owner cap domain s k =
     (case bm_get (tables k) owner of
        None \<Rightarrow> (None, k)
      | Some table \<Rightarrow>
          if ns_budget table = domain \<and>
             (case bm_get (ns_objects table) cap of Some e \<Rightarrow> en_state e = s | None \<Rightarrow> False)
          then (bm_get (ns_objects table) cap, update_table owner (drop_entry cap) k)
          else (None, k))"

text \<open>\<open>RetiredRecord::release\<close>.\<close>

definition record_release :: "cap_entry \<Rightarrow> capabilities \<Rightarrow> capabilities option" where
  "record_release e k = charge_drop (en_charge e) k"

definition reservation_drop :: "reservation \<Rightarrow> capabilities \<Rightarrow> capabilities option" where
  "reservation_drop r k =
     (if rs_active r then
        (case discard_captured (rs_owner r) (rs_cap r) (rs_namespace r) Staged k of
           (Some e, k') \<Rightarrow> record_release e k'
         | (None, k') \<Rightarrow> Some k')
      else Some k)"

definition publish_reservation :: "reservation \<Rightarrow> capabilities \<Rightarrow> ((allocation_error + object_capability) \<times> capabilities) option" where
  "publish_reservation r k =
     (case reservation_publish r k of
        (res, r', k1) \<Rightarrow> do {
          k2 \<leftarrow> reservation_drop r' k1;
          Some (res, k2)
        })"

section \<open>Moving authority\<close>

record source_escrow =
  se_retired :: "cap_entry option"
  se_owner :: asid
  se_cap :: object_capability
  se_kind :: object_kind
  se_namespace :: account_ref
  se_active :: bool

definition escrow_captured ::
    "asid \<Rightarrow> object_capability \<Rightarrow> object_kind \<Rightarrow> address_space_handle option \<Rightarrow> capabilities \<Rightarrow>
     (allocation_error + source_escrow) \<times> capabilities" where
  "escrow_captured owner cap kind captured k =
     (let identity = (if owner = KERNEL_ASID then None else captured) in
      case bm_get (tables k) owner of
        None \<Rightarrow> (Inl UnknownCapability, k)
      | Some table \<Rightarrow>
          if address_space table \<noteq> identity \<or> \<not> accepting k (ns_budget table) then (Inl Retired, k)
          else
            (case bm_get (ns_objects table) cap of
               None \<Rightarrow> (Inl UnknownCapability, k)
             | Some e \<Rightarrow>
                 if en_kind e \<noteq> kind \<or> en_state e \<noteq> Live then (Inl UnknownCapability, k)
                 else (Inr \<lparr>se_retired = None, se_owner = owner, se_cap = cap, se_kind = kind,
                            se_namespace = ns_budget table, se_active = True\<rparr>,
                       update_table owner (set_state cap Escrow) k)))"

definition restore_inner ::
    "bool \<Rightarrow> source_escrow \<Rightarrow> capabilities \<Rightarrow> (allocation_error + object_capability) \<times> source_escrow \<times> capabilities" where
  "restore_inner allow_retired s k =
     (case bm_get (tables k) (se_owner s) of
        None \<Rightarrow> (Inl Retired, s, k)
      | Some table \<Rightarrow>
          if ns_budget table \<noteq> se_namespace s \<or> \<not> allow_retired \<and> \<not> accepting k (ns_budget table)
          then (Inl Retired, s, k)
          else
            (case bm_get (ns_objects table) (se_cap s) of
               None \<Rightarrow> (Inl UnknownCapability, s, k)
             | Some e \<Rightarrow>
                 if en_kind e \<noteq> se_kind s \<or> en_state e \<noteq> Escrow then (Inl UnknownCapability, s, k)
                 else (Inr (se_cap s), s\<lparr>se_active := False\<rparr>, update_table (se_owner s) (set_state (se_cap s) Live) k)))"

definition escrow_drop :: "source_escrow \<Rightarrow> capabilities \<Rightarrow> capabilities option" where
  "escrow_drop s k =
     (if se_active s then
        (case discard_captured (se_owner s) (se_cap s) (se_namespace s) Escrow k of
           (Some e, k') \<Rightarrow> record_release e k'
         | (None, k') \<Rightarrow> Some k')
      else Some k)"

definition restore_escrow :: "bool \<Rightarrow> source_escrow \<Rightarrow> capabilities \<Rightarrow> ((allocation_error + object_capability) \<times> capabilities) option" where
  "restore_escrow allow_retired s k =
     (case restore_inner allow_retired s k of
        (res, s', k1) \<Rightarrow> do {
          k2 \<leftarrow> escrow_drop s' k1;
          Some (res, k2)
        })"

definition finish_retired :: "source_escrow \<Rightarrow> capabilities \<Rightarrow> (source_escrow \<times> capabilities) option" where
  "finish_retired s k =
     (case se_retired s of
        None \<Rightarrow> Some (s, k)
      | Some e \<Rightarrow> do {
          k' \<leftarrow> record_release e k;
          Some (s\<lparr>se_retired := None\<rparr>, k')
        })"

datatype source_disposition = Revoke | Restore

record publication =
  pb_destination :: reservation
  pb_source :: "(source_escrow \<times> source_disposition) option"

text \<open>The first pass: every named entry is there, in its namespace, in its state.\<close>

definition check_entry ::
    "capabilities \<Rightarrow> asid \<Rightarrow> object_capability \<Rightarrow> object_kind \<Rightarrow> account_ref \<Rightarrow> entry_state \<Rightarrow> allocation_error option" where
  "check_entry k owner cap kind domain s =
     (case bm_get (tables k) owner of
        None \<Rightarrow> Some Retired
      | Some table \<Rightarrow>
          if ns_budget table \<noteq> domain \<or> \<not> accepting k (ns_budget table) then Some Retired
          else if (case bm_get (ns_objects table) cap of
                     Some e \<Rightarrow> en_kind e = kind \<and> en_state e = s
                   | None \<Rightarrow> False)
          then None else Some UnknownCapability)"

definition check_publication :: "capabilities \<Rightarrow> publication \<Rightarrow> allocation_error option" where
  "check_publication k pub =
     (let d = pb_destination pub in
      case check_entry k (rs_owner d) (rs_cap d) (rs_kind d) (rs_namespace d) Staged of
        Some e \<Rightarrow> Some e
      | None \<Rightarrow>
          (case pb_source pub of
             None \<Rightarrow> None
           | Some (s, _) \<Rightarrow> check_entry k (se_owner s) (se_cap s) (se_kind s) (se_namespace s) Escrow))"

primrec check_batch :: "capabilities \<Rightarrow> publication list \<Rightarrow> allocation_error option" where
  "check_batch k [] = None"
| "check_batch k (pub # pubs) =
     (case check_publication k pub of Some e \<Rightarrow> Some e | None \<Rightarrow> check_batch k pubs)"

text \<open>The second pass: destinations become live, sources are revoked or come back.\<close>

definition entry_of :: "capabilities \<Rightarrow> asid \<Rightarrow> object_capability \<Rightarrow> cap_entry option" where
  "entry_of k owner cap = do { table \<leftarrow> bm_get (tables k) owner; bm_get (ns_objects table) cap }"

definition make_live :: "asid \<Rightarrow> object_capability \<Rightarrow> capabilities \<Rightarrow> capabilities option" where
  "make_live owner cap k =
     (case entry_of k owner cap of
        None \<Rightarrow> None
      | Some _ \<Rightarrow> Some (update_table owner (set_state cap Live) k))"

definition settle_source ::
    "source_escrow \<Rightarrow> source_disposition \<Rightarrow> capabilities \<Rightarrow> (source_escrow \<times> capabilities) option" where
  "settle_source s disposition k =
     (case disposition of
        Revoke \<Rightarrow>
          if se_retired s \<noteq> None then None
          else do {
            e \<leftarrow> entry_of k (se_owner s) (se_cap s);
            Some (s\<lparr>se_retired := Some e, se_active := False\<rparr>, update_table (se_owner s) (drop_entry (se_cap s)) k)
          }
      | Restore \<Rightarrow> do {
          k' \<leftarrow> make_live (se_owner s) (se_cap s) k;
          Some (s\<lparr>se_active := False\<rparr>, k')
        })"

definition apply_publication :: "publication \<Rightarrow> capabilities \<Rightarrow> (publication \<times> capabilities) option" where
  "apply_publication pub k =
     (let d = pb_destination pub in do {
        k1 \<leftarrow> make_live (rs_owner d) (rs_cap d) k;
        (source, k2) \<leftarrow>
          (case pb_source pub of
             None \<Rightarrow> Some (None, k1)
           | Some (s, disposition) \<Rightarrow> do {
               (s', k') \<leftarrow> settle_source s disposition k1;
               Some (Some (s', disposition), k')
             });
        Some (\<lparr>pb_destination = d\<lparr>rs_active := False\<rparr>, pb_source = source\<rparr>, k2)
      })"

primrec apply_batch :: "publication list \<Rightarrow> capabilities \<Rightarrow> (publication list \<times> capabilities) option" where
  "apply_batch [] k = Some ([], k)"
| "apply_batch (pub # pubs) k = do {
     (pub', k1) \<leftarrow> apply_publication pub k;
     (pubs', k2) \<leftarrow> apply_batch pubs k1;
     Some (pub' # pubs', k2)
   }"

definition publish_batch ::
    "publication list \<Rightarrow> capabilities \<Rightarrow> ((allocation_error + unit) \<times> publication list \<times> capabilities) option" where
  "publish_batch pubs k =
     (case check_batch k pubs of
        Some e \<Rightarrow> Some (Inl e, pubs, k)
      | None \<Rightarrow> do {
          (pubs', k') \<leftarrow> apply_batch pubs k;
          Some (Inr (), pubs', k')
        })"

section \<open>Lookup and revocation\<close>

definition cap_contains :: "asid \<Rightarrow> object_capability \<Rightarrow> object_kind \<Rightarrow> capabilities \<Rightarrow> bool" where
  "cap_contains owner cap kind k =
     (case entry_of k owner cap of Some e \<Rightarrow> en_kind e = kind \<and> en_state e = Live | None \<Rightarrow> False)"

definition retire_record ::
    "asid \<Rightarrow> object_capability \<Rightarrow> object_kind \<Rightarrow> (entry_state \<Rightarrow> bool) \<Rightarrow> capabilities \<Rightarrow> cap_entry option \<times> capabilities" where
  "retire_record owner cap kind accepts k =
     (case entry_of k owner cap of
        None \<Rightarrow> (None, k)
      | Some e \<Rightarrow>
          if en_kind e \<noteq> kind \<or> \<not> accepts (en_state e) then (None, k)
          else (Some e, update_table owner (drop_entry cap) k))"

definition detach :: "asid \<Rightarrow> object_capability \<Rightarrow> object_kind \<Rightarrow> capabilities \<Rightarrow> cap_entry option \<times> capabilities" where
  "detach owner cap kind k = retire_record owner cap kind (\<lambda>s. s = Live) k"

definition detach_for_teardown :: "asid \<Rightarrow> object_capability \<Rightarrow> object_kind \<Rightarrow> capabilities \<Rightarrow> cap_entry option \<times> capabilities" where
  "detach_for_teardown owner cap kind k = retire_record owner cap kind (\<lambda>s. s \<noteq> Staged) k"

definition remove_with_state ::
    "asid \<Rightarrow> object_capability \<Rightarrow> object_kind \<Rightarrow> (entry_state \<Rightarrow> bool) \<Rightarrow> capabilities \<Rightarrow> (bool \<times> capabilities) option" where
  "remove_with_state owner cap kind accepts k =
     (case retire_record owner cap kind accepts k of
        (None, k') \<Rightarrow> Some (False, k')
      | (Some e, k') \<Rightarrow> do {
          k'' \<leftarrow> record_release e k';
          Some (True, k'')
        })"

definition cap_remove :: "asid \<Rightarrow> object_capability \<Rightarrow> object_kind \<Rightarrow> capabilities \<Rightarrow> (bool \<times> capabilities) option" where
  "cap_remove owner cap kind k = remove_with_state owner cap kind (\<lambda>s. s = Live) k"

section \<open>Teardown of a namespace\<close>

definition retire_address_space :: "asid \<Rightarrow> capabilities \<Rightarrow> capabilities" where
  "retire_address_space owner k =
     (case bm_get (tables k) owner of None \<Rightarrow> k | Some table \<Rightarrow> account_retire (ns_budget table) k)"

definition take_namespace :: "asid \<Rightarrow> capabilities \<Rightarrow> namespace option \<times> capabilities" where
  "take_namespace owner k = (bm_get (tables k) owner, k\<lparr>tables := bm_remove owner (tables k)\<rparr>)"

definition detach_address_space :: "address_space_handle \<Rightarrow> capabilities \<Rightarrow> namespace option \<times> capabilities" where
  "detach_address_space handle k =
     (case bm_get (tables k) (ah_id handle) of
        None \<Rightarrow> (None, k)
      | Some table \<Rightarrow>
          if address_space table \<noteq> Some handle \<or> accepting k (ns_budget table) then (None, k)
          else take_namespace (ah_id handle) k)"

text \<open>One turn of the loop of \<open>release_namespace\<close>: the first key and its record; then the loop.\<close>

definition namespace_pop :: "namespace \<Rightarrow> (cap_entry \<times> namespace) option" where
  "namespace_pop ns =
     (case bm_entries (ns_objects ns) of [] \<Rightarrow> None | (cap, e) # _ \<Rightarrow> Some (e, drop_entry cap ns))"

lemma namespace_pop_values:
  assumes "namespace_pop ns = Some (e, ns')"
  shows "bm_values (ns_objects ns) = e # bm_values (ns_objects ns')"
proof -
  obtain cap es where es: "bm_entries (ns_objects ns) = (cap, e) # es" "ns' = drop_entry cap ns"
    using assms by (auto simp: namespace_pop_def split: list.splits)
  have "\<forall>x \<in> set es. fst x \<noteq> cap" using ordered_bm_entries [of "ns_objects ns"] es(1) by auto
  then have "filter (\<lambda>(a, _). a \<noteq> cap) es = es" by (auto simp: filter_id_conv)
  with es show ?thesis by (simp add: bm_values_def drop_entry_def bm_remove_def case_prod_unfold)
qed

function release_namespace :: "namespace \<Rightarrow> capabilities \<Rightarrow> capabilities option" where
  "release_namespace ns k =
     (case namespace_pop ns of
        None \<Rightarrow> Some k
      | Some (e, ns') \<Rightarrow> (case record_release e k of None \<Rightarrow> None | Some k' \<Rightarrow> release_namespace ns' k'))"
  by pat_completeness auto

termination
  by (relation "measure (\<lambda>(ns, _). length (bm_values (ns_objects ns)))") (auto simp: namespace_pop_values)

declare release_namespace.simps [simp del]

text \<open>The loop releases the entries in key order.\<close>

primrec release_records :: "cap_entry list \<Rightarrow> capabilities \<Rightarrow> capabilities option" where
  "release_records [] k = Some k"
| "release_records (e # es) k = do { k' \<leftarrow> record_release e k; release_records es k' }"

lemma release_namespace_records: "release_namespace ns k = release_records (bm_values (ns_objects ns)) k"
proof (induction ns k rule: release_namespace.induct)
  case (1 ns k)
  show ?case
  proof (cases "namespace_pop ns")
    case None
    then have "bm_values (ns_objects ns) = []" by (auto simp: namespace_pop_def bm_values_def split: list.splits)
    with None show ?thesis by (simp add: release_namespace.simps [of ns k])
  next
    case (Some x)
    obtain e ns' where x: "x = (e, ns')" by (cases x)
    with 1 Some namespace_pop_values [of ns e ns'] show ?thesis
      by (cases "record_release e k") (simp_all add: release_namespace.simps [of ns k])
  qed
qed

definition close_address_space :: "asid \<Rightarrow> capabilities \<Rightarrow> capabilities option" where
  "close_address_space owner k =
     (case take_namespace owner (retire_address_space owner k) of
        (None, k') \<Rightarrow> Some k'
      | (Some ns, k') \<Rightarrow> release_namespace ns k')"

definition capabilities_new :: "cap_policy \<Rightarrow> capabilities" where
  "capabilities_new p =
     \<lparr>tables = bm_empty, accounts = bm_empty, next_account = 0, node = node_budget_new p\<rparr>"

end
