(* ===== verification/Capability_Safety.thy ===== *)
theory Capability_Safety
  imports Capability
begin

text \<open>
  The capability namespaces in motion: the kernel state together with every token its
  subsystems hold, stepping through the operations in any order. Ownership of tokens is
  Rust's: a token is used once. The invariant ties entries, tokens and admission counters
  together; it is proved once for a dozen small steps of which every operation is made.
\<close>

section \<open>Tokens\<close>

datatype token =
  TNs namespace
| TPrep preparation
| TRes reservation
| TEsc source_escrow
| TRet cap_entry
| TRetNs namespace

definition ncharges :: "namespace \<Rightarrow> cap_charge multiset" where
  "ncharges ns = image_mset en_charge (mset (bm_values (ns_objects ns)))"

definition charge_of :: "cap_charge option \<Rightarrow> cap_charge multiset" where
  "charge_of c = (case c of None \<Rightarrow> {#} | Some c \<Rightarrow> {#c#})"

fun tcharges :: "token \<Rightarrow> cap_charge multiset" where
  "tcharges (TNs ns) = {#}"
| "tcharges (TPrep p) = charge_of (pr_charge p)"
| "tcharges (TRes r) = {#}"
| "tcharges (TEsc s) = charge_of (map_option en_charge (se_retired s))"
| "tcharges (TRet e) = {#en_charge e#}"
| "tcharges (TRetNs ns) = ncharges ns"

definition table_charges :: "capabilities \<Rightarrow> cap_charge multiset" where
  "table_charges k = (\<Sum>ns\<in>#mset (bm_values (tables k)). ncharges ns)"

definition outstanding :: "capabilities \<Rightarrow> token multiset \<Rightarrow> cap_charge multiset" where
  "outstanding k T = table_charges k + (\<Sum>t\<in>#T. tcharges t)"

text \<open>A namespace that is prepared and not yet in the tables; the entry an active token speaks for.\<close>

fun pending_ns :: "token \<Rightarrow> namespace option" where
  "pending_ns (TNs ns) = Some ns"
| "pending_ns (TPrep p) = pr_namespace p"
| "pending_ns _ = None"

fun claim :: "token \<Rightarrow> (account_ref \<times> object_capability) option" where
  "claim (TRes r) = (if rs_active r then Some (rs_namespace r, rs_cap r) else None)"
| "claim (TEsc s) = (if se_active s then Some (se_namespace s, se_cap s) else None)"
| "claim _ = None"

definition marks :: "token \<Rightarrow> (account_ref + account_ref \<times> object_capability) multiset" where
  "marks t = (case pending_ns t of None \<Rightarrow> {#} | Some ns \<Rightarrow> {#Inl (ns_budget ns)#}) +
     (case claim t of None \<Rightarrow> {#} | Some c \<Rightarrow> {#Inr c#})"

abbreviation all_marks :: "token multiset \<Rightarrow> (account_ref + account_ref \<times> object_capability) multiset" where
  "all_marks T \<equiv> (\<Sum>t\<in>#T. marks t)"

section \<open>The invariant\<close>

definition budget_ok :: "usize \<Rightarrow> nat \<Rightarrow> count_budget \<Rightarrow> bool" where
  "budget_ok limit n b \<longleftrightarrow> cb_limit b = limit \<and> unat (cb_used b) = n \<and> n \<le> unat limit"

definition accounts_ok :: "cap_policy \<Rightarrow> capabilities \<Rightarrow> cap_charge multiset \<Rightarrow> bool" where
  "accounts_ok p k C \<longleftrightarrow>
     dom (bm_get (accounts k)) = {..<next_account k} \<and>
     (\<forall>a ac. bm_get (accounts k) a = Some ac \<longrightarrow>
        budget_ok (domain_limit p) (size {#c \<in># C. ch_domain c = a#}) (ac_used ac)) \<and>
     (\<forall>c \<in># C. ch_domain c < next_account k) \<and>
     budget_ok (node_limit p) (size C) (nb_total (node k)) \<and>
     budget_ok (ordinary_limit p) (size {#c \<in># C. \<not> ch_platform c#}) (nb_ordinary (node k))"

definition namespace_ok :: "namespace \<Rightarrow> bool" where
  "namespace_ok ns \<longleftrightarrow> next_serial ns \<noteq> 0 \<and>
     (\<forall>c e. bm_get (ns_objects ns) c = Some e \<longrightarrow> c < next_serial ns)"

definition tables_ok :: "capabilities \<Rightarrow> bool" where
  "tables_ok k \<longleftrightarrow>
     (\<forall>o' ns. bm_get (tables k) o' = Some ns \<longrightarrow> namespace_ok ns \<and> ns_budget ns < next_account k) \<and>
     (\<forall>o1 o2 n1 n2. bm_get (tables k) o1 = Some n1 \<and> bm_get (tables k) o2 = Some n2 \<and> ns_budget n1 = ns_budget n2 \<longrightarrow> o1 = o2)"

text \<open>What a token may rely on while its namespace is in the tables.\<close>

fun claim_ok :: "token \<Rightarrow> asid \<Rightarrow> namespace \<Rightarrow> bool" where
  "claim_ok (TRes r) o' ns \<longleftrightarrow> o' = rs_owner r \<and>
     (\<exists>e. bm_get (ns_objects ns) (rs_cap r) = Some e \<and> en_state e = Staged \<and> en_kind e = rs_kind r)"
| "claim_ok (TEsc s) o' ns \<longleftrightarrow> o' = se_owner s \<and> se_cap s < next_serial ns \<and>
     (\<forall>e. bm_get (ns_objects ns) (se_cap s) = Some e \<longrightarrow> en_state e = Escrow \<and> en_kind e = se_kind s)"
| "claim_ok _ o' ns \<longleftrightarrow> True"

definition fresh_ns :: "capabilities \<Rightarrow> namespace \<Rightarrow> bool" where
  "fresh_ns k ns \<longleftrightarrow> next_serial ns = 1 \<and> ns_objects ns = bm_empty \<and> ns_budget ns < next_account k \<and>
     (\<forall>o' ns'. bm_get (tables k) o' = Some ns' \<longrightarrow> ns_budget ns' \<noteq> ns_budget ns)"

definition token_ok :: "capabilities \<Rightarrow> token \<Rightarrow> bool" where
  "token_ok k t \<longleftrightarrow>
     (\<forall>ns. pending_ns t = Some ns \<longrightarrow> fresh_ns k ns) \<and>
     (\<forall>a c. claim t = Some (a, c) \<longrightarrow> a < next_account k \<and>
        (\<forall>o' ns. bm_get (tables k) o' = Some ns \<and> ns_budget ns = a \<longrightarrow> claim_ok t o' ns)) \<and>
     (case t of TEsc s \<Rightarrow> se_active s \<longrightarrow> se_retired s = None | _ \<Rightarrow> True)"

definition marks_ok :: "token multiset \<Rightarrow> bool" where
  "marks_ok T \<longleftrightarrow> (\<forall>x. count (all_marks T) x \<le> 1) \<and>
     (\<forall>a c. Inl a \<in># all_marks T \<longrightarrow> Inr (a, c) \<notin># all_marks T)"

definition cap_inv :: "cap_policy \<Rightarrow> capabilities \<Rightarrow> token multiset \<Rightarrow> bool" where
  "cap_inv p k T \<longleftrightarrow> accounts_ok p k (outstanding k T) \<and> tables_ok k \<and> (\<forall>t \<in># T. token_ok k t) \<and> marks_ok T"

section \<open>Counting entries\<close>

lemma mset_ins_entry: "k \<notin> fst ` set es \<Longrightarrow> mset (map snd (ins_entry k v es)) = add_mset v (mset (map snd es))"
  by (induction k v es rule: ins_entry.induct) auto

lemma bm_values_insert: "bm_get m k = None \<Longrightarrow> mset (bm_values (bm_insert k v m)) = add_mset v (mset (bm_values m))"
  using mset_ins_entry [of k "bm_entries m" v] by (simp add: bm_values_def bm_get_def map_of_eq_None_iff)

lemma bm_insert_remove: "bm_insert k v (bm_remove k m) = bm_insert k v m"
  by (rule bmap_eqI) simp

lemma bm_insert_same: "bm_get m k = Some v \<Longrightarrow> bm_insert k v m = m"
  by (rule bmap_eqI) (simp add: fun_upd_idem)

lemma bm_values_split:
  assumes "bm_get m k = Some v"
  shows "mset (bm_values m) = add_mset v (mset (bm_values (bm_remove k m)))"
  using bm_values_insert [of "bm_remove k m" k v] assms by (simp add: bm_insert_remove bm_insert_same)

lemma bm_values_update:
  "mset (bm_values (bm_insert k v m)) = add_mset v (mset (bm_values (bm_remove k m)))"
  using bm_values_insert [of "bm_remove k m" k v] by (simp add: bm_insert_remove)

lemma table_charges_insert:
  assumes "bm_get (tables k) o' = None"
  shows "table_charges (k\<lparr>tables := bm_insert o' ns (tables k)\<rparr>) = ncharges ns + table_charges k"
  using assms by (simp add: table_charges_def bm_values_insert)

lemma table_charges_remove:
  assumes "bm_get (tables k) o' = Some ns"
  shows "table_charges k = ncharges ns + table_charges (k\<lparr>tables := bm_remove o' (tables k)\<rparr>)"
  using assms by (simp add: table_charges_def bm_values_split)

lemma table_charges_update:
  assumes "bm_get (tables k) o' = Some ns"
  shows "table_charges (k\<lparr>tables := bm_insert o' ns' (tables k)\<rparr>) + ncharges ns = table_charges k + ncharges ns'"
  using table_charges_remove [OF assms] table_charges_insert [of "k\<lparr>tables := bm_remove o' (tables k)\<rparr>" o' ns']
  by (simp add: bm_insert_remove ac_simps)

lemma table_charges_cong [simp]:
  "table_charges (k\<lparr>accounts := x\<rparr>) = table_charges k" "table_charges (k\<lparr>next_account := n\<rparr>) = table_charges k"
  "table_charges (k\<lparr>node := b\<rparr>) = table_charges k"
  by (simp_all add: table_charges_def)

lemma ncharges_flags [simp]:
  "ncharges (ns\<lparr>address_space := i\<rparr>) = ncharges ns" "ncharges (ns\<lparr>ns_platform := b\<rparr>) = ncharges ns"
  "ncharges (ns\<lparr>next_serial := s\<rparr>) = ncharges ns"
  by (simp_all add: ncharges_def)

lemma ncharges_set_state [simp]: "ncharges (set_state cap s ns) = ncharges ns"
  by (auto simp: ncharges_def set_state_def bm_values_update bm_values_split split: option.split)

lemma ncharges_drop_entry:
  "bm_get (ns_objects ns) cap = Some e \<Longrightarrow> ncharges ns = add_mset (en_charge e) (ncharges (drop_entry cap ns))"
  by (simp add: ncharges_def drop_entry_def bm_values_split)

lemma ncharges_insert:
  "bm_get (ns_objects ns) cap = None \<Longrightarrow>
    ncharges (ns\<lparr>ns_objects := bm_insert cap e (ns_objects ns)\<rparr>) = add_mset (en_charge e) (ncharges ns)"
  by (simp add: ncharges_def bm_values_insert)

lemma ncharges_empty [simp]: "ns_objects ns = bm_empty \<Longrightarrow> ncharges ns = {#}"
  by (simp add: ncharges_def bm_values_def)

section \<open>Admission is exact\<close>

lemma budget_reserve:
  assumes "budget_ok l n b" "cb_reserve b () = (Inr (), b')"
  shows "budget_ok l (Suc n) b'"
  using assms unat_u64_less [of l] by (auto simp: cb_reserve_ok_iff budget_ok_def unat_word_ariths)

lemma budget_release:
  assumes "budget_ok l (Suc n) b"
  obtains b' where "cb_release b () = (Inr (), b')" "budget_ok l n b'"
proof -
  have "cb_release b () = (Inr (), b\<lparr>cb_used := cb_used b - 1\<rparr>)"
    using assms by (simp add: cb_release_ok_iff budget_ok_def)
  moreover have "budget_ok l n (b\<lparr>cb_used := cb_used b - 1\<rparr>)"
    using assms by (simp add: budget_ok_def unat_sub word_le_nat_alt)
  ultimately show thesis by (rule that)
qed

lemma node_reserve_ok:
  assumes "budget_ok l n (nb_total b)" "budget_ok l' m (nb_ordinary b)"
  obtains r b' where "node_reserve platform b = Some (r, b')"
    "budget_ok l (case r of Inl _ \<Rightarrow> n | Inr _ \<Rightarrow> Suc n) (nb_total b')"
    "budget_ok l' (case r of Inl _ \<Rightarrow> m | Inr _ \<Rightarrow> if platform then m else Suc m) (nb_ordinary b')"
proof (cases "cb_reserve (nb_total b) ()")
  case (Pair r t)
  show thesis
  proof (cases r)
    case (Inl e)
    with Pair assms that show thesis by (simp add: node_reserve_def)
  next
    case total: (Inr u)
    with Pair assms(1) have t: "budget_ok l (Suc n) t" by (simp add: budget_reserve)
    obtain ro o' where o: "cb_reserve (nb_ordinary b) () = (ro, o')" by (cases "cb_reserve (nb_ordinary b) ()")
    obtain t' where t': "cb_release t () = (Inr (), t')" "budget_ok l n t'" by (rule budget_release [OF t])
    show thesis
    proof (cases platform)
      case True
      with Pair total t assms(2) show thesis
        by (intro that [of "Inr ()" "b\<lparr>nb_total := t\<rparr>"]) (simp_all add: node_reserve_def)
    next
      case ordinary: False
      show thesis
      proof (cases ro)
        case (Inl e)
        with Pair total o t' ordinary assms(2) show thesis
          by (intro that [of "Inl ResourceLimit" "b\<lparr>nb_total := t'\<rparr>"]) (simp_all add: node_reserve_def)
      next
        case (Inr v)
        with budget_reserve [OF assms(2)] o have "budget_ok l' (Suc m) o'" by simp
        with Pair total o Inr t ordinary show thesis
          by (intro that [of "Inr ()" "b\<lparr>nb_total := t, nb_ordinary := o'\<rparr>"]) (simp_all add: node_reserve_def)
      qed
    qed
  qed
qed

lemma node_release_ok:
  assumes "budget_ok l (Suc n) (nb_total b)" "budget_ok l' (if platform then m else Suc m) (nb_ordinary b)"
  obtains b' where "node_release platform b = Some b'" "budget_ok l n (nb_total b')" "budget_ok l' m (nb_ordinary b')"
proof -
  obtain t where t: "cb_release (nb_total b) () = (Inr (), t)" "budget_ok l n t" by (rule budget_release [OF assms(1)])
  show thesis
  proof (cases platform)
    case True
    with t assms(2) that show thesis by (simp add: node_release_def)
  next
    case False
    with assms(2) have "budget_ok l' (Suc m) (nb_ordinary b)" by simp
    then obtain o' where "cb_release (nb_ordinary b) () = (Inr (), o')" "budget_ok l' m o'" by (rule budget_release)
    with t False that show thesis by (simp add: node_release_def)
  qed
qed

text \<open>What charging and refunding leave alone.\<close>

definition same_tables :: "capabilities \<Rightarrow> capabilities \<Rightarrow> bool" where
  "same_tables k k' \<longleftrightarrow> tables k' = tables k \<and> next_account k' = next_account k \<and> accepting k' = accepting k"

lemma accepting_used:
  "bm_get (accounts k) a = Some ac \<Longrightarrow>
    accepting (k\<lparr>accounts := bm_insert a (ac\<lparr>ac_used := u\<rparr>) (accounts k), node := b\<rparr>) = accepting k"
  by (auto simp: accepting_def fun_eq_iff split: option.split)

lemma accounts_ok_upd:
  assumes "accounts_ok p k C" "bm_get (accounts k) a = Some ac"
    and "budget_ok (domain_limit p) (size {#c \<in># C'. ch_domain c = a#}) u"
    and "budget_ok (node_limit p) (size C') (nb_total b)"
    and "budget_ok (ordinary_limit p) (size {#c \<in># C'. \<not> ch_platform c#}) (nb_ordinary b)"
    and "\<And>d. d \<noteq> a \<Longrightarrow> {#c \<in># C'. ch_domain c = d#} = {#c \<in># C. ch_domain c = d#}"
    and "set_mset C' \<subseteq> insert \<lparr>ch_domain = a, ch_platform = x\<rparr> (set_mset C)"
  shows "accounts_ok p (k\<lparr>accounts := bm_insert a (ac\<lparr>ac_used := u\<rparr>) (accounts k), node := b\<rparr>) C'"
proof -
  have dom: "dom (bm_get (accounts k)) = {..<next_account k}" using assms(1) by (simp add: accounts_ok_def)
  have a: "a < next_account k" using assms(2) dom by (metis domI lessThan_iff)
  have "ch_domain c < next_account k" if "c \<in># C'" for c
    using assms(1) a subsetD [OF assms(7) that] by (auto simp: accounts_ok_def)
  moreover have "budget_ok (domain_limit p) (size {#c \<in># C'. ch_domain c = d#}) (ac_used ac')"
    if "bm_get (bm_insert a (ac\<lparr>ac_used := u\<rparr>) (accounts k)) d = Some ac'" for d ac'
    using that assms(1,3,6) by (cases "d = a") (auto simp: accounts_ok_def)
  ultimately show ?thesis using assms(4,5) dom a by (simp add: accounts_ok_def insert_absorb)
qed

lemma accounts_ok_account:
  assumes "accounts_ok p k C" "a < next_account k"
  obtains ac where "bm_get (accounts k) a = Some ac"
    "budget_ok (domain_limit p) (size {#c \<in># C. ch_domain c = a#}) (ac_used ac)"
proof -
  have "a \<in> dom (bm_get (accounts k))" using assms by (simp add: accounts_ok_def)
  then obtain ac where "bm_get (accounts k) a = Some ac" by blast
  with assms(1) that show thesis by (simp add: accounts_ok_def)
qed

lemma charge_reserve_ok:
  assumes "accounts_ok p k C" "a < next_account k"
  obtains r k' where "charge_reserve a platform k = Some (r, k')" "same_tables k k'"
    "case r of Inl _ \<Rightarrow> accounts_ok p k' C
     | Inr c \<Rightarrow> c = \<lparr>ch_domain = a, ch_platform = platform\<rparr> \<and> accounts_ok p k' (add_mset c C) \<and> accepting k a"
proof -
  let ?c = "\<lparr>ch_domain = a, ch_platform = platform\<rparr>"
  obtain ac where ac: "bm_get (accounts k) a = Some ac"
    and u: "budget_ok (domain_limit p) (size {#c \<in># C. ch_domain c = a#}) (ac_used ac)"
    by (rule accounts_ok_account [OF assms])
  have n: "budget_ok (node_limit p) (size C) (nb_total (node k))"
      "budget_ok (ordinary_limit p) (size {#c \<in># C. \<not> ch_platform c#}) (nb_ordinary (node k))"
    using assms(1) by (simp_all add: accounts_ok_def)
  obtain ru us where us: "cb_reserve (ac_used ac) () = (ru, us)" by (cases "cb_reserve (ac_used ac) ()")
  show thesis
  proof (cases "ac_retired ac \<or> (\<exists>e. ru = Inl e)")
    case True
    then have "\<exists>e. charge_reserve a platform k = Some (Inl e, k)" using ac us by (auto simp: charge_reserve_def)
    with that assms(1) show thesis by (auto simp: same_tables_def)
  next
    case False
    then have ok: "\<not> ac_retired ac" "ru = Inr ()" by (cases ru; auto)+
    with us u have us1: "budget_ok (domain_limit p) (Suc (size {#c \<in># C. ch_domain c = a#})) us" by (simp add: budget_reserve)
    obtain r nb where nb: "node_reserve platform (node k) = Some (r, nb)"
      "budget_ok (node_limit p) (case r of Inl _ \<Rightarrow> size C | Inr _ \<Rightarrow> Suc (size C)) (nb_total nb)"
      "budget_ok (ordinary_limit p) (case r of Inl _ \<Rightarrow> size {#c \<in># C. \<not> ch_platform c#}
         | Inr _ \<Rightarrow> if platform then size {#c \<in># C. \<not> ch_platform c#} else Suc (size {#c \<in># C. \<not> ch_platform c#})) (nb_ordinary nb)"
      by (rule node_reserve_ok [OF n])
    show thesis
    proof (cases r)
      case (Inl e)
      obtain us' where us': "cb_release us () = (Inr (), us')" "budget_ok (domain_limit p) (size {#c \<in># C. ch_domain c = a#}) us'"
        by (rule budget_release [OF us1])
      let ?k = "k\<lparr>accounts := bm_insert a (ac\<lparr>ac_used := us'\<rparr>) (accounts k), node := nb\<rparr>"
      have "charge_reserve a platform k = Some (Inl e, ?k)"
        using ac us ok nb(1) us'(1) Inl by (simp add: charge_reserve_def)
      moreover have "accounts_ok p ?k C"
        by (rule accounts_ok_upd [OF assms(1) ac us'(2)]) (use nb(2,3) Inl in auto)
      ultimately show thesis using that accepting_used [OF ac, of nb us'] by (simp add: same_tables_def)
    next
      case (Inr v)
      let ?k = "k\<lparr>accounts := bm_insert a (ac\<lparr>ac_used := us\<rparr>) (accounts k), node := nb\<rparr>"
      have "charge_reserve a platform k = Some (Inr ?c, ?k)"
        using ac us ok nb(1) Inr by (simp add: charge_reserve_def)
      moreover have "accounts_ok p ?k (add_mset ?c C)"
        by (rule accounts_ok_upd [OF assms(1) ac, where x = platform]) (use us1 nb(2,3) Inr in auto)
      moreover have "accepting k a" using ac ok(1) by (simp add: accepting_def)
      ultimately show thesis using that accepting_used [OF ac, of nb us] by (simp add: same_tables_def)
    qed
  qed
qed

lemma charge_drop_ok:
  assumes "accounts_ok p k (add_mset c C)"
  obtains k' where "charge_drop c k = Some k'" "same_tables k k'" "accounts_ok p k' C"
proof -
  let ?a = "ch_domain c"
  have "?a < next_account k" using assms by (simp add: accounts_ok_def)
  then obtain ac where ac: "bm_get (accounts k) ?a = Some ac"
    and "budget_ok (domain_limit p) (size {#d \<in># add_mset c C. ch_domain d = ?a#}) (ac_used ac)"
    by (rule accounts_ok_account [OF assms])
  then have "budget_ok (domain_limit p) (Suc (size {#d \<in># C. ch_domain d = ?a#})) (ac_used ac)" by simp
  then obtain us where us: "cb_release (ac_used ac) () = (Inr (), us)"
    "budget_ok (domain_limit p) (size {#d \<in># C. ch_domain d = ?a#}) us" by (rule budget_release)
  have "budget_ok (node_limit p) (Suc (size C)) (nb_total (node k))"
    "budget_ok (ordinary_limit p) (if ch_platform c then size {#d \<in># C. \<not> ch_platform d#}
       else Suc (size {#d \<in># C. \<not> ch_platform d#})) (nb_ordinary (node k))"
    using assms by (auto simp: accounts_ok_def)
  then obtain nb where nb: "node_release (ch_platform c) (node k) = Some nb"
    "budget_ok (node_limit p) (size C) (nb_total nb)"
    "budget_ok (ordinary_limit p) (size {#d \<in># C. \<not> ch_platform d#}) (nb_ordinary nb)" by (rule node_release_ok)
  let ?k = "k\<lparr>accounts := bm_insert ?a (ac\<lparr>ac_used := us\<rparr>) (accounts k), node := nb\<rparr>"
  have "charge_drop c k = Some ?k" using ac us(1) nb(1) by (simp add: charge_drop_def)
  moreover have "accounts_ok p ?k C"
    by (rule accounts_ok_upd [OF assms ac us(2) nb(2,3)]) auto
  ultimately show thesis using that accepting_used [OF ac, of nb us] by (simp add: same_tables_def)
qed

section \<open>Small steps\<close>

text \<open>Tokens that only continue what others held.\<close>

definition inherits :: "token multiset \<Rightarrow> token multiset \<Rightarrow> bool" where
  "inherits A B \<longleftrightarrow> all_marks B \<subseteq># all_marks A \<and>
     (\<forall>t \<in># B. (\<forall>ns. pending_ns t = Some ns \<longrightarrow> (\<exists>u \<in># A. pending_ns u = Some ns)) \<and> (claim t \<noteq> None \<longrightarrow> t \<in># A))"

abbreviation token_charges :: "token multiset \<Rightarrow> cap_charge multiset" where
  "token_charges T \<equiv> (\<Sum>t\<in>#T. tcharges t)"

text \<open>The entry that an active token speaks for, in the namespace it was made in.\<close>

definition speaks_for :: "capabilities \<Rightarrow> asid \<Rightarrow> account_ref \<Rightarrow> object_capability \<Rightarrow> cap_entry \<Rightarrow> namespace \<Rightarrow> bool" where
  "speaks_for k o' a cap e ns \<longleftrightarrow>
     bm_get (tables k) o' = Some ns \<and> ns_budget ns = a \<and> bm_get (ns_objects ns) cap = Some e"

inductive micro :: "cap_policy \<Rightarrow> capabilities \<times> token multiset \<Rightarrow> capabilities \<times> token multiset \<Rightarrow> bool" for p where
  reshape: "token_charges B = token_charges A \<Longrightarrow> inherits A B \<Longrightarrow> micro p (k, A + T) (k, B + T)"
| fresh: "account_new p k = (a, k') \<Longrightarrow> micro p (k, T) (k', add_mset (TNs (namespace_new a)) T)"
| enter: "pending_ns t = Some ns \<Longrightarrow> bm_get (tables k) o' = None \<Longrightarrow>
    token_charges B = tcharges t \<Longrightarrow> inherits {#} B \<Longrightarrow>
    micro p (k, add_mset t T) (k\<lparr>tables := bm_insert o' (ns\<lparr>address_space := i\<rparr>) (tables k)\<rparr>, B + T)"
| platform: "micro p (k, T) (update_table o' (\<lambda>t. t\<lparr>ns_platform := True\<rparr>) k, T)"
| fence: "micro p (k, T) (account_retire a k, T)"
| charged: "charge_reserve a pl k = Some (Inr c, k') \<Longrightarrow> pr_charge q = None \<Longrightarrow>
    micro p (k, add_mset (TPrep q) T) (k', add_mset (TPrep (q\<lparr>pr_charge := Some c\<rparr>)) T)"
| refused: "charge_reserve a pl k = Some (Inl e, k') \<Longrightarrow> micro p (k, T) (k', T)"
| admit: "pr_charge q = Some c \<Longrightarrow> bm_get (tables k) o' = Some ns \<Longrightarrow> claim_generation (next_serial ns) = Some (cap, nxt) \<Longrightarrow>
    micro p (k, add_mset (TPrep q) T)
      (k\<lparr>tables := bm_insert o' (ns\<lparr>next_serial := nxt,
          ns_objects := bm_insert cap \<lparr>en_kind = kind, en_state = Staged, en_charge = c\<rparr> (ns_objects ns)\<rparr>) (tables k)\<rparr>,
       {#TPrep (q\<lparr>pr_node := False, pr_charge := None\<rparr>),
         TRes \<lparr>rs_owner = o', rs_cap = cap, rs_kind = kind, rs_namespace = ns_budget ns, rs_active = True\<rparr>#} + T)"
| published: "rs_active r \<Longrightarrow> speaks_for k (rs_owner r) (rs_namespace r) (rs_cap r) e ns \<Longrightarrow>
    micro p (k, add_mset (TRes r) T)
      (update_table (rs_owner r) (set_state (rs_cap r) Live) k, add_mset (TRes (r\<lparr>rs_active := False\<rparr>)) T)"
| discarded: "rs_active r \<Longrightarrow> speaks_for k (rs_owner r) (rs_namespace r) (rs_cap r) e ns \<Longrightarrow>
    micro p (k, add_mset (TRes r) T) (update_table (rs_owner r) (drop_entry (rs_cap r)) k, add_mset (TRet e) T)"
| escrowed: "speaks_for k o' a cap e ns \<Longrightarrow> en_state e = Live \<Longrightarrow>
    micro p (k, T) (update_table o' (set_state cap Escrow) k,
      add_mset (TEsc \<lparr>se_retired = None, se_owner = o', se_cap = cap, se_kind = en_kind e, se_namespace = a, se_active = True\<rparr>) T)"
| restored: "se_active s \<Longrightarrow> speaks_for k (se_owner s) (se_namespace s) (se_cap s) e ns \<Longrightarrow>
    micro p (k, add_mset (TEsc s) T)
      (update_table (se_owner s) (set_state (se_cap s) Live) k, add_mset (TEsc (s\<lparr>se_active := False\<rparr>)) T)"
| revoked: "se_active s \<Longrightarrow> speaks_for k (se_owner s) (se_namespace s) (se_cap s) e ns \<Longrightarrow>
    micro p (k, add_mset (TEsc s) T)
      (update_table (se_owner s) (drop_entry (se_cap s)) k, add_mset (TEsc (s\<lparr>se_retired := Some e, se_active := False\<rparr>)) T)"
| retired: "speaks_for k o' a cap e ns \<Longrightarrow> en_state e \<noteq> Staged \<Longrightarrow>
    micro p (k, T) (update_table o' (drop_entry cap) k, add_mset (TRet e) T)"
| refunded: "charge_drop c k = Some k' \<Longrightarrow> tcharges t = add_mset c (token_charges B) \<Longrightarrow> inherits {#t#} B \<Longrightarrow>
    micro p (k, add_mset t T) (k', B + T)"
| detached: "bm_get (tables k) o' = Some ns \<Longrightarrow>
    micro p (k, T) (k\<lparr>tables := bm_remove o' (tables k)\<rparr>, add_mset (TRetNs ns) T)"

section \<open>Small steps keep the invariant\<close>

lemma claim_marks: "Inr x \<in># all_marks T \<longleftrightarrow> (\<exists>t \<in># T. claim t = Some x)"
  by (induction T) (auto simp: marks_def split: option.splits)

lemma pending_marks: "Inl a \<in># all_marks T \<longleftrightarrow> (\<exists>t \<in># T. \<exists>ns. pending_ns t = Some ns \<and> ns_budget ns = a)"
  by (induction T) (auto simp: marks_def split: option.splits)

lemma marks_ok_mono: "marks_ok T \<Longrightarrow> all_marks U \<subseteq># all_marks T \<Longrightarrow> marks_ok U"
  unfolding marks_ok_def
  by (meson mset_subset_eqD mset_subset_eq_count order_trans)

lemma marks_ok_claim:
  assumes "marks_ok (add_mset t T)" "claim t = Some x" "u \<in># T"
  shows "claim u \<noteq> Some x"
proof
  assume "claim u = Some x"
  with assms(3) have "Inr x \<in># all_marks T" using claim_marks [of x T] by blast
  then have a: "0 < count (all_marks T) (Inr x)" by (simp only: count_greater_zero_iff)
  have "count (all_marks (add_mset t T)) (Inr x) \<le> 1" using assms(1) unfolding marks_ok_def by blast
  then have b: "count (marks t) (Inr x) + count (all_marks T) (Inr x) \<le> 1" by simp
  have "Inr x \<in># marks t" using assms(2) by (auto simp: marks_def split: option.splits)
  then have "0 < count (marks t) (Inr x)" by (simp only: count_greater_zero_iff)
  with a b show False by linarith
qed

lemma token_claim:
  "token_ok k u \<Longrightarrow> claim u = Some (a, c) \<Longrightarrow> bm_get (tables k) o' = Some ns \<Longrightarrow> ns_budget ns = a \<Longrightarrow> claim_ok u o' ns"
  by (simp add: token_ok_def)

lemma token_fresh: "token_ok k u \<Longrightarrow> pending_ns u = Some ns \<Longrightarrow> fresh_ns k ns"
  by (simp add: token_ok_def)

lemma tables_ok_get:
  assumes "tables_ok k" "bm_get (tables k) o' = Some ns"
  shows "namespace_ok ns" "ns_budget ns < next_account k"
  using assms unfolding tables_ok_def by blast+

lemma tables_ok_unique:
  "tables_ok k \<Longrightarrow> bm_get (tables k) o1 = Some n1 \<Longrightarrow> bm_get (tables k) o2 = Some n2 \<Longrightarrow> ns_budget n1 = ns_budget n2 \<Longrightarrow> o1 = o2"
  unfolding tables_ok_def by blast

lemma marks_ok_inert: "pending_ns t = None \<Longrightarrow> claim t = None \<Longrightarrow> marks_ok (add_mset t T) = marks_ok T"
  by (simp add: marks_ok_def marks_def)

lemma token_okI:
  assumes "pending_ns t = None" "claim t = Some (a, c)" "a < next_account k"
    and "\<And>o' ns. bm_get (tables k) o' = Some ns \<Longrightarrow> ns_budget ns = a \<Longrightarrow> claim_ok t o' ns"
    and "\<And>s. t = TEsc s \<Longrightarrow> se_retired s = None"
  shows "token_ok k t"
  unfolding token_ok_def using assms by (auto split: token.split)

lemma fresh_ns_other: "fresh_ns k n \<Longrightarrow> bm_get (tables k) o' = Some ns \<Longrightarrow> ns_budget ns \<noteq> ns_budget n"
  unfolding fresh_ns_def by blast

lemma marks_ok_add_claim:
  assumes "marks_ok T" "pending_ns t = None" "claim t = Some (a, c)"
    and "\<And>u. u \<in># T \<Longrightarrow> claim u \<noteq> Some (a, c)"
    and "\<And>u ns. u \<in># T \<Longrightarrow> pending_ns u = Some ns \<Longrightarrow> ns_budget ns \<noteq> a"
  shows "marks_ok (add_mset t T)"
proof -
  have m: "all_marks (add_mset t T) = add_mset (Inr (a, c)) (all_marks T)" by (simp add: marks_def assms(2,3))
  have "Inr (a, c) \<notin># all_marks T" "Inl a \<notin># all_marks T"
    using assms(4,5) claim_marks [of "(a, c)" T] pending_marks [of a T] by blast+
  then have "count (all_marks T) (Inr (a, c)) = 0" "Inl a \<notin># all_marks T" by (simp_all only: not_in_iff)
  with assms(1) show ?thesis unfolding marks_ok_def m by auto
qed

lemma marks_ok_add_pending:
  assumes "marks_ok T" "pending_ns t = Some ns" "claim t = None"
    and "\<And>u c. u \<in># T \<Longrightarrow> claim u \<noteq> Some (ns_budget ns, c)"
    and "\<And>u n. u \<in># T \<Longrightarrow> pending_ns u = Some n \<Longrightarrow> ns_budget n \<noteq> ns_budget ns"
  shows "marks_ok (add_mset t T)"
proof -
  have m: "all_marks (add_mset t T) = add_mset (Inl (ns_budget ns)) (all_marks T)" by (simp add: marks_def assms(2,3))
  have "Inr (ns_budget ns, c) \<notin># all_marks T" "Inl (ns_budget ns) \<notin># all_marks T" for c
    using assms(4,5) claim_marks [of "(ns_budget ns, c)" T] pending_marks [of "ns_budget ns" T] by blast+
  then have "Inr (ns_budget ns, c) \<notin># all_marks T" "count (all_marks T) (Inl (ns_budget ns)) = 0" for c
    by (simp_all only: not_in_iff)
  with assms(1) show ?thesis unfolding marks_ok_def m by auto
qed

lemma inherits_tokens:
  assumes "inherits A B" "\<forall>t \<in># A. token_ok k t" "t \<in># B"
  shows "token_ok k t"
proof (cases "claim t")
  case None
  have "fresh_ns k ns" if "pending_ns t = Some ns" for ns
    using assms that by (fastforce simp: inherits_def token_ok_def)
  with None show ?thesis by (cases t) (auto simp: token_ok_def split: if_splits)
next
  case (Some c)
  with assms show ?thesis by (auto simp: inherits_def)
qed

lemma inherits_marks:
  assumes "inherits A B" "marks_ok (A + T)"
  shows "marks_ok (B + T)"
  by (rule marks_ok_mono [OF assms(2)]) (use assms(1) in \<open>simp add: inherits_def\<close>)

lemma same_tables_ok:
  assumes "same_tables k k'"
  shows "tables_ok k' = tables_ok k" "token_ok k' t = token_ok k t" "table_charges k' = table_charges k"
  using assms by (simp_all add: same_tables_def tables_ok_def token_ok_def fresh_ns_def table_charges_def)

text \<open>A change of one entry disturbs no token that speaks for another.\<close>

lemma token_ok_touch:
  assumes "token_ok k t" "tables_ok k" "bm_get (tables k) o' = Some ns"
    and "ns_budget ns' = ns_budget ns" "next_serial ns \<le> next_serial ns'"
    and "\<And>c. c \<noteq> cap \<Longrightarrow> bm_get (ns_objects ns') c = bm_get (ns_objects ns) c"
    and "claim t \<noteq> Some (ns_budget ns, cap)"
  shows "token_ok (k\<lparr>tables := bm_insert o' ns' (tables k)\<rparr>) t"
proof -
  let ?k = "k\<lparr>tables := bm_insert o' ns' (tables k)\<rparr>"
  have "fresh_ns ?k n" if "pending_ns t = Some n" for n
    using assms(1,3,4) that by (auto simp: token_ok_def fresh_ns_def)
  moreover have "claim_ok t o1 n1" if c: "claim t = Some (a, c)" and n1: "bm_get (tables ?k) o1 = Some n1" "ns_budget n1 = a" for a c o1 n1
  proof (cases "o1 = o'")
    case True
    with n1 assms(4) have "n1 = ns'" "ns_budget ns = a" by auto
    moreover have "claim_ok t o' ns" using assms(1,3) c calculation(2) by (auto simp: token_ok_def)
    moreover have "c \<noteq> cap" using assms(7) c calculation(2) by auto
    ultimately show ?thesis using True assms(5) assms(6) [of c] c by (cases t) (auto split: if_splits)
  next
    case False
    with n1 assms(1) c show ?thesis by (auto simp: token_ok_def)
  qed
  moreover have "a < next_account k" if "claim t = Some (a, c)" for a c
    using assms(1) that by (auto simp: token_ok_def)
  ultimately show ?thesis using assms(1) by (auto simp: token_ok_def split: token.splits)
qed

lemma tables_ok_touch:
  assumes "tables_ok k" "bm_get (tables k) o' = Some ns" "ns_budget ns' = ns_budget ns" "namespace_ok ns'"
  shows "tables_ok (k\<lparr>tables := bm_insert o' ns' (tables k)\<rparr>)"
  using assms unfolding tables_ok_def by (auto split: if_splits)

lemma mset_exchange:
  fixes a b :: "'a multiset"
  assumes "a + n = b + n'" "n' + y = n + x"
  shows "a + y = b + x"
proof -
  have "(a + n) + (n' + y) = (b + n') + (n + x)" using assms by simp
  then have "(a + y) + (n + n') = (b + x) + (n + n')" by (simp add: ac_simps)
  then show ?thesis by simp
qed

lemma cap_inv_parts:
  assumes "cap_inv p k T"
  shows "accounts_ok p k (outstanding k T)" "tables_ok k" "\<forall>t \<in># T. token_ok k t" "marks_ok T"
  using assms by (simp_all add: cap_inv_def)

lemma namespace_ok_set_state: "namespace_ok ns \<Longrightarrow> namespace_ok (set_state cap s ns)"
  by (auto simp: namespace_ok_def set_state_def split: option.splits if_splits)

lemma namespace_ok_drop_entry: "namespace_ok ns \<Longrightarrow> namespace_ok (drop_entry cap ns)"
  by (auto simp: namespace_ok_def drop_entry_def split: if_splits)

lemma set_state_fields [simp]:
  "ns_budget (set_state cap s ns) = ns_budget ns" "next_serial (set_state cap s ns) = next_serial ns"
  "address_space (set_state cap s ns) = address_space ns" "ns_platform (set_state cap s ns) = ns_platform ns"
  "c \<noteq> cap \<Longrightarrow> bm_get (ns_objects (set_state cap s ns)) c = bm_get (ns_objects ns) c"
  "bm_get (ns_objects (set_state cap s ns)) cap = map_option (\<lambda>e. e\<lparr>en_state := s\<rparr>) (bm_get (ns_objects ns) cap)"
  by (auto simp: set_state_def split: option.split)

lemma drop_entry_fields [simp]:
  "ns_budget (drop_entry cap ns) = ns_budget ns" "next_serial (drop_entry cap ns) = next_serial ns"
  "address_space (drop_entry cap ns) = address_space ns" "ns_platform (drop_entry cap ns) = ns_platform ns"
  "bm_get (ns_objects (drop_entry cap ns)) = (bm_get (ns_objects ns))(cap := None)"
  by (simp_all add: drop_entry_def)

text \<open>
  The common part of the steps on one entry: the tokens \<open>A\<close> that may speak for it are replaced
  by \<open>B\<close>, the others are left alone.
\<close>

lemma touch_inv:
  assumes inv: "cap_inv p k (A + T)" and sp: "bm_get (tables k) o' = Some ns"
    and ns': "ns_budget ns' = ns_budget ns" "next_serial ns \<le> next_serial ns'" "namespace_ok ns'"
      "\<And>c. c \<noteq> cap \<Longrightarrow> bm_get (ns_objects ns') c = bm_get (ns_objects ns) c"
    and others: "\<And>t. t \<in># T \<Longrightarrow> claim t = Some (ns_budget ns, cap) \<Longrightarrow> token_ok (k\<lparr>tables := bm_insert o' ns' (tables k)\<rparr>) t"
    and B: "\<forall>t \<in># B. token_ok (k\<lparr>tables := bm_insert o' ns' (tables k)\<rparr>) t" "marks_ok (B + T)"
    and ch: "ncharges ns' + token_charges B = ncharges ns + token_charges A"
  shows "cap_inv p (k\<lparr>tables := bm_insert o' ns' (tables k)\<rparr>) (B + T)"
proof -
  let ?k = "k\<lparr>tables := bm_insert o' ns' (tables k)\<rparr>"
  note i = cap_inv_parts [OF inv]
  have "token_ok ?k t" if "t \<in># T" for t
  proof (cases "claim t = Some (ns_budget ns, cap)")
    case True
    with others that show ?thesis by blast
  next
    case False
    show ?thesis by (rule token_ok_touch [OF _ i(2) sp ns'(1) _ ns'(4) False]) (use i(3) that ns'(2) in auto)
  qed
  moreover have "outstanding ?k (B + T) = outstanding k (A + T)"
    using mset_exchange [OF table_charges_update [OF sp] ch] by (simp add: outstanding_def flip: add.assoc)
  ultimately show ?thesis
    using i(1) tables_ok_touch [OF i(2) sp ns'(1,3)] B by (auto simp: cap_inv_def accounts_ok_def)
qed

lemma speaks_tables:
  assumes "speaks_for k o' a cap e ns"
  shows "bm_get (tables k) o' = Some ns" "ns_budget ns = a" "bm_get (ns_objects ns) cap = Some e"
    "update_table o' f k = k\<lparr>tables := bm_insert o' (f ns) (tables k)\<rparr>"
  using assms by (simp_all add: speaks_for_def update_table_def)

lemma inert_token_ok: "pending_ns t = None \<Longrightarrow> claim t = None \<Longrightarrow> token_ok k t"
  by (cases t) (auto simp: token_ok_def split: if_splits)

lemma marks_inert [simp]: "pending_ns t = None \<Longrightarrow> claim t = None \<Longrightarrow> marks t = {#}"
  by (simp add: marks_def)

text \<open>A token gives up its entry: the entry becomes live or goes.\<close>

lemma spent_token_inv:
  assumes inv: "cap_inv p k (add_mset t T)" and cl: "claim t = Some (a, cap)" and sp: "speaks_for k o' a cap e ns"
    and f: "f = set_state cap Live \<and> tcharges u = tcharges t \<or> f = drop_entry cap \<and> tcharges u = add_mset (en_charge e) (tcharges t)"
    and u: "pending_ns u = None" "claim u = None"
  shows "cap_inv p (update_table o' f k) (add_mset u T)"
proof -
  note i = cap_inv_parts [OF inv] and s = speaks_tables [OF sp]
  note ok = tables_ok_get(1) [OF i(2) s(1)]
  have "cap_inv p (k\<lparr>tables := bm_insert o' (f ns) (tables k)\<rparr>) ({#u#} + T)"
  proof (rule touch_inv [where A = "{#t#}" and T = T and cap = cap and ns = ns])
    show "cap_inv p k ({#t#} + T)" using inv by simp
    show "marks_ok ({#u#} + T)" by (rule marks_ok_mono [OF i(4)]) (simp add: u)
    show "token_ok (k\<lparr>tables := bm_insert o' (f ns) (tables k)\<rparr>) t'"
      if "t' \<in># T" "claim t' = Some (ns_budget ns, cap)" for t'
      using marks_ok_claim [OF i(4) cl that(1)] that(2) s(2) by simp
    show "ncharges (f ns) + token_charges {#u#} = ncharges ns + token_charges {#t#}"
      using f ncharges_drop_entry [OF s(3)] by auto
  qed (use s(1) f ok inert_token_ok [OF u] in \<open>auto simp: namespace_ok_set_state namespace_ok_drop_entry\<close>)
  then show ?thesis by (simp add: s(4))
qed

lemma escrow_inv:
  assumes inv: "cap_inv p k T" and sp: "speaks_for k o' a cap e ns" and live: "en_state e = Live"
  defines "s \<equiv> \<lparr>se_retired = None, se_owner = o', se_cap = cap, se_kind = en_kind e, se_namespace = a, se_active = True\<rparr>"
  shows "cap_inv p (update_table o' (set_state cap Escrow) k) (add_mset (TEsc s) T)"
proof -
  note i = cap_inv_parts [OF inv] and t = speaks_tables [OF sp]
  note ok = tables_ok_get [OF i(2) t(1)]
  have none: "claim u \<noteq> Some (a, cap)" if "u \<in># T" for u
  proof
    assume c: "claim u = Some (a, cap)"
    have "token_ok k u" by (rule bspec [OF i(3) that])
    from token_claim [OF this c t(1,2)] have "claim_ok u o' ns" .
    with c t(3) live show False by (cases u) (auto split: if_splits)
  qed
  have marks: "marks_ok ({#TEsc s#} + T)"
  proof -
    have "ns_budget n \<noteq> a" if "u \<in># T" "pending_ns u = Some n" for u n
      using fresh_ns_other [OF token_fresh [OF _ that(2)] t(1)] i(3) that(1) t(2) by auto
    with none marks_ok_add_claim [OF i(4), of "TEsc s" a cap] show ?thesis by (simp add: s_def)
  qed
  let ?k = "k\<lparr>tables := bm_insert o' (set_state cap Escrow ns) (tables k)\<rparr>"
  have claims: "claim_ok (TEsc s) o1 n1" if n1: "bm_get (tables ?k) o1 = Some n1" "ns_budget n1 = a" for o1 n1
  proof -
    have "o1 = o'"
    proof (rule ccontr)
      assume "o1 \<noteq> o'"
      with n1 have "bm_get (tables k) o1 = Some n1" by simp
      with tables_ok_unique [OF i(2) this t(1)] t(2) n1(2) \<open>o1 \<noteq> o'\<close> show False by simp
    qed
    with n1 have "n1 = set_state cap Escrow ns" by simp
    moreover have "cap < next_serial ns" using ok(1) t(3) by (simp add: namespace_ok_def)
    ultimately show ?thesis using \<open>o1 = o'\<close> t(3) by (simp add: s_def)
  qed
  have tok: "token_ok ?k (TEsc s)"
    by (rule token_okI [where a = a and c = cap, OF _ _ _ claims]) (use ok(2) t(2) in \<open>simp_all add: s_def\<close>)
  have "cap_inv p ?k ({#TEsc s#} + T)"
  proof (rule touch_inv [where A = "{#}" and B = "{#TEsc s#}" and T = T and cap = cap and ns = ns and
      ns' = "set_state cap Escrow ns" and k = k and p = p])
    show "token_ok ?k u" if "u \<in># T" "claim u = Some (ns_budget ns, cap)" for u
      using that(2) none [OF that(1)] unfolding t(2) by (rule notE [rotated])
    show "marks_ok ({#TEsc s#} + T)" by (rule marks)
    show "ncharges (set_state cap Escrow ns) + token_charges {#TEsc s#} = ncharges ns + token_charges {#}"
      by (simp add: s_def charge_of_def)
    show "\<forall>u \<in># {#TEsc s#}. token_ok ?k u" using tok by simp
    show "cap_inv p k ({#} + T)" using inv by simp
  qed (use t(1) in \<open>simp_all add: namespace_ok_set_state ok(1)\<close>)
  then show ?thesis by (simp add: t(4))
qed

lemma retire_inv:
  assumes inv: "cap_inv p k T" and sp: "speaks_for k o' a cap e ns" and st: "en_state e \<noteq> Staged"
  shows "cap_inv p (update_table o' (drop_entry cap) k) (add_mset (TRet e) T)"
proof -
  note i = cap_inv_parts [OF inv] and t = speaks_tables [OF sp]
  note ok = tables_ok_get [OF i(2) t(1)]
  let ?k = "k\<lparr>tables := bm_insert o' (drop_entry cap ns) (tables k)\<rparr>"
  have uniq: "o1 = o'" if "bm_get (tables k) o1 = Some n" "ns_budget n = a" for o1 n
    using tables_ok_unique [OF i(2) that(1) t(1)] that(2) t(2) by simp
  have others: "token_ok ?k u" if u: "u \<in># T" "claim u = Some (ns_budget ns, cap)" for u
  proof -
    have c: "token_ok k u" by (rule bspec [OF i(3) u(1)])
    have cl: "claim_ok u o' ns" by (rule token_claim [OF c u(2) t(1) refl])
    obtain x where x: "u = TEsc x" "se_active x" "se_cap x = cap" "se_owner x = o'" "cap < next_serial ns"
      using cl u(2) t(3) st by (cases u) (auto split: if_splits)
    have claims: "claim_ok u o1 n1" if n1: "bm_get (tables ?k) o1 = Some n1" "ns_budget n1 = ns_budget ns" for o1 n1
    proof -
      have "o1 = o'" using uniq [of o1 n1] n1 t(2) by (cases "o1 = o'") auto
      then have "n1 = drop_entry cap ns" using n1(1) by simp
      with x \<open>o1 = o'\<close> show ?thesis by simp
    qed
    show ?thesis
      by (rule token_okI [OF _ u(2) _ claims]) (use c u(2) x(1,2) in \<open>auto simp: token_ok_def\<close>)
  qed
  have "cap_inv p ?k ({#TRet e#} + T)"
  proof (rule touch_inv [where A = "{#}" and B = "{#TRet e#}" and T = T and cap = cap and ns = ns and
      ns' = "drop_entry cap ns" and k = k and p = p])
    show "marks_ok ({#TRet e#} + T)" using i(4) by (simp add: marks_ok_inert)
    show "ncharges (drop_entry cap ns) + token_charges {#TRet e#} = ncharges ns + token_charges {#}"
      using ncharges_drop_entry [OF t(3)] by simp
    show "token_ok ?k u" if "u \<in># T" "claim u = Some (ns_budget ns, cap)" for u by (rule others [OF that])
    show "\<forall>u \<in># {#TRet e#}. token_ok ?k u" by (simp add: inert_token_ok)
  qed (use inv t(1) in \<open>simp_all add: namespace_ok_drop_entry ok\<close>)
  then show ?thesis by (simp add: t(4))
qed

text \<open>No token speaks for the identity that is minted next.\<close>

lemma claim_below_serial:
  assumes "token_ok k t" "tables_ok k" "bm_get (tables k) o' = Some ns" "claim t = Some (ns_budget ns, c)"
  shows "c < next_serial ns"
proof -
  have "claim_ok t o' ns" by (rule token_claim [OF assms(1,4,3) refl])
  with tables_ok_get(1) [OF assms(2,3)] assms(4) show ?thesis
    by (cases t) (auto simp: namespace_ok_def split: if_splits)
qed

lemma admit_inv:
  fixes kind :: object_kind
  assumes inv: "cap_inv p k (add_mset (TPrep q) T)" and q: "pr_charge q = Some c"
    and ns: "bm_get (tables k) o' = Some ns" and cl: "claim_generation (next_serial ns) = Some (cap, nxt)"
  defines "ns' \<equiv> ns\<lparr>next_serial := nxt,
      ns_objects := bm_insert cap \<lparr>en_kind = kind, en_state = Staged, en_charge = c\<rparr> (ns_objects ns)\<rparr>"
    and "r \<equiv> \<lparr>rs_owner = o', rs_cap = cap, rs_kind = kind, rs_namespace = ns_budget ns, rs_active = True\<rparr>"
    and "q' \<equiv> q\<lparr>pr_node := False, pr_charge := None\<rparr>"
  shows "cap_inv p (k\<lparr>tables := bm_insert o' ns' (tables k)\<rparr>) ({#TPrep q', TRes r#} + T)"
proof -
  let ?k = "k\<lparr>tables := bm_insert o' ns' (tables k)\<rparr>"
  note i = cap_inv_parts [OF inv]
  note ok = tables_ok_get [OF i(2) ns]
  have cap: "cap = next_serial ns" and less: "cap < nxt" using claim_generation_Some [OF cl] by (auto simp: word_less_nat_alt)
  have free: "bm_get (ns_objects ns) cap = None"
    using ok(1) cap by (cases "bm_get (ns_objects ns) cap") (auto simp: namespace_ok_def)
  have none: "claim u \<noteq> Some (ns_budget ns, cap)" if "u \<in># add_mset (TPrep q) T" for u
    using claim_below_serial [OF bspec [OF i(3) that] i(2) ns, of cap] cap by auto
  have nsok: "namespace_ok ns'"
    using ok(1) less cap by (auto simp: namespace_ok_def ns'_def intro: less_trans)
  have marks: "marks_ok ({#TPrep q', TRes r#} + T)"
  proof -
    have "marks_ok (add_mset (TPrep q') T)"
      by (rule marks_ok_mono [OF i(4)]) (simp add: q'_def marks_def)
    then have "marks_ok (add_mset (TRes r) (add_mset (TPrep q') T))"
    proof (rule marks_ok_add_claim)
      show "claim u \<noteq> Some (ns_budget ns, cap)" if "u \<in># add_mset (TPrep q') T" for u
        using none [of u] that by (auto simp: q'_def)
      show "ns_budget n \<noteq> ns_budget ns" if u: "u \<in># add_mset (TPrep q') T" "pending_ns u = Some n" for u n
      proof -
        have "\<exists>v \<in># add_mset (TPrep q) T. pending_ns v = Some n" using u by (auto simp: q'_def)
        then obtain v where v: "v \<in># add_mset (TPrep q) T" "pending_ns v = Some n" ..
        from fresh_ns_other [OF token_fresh [OF bspec [OF i(3) v(1)] v(2)] ns] show ?thesis by simp
      qed
    qed (simp_all add: r_def)
    then show ?thesis by (simp add: add_mset_commute)
  qed
  have prep: "token_ok ?k (TPrep q')"
  proof -
    have "token_ok ?k (TPrep q)"
      by (rule token_ok_touch [OF _ i(2) ns]) (use i(3) less cap in \<open>auto simp: ns'_def\<close>)
    then show ?thesis by (simp add: token_ok_def q'_def)
  qed
  have claims: "claim_ok (TRes r) o1 n1" if n1: "bm_get (tables ?k) o1 = Some n1" "ns_budget n1 = ns_budget ns" for o1 n1
  proof -
    have "o1 = o'" using tables_ok_unique [OF i(2) _ ns] n1 by (cases "o1 = o'") auto
    then have "n1 = ns'" using n1(1) by simp
    with \<open>o1 = o'\<close> show ?thesis by (simp add: r_def ns'_def)
  qed
  have res: "token_ok ?k (TRes r)"
    by (rule token_okI [where a = "ns_budget ns" and c = cap, OF _ _ _ claims]) (use ok(2) in \<open>simp_all add: r_def\<close>)
  show ?thesis
  proof (rule touch_inv [where A = "{#TPrep q#}" and cap = cap and ns = ns and k = k and p = p])
    show "token_ok ?k u" if "u \<in># T" "claim u = Some (ns_budget ns, cap)" for u
      using none [of u] that by simp
    show "marks_ok ({#TPrep q', TRes r#} + T)" by (rule marks)
    show "\<forall>u \<in># {#TPrep q', TRes r#}. token_ok ?k u" using prep res by simp
    show "ncharges ns' + token_charges {#TPrep q', TRes r#} = ncharges ns + token_charges {#TPrep q#}"
      using free q by (simp add: ncharges_def ns'_def q'_def charge_of_def bm_values_insert)
    show "cap_inv p k ({#TPrep q#} + T)" using inv by simp
  qed (use ns less cap nsok in \<open>simp_all add: ns'_def\<close>)
qed

lemma token_ok_prep: "token_ok k (TPrep q) \<longleftrightarrow> (\<forall>ns. pr_namespace q = Some ns \<longrightarrow> fresh_ns k ns)"
  by (simp add: token_ok_def)

lemma cap_invI:
  assumes "accounts_ok p k' (outstanding k' T)" "tables_ok k'" "\<And>t. t \<in># T \<Longrightarrow> token_ok k' t" "marks_ok T"
  shows "cap_inv p k' T"
  using assms by (simp add: cap_inv_def)

lemma reshape_inv:
  assumes inv: "cap_inv p k (A + T)" and ch: "token_charges B = token_charges A" and h: "inherits A B"
  shows "cap_inv p k (B + T)"
proof (rule cap_invI)
  note i = cap_inv_parts [OF inv]
  show "accounts_ok p k (outstanding k (B + T))" using i(1) by (simp add: outstanding_def ch)
  show "tables_ok k" by (rule i(2))
  show "marks_ok (B + T)" by (rule inherits_marks [OF h i(4)])
  show "token_ok k t" if "t \<in># B + T" for t
    using inherits_tokens [OF h, of k t] i(3) that by auto
qed

lemma same_tables_inv:
  assumes inv: "cap_inv p k T" and st: "same_tables k k'" and ac: "accounts_ok p k' (outstanding k T)"
  shows "cap_inv p k' T"
  using inv ac same_tables_ok [OF st] by (simp add: cap_inv_def outstanding_def)

lemma charged_inv:
  assumes inv: "cap_inv p k (add_mset (TPrep q) T)" and "charge_reserve a pl k = Some (Inr c, k')" "pr_charge q = None"
  shows "cap_inv p k' (add_mset (TPrep (q\<lparr>pr_charge := Some c\<rparr>)) T)"
proof -
  note i = cap_inv_parts [OF inv]
  have "a < next_account k"
    using assms(2) i(1) by (auto simp: charge_reserve_def accounts_ok_def dom_def split: option.splits)
  then obtain r k1 where r: "charge_reserve a pl k = Some (r, k1)" "same_tables k k1"
    "case r of Inl _ \<Rightarrow> accounts_ok p k1 (outstanding k (add_mset (TPrep q) T))
       | Inr d \<Rightarrow> d = \<lparr>ch_domain = a, ch_platform = pl\<rparr> \<and> accounts_ok p k1 (add_mset d (outstanding k (add_mset (TPrep q) T))) \<and> accepting k a"
    by (rule charge_reserve_ok [OF i(1)])
  then have ac: "accounts_ok p k' (add_mset c (outstanding k (add_mset (TPrep q) T)))" and st: "same_tables k k'"
    using assms(2) by auto
  show ?thesis
  proof (rule cap_invI)
    show "accounts_ok p k' (outstanding k' (add_mset (TPrep (q\<lparr>pr_charge := Some c\<rparr>)) T))"
      using ac by (simp add: outstanding_def same_tables_ok [OF st] assms(3) charge_of_def)
    show "tables_ok k'" using i(2) by (simp add: same_tables_ok [OF st])
    show "token_ok k' t" if "t \<in># add_mset (TPrep (q\<lparr>pr_charge := Some c\<rparr>)) T" for t
      using i(3) that by (auto simp: same_tables_ok [OF st] token_ok_prep)
    show "marks_ok (add_mset (TPrep (q\<lparr>pr_charge := Some c\<rparr>)) T)"
      by (rule marks_ok_mono [OF i(4)]) (simp add: marks_def)
  qed
qed

lemma refused_inv:
  assumes inv: "cap_inv p k T" and "charge_reserve a pl k = Some (Inl e, k')"
  shows "cap_inv p k' T"
proof -
  note i = cap_inv_parts [OF inv]
  have "a < next_account k"
    using assms(2) i(1) by (auto simp: charge_reserve_def accounts_ok_def dom_def split: option.splits)
  then obtain r k1 where r: "charge_reserve a pl k = Some (r, k1)" "same_tables k k1"
    "case r of Inl _ \<Rightarrow> accounts_ok p k1 (outstanding k T)
       | Inr d \<Rightarrow> d = \<lparr>ch_domain = a, ch_platform = pl\<rparr> \<and> accounts_ok p k1 (add_mset d (outstanding k T)) \<and> accepting k a"
    by (rule charge_reserve_ok [OF i(1)])
  then have "accounts_ok p k' (outstanding k T)" "same_tables k k'" using assms(2) by auto
  with same_tables_inv [OF inv] show ?thesis by blast
qed

lemma refunded_inv:
  assumes inv: "cap_inv p k (add_mset t T)" and "charge_drop c k = Some k'"
    and ch: "tcharges t = add_mset c (token_charges B)" and h: "inherits {#t#} B"
  shows "cap_inv p k' (B + T)"
proof -
  note i = cap_inv_parts [OF inv]
  have "accounts_ok p k (add_mset c (outstanding k (B + T)))" using i(1) by (simp add: outstanding_def ch)
  then obtain k1 where "charge_drop c k = Some k1" "same_tables k k1" "accounts_ok p k1 (outstanding k (B + T))"
    by (rule charge_drop_ok)
  with assms(2) have st: "same_tables k k'" and ac: "accounts_ok p k' (outstanding k (B + T))" by auto
  show ?thesis
  proof (rule cap_invI)
    show "accounts_ok p k' (outstanding k' (B + T))" using ac by (simp add: outstanding_def same_tables_ok [OF st])
    show "tables_ok k'" using i(2) by (simp add: same_tables_ok [OF st])
    show "token_ok k' u" if "u \<in># B + T" for u
      using inherits_tokens [OF h, of k u] i(3) that by (auto simp: same_tables_ok [OF st])
    show "marks_ok (B + T)" using inherits_marks [OF h] i(4) by simp
  qed
qed

lemma fence_inv:
  assumes inv: "cap_inv p k T"
  shows "cap_inv p (account_retire a k) T"
proof -
  note i = cap_inv_parts [OF inv]
  have "accounts_ok p (account_retire a k) (outstanding k T)"
    using i(1) by (auto simp: accounts_ok_def account_retire_def insert_absorb domI dest: domI split: option.split)
  with inv show ?thesis
    by (simp add: cap_inv_def account_retire_def outstanding_def tables_ok_def token_ok_def fresh_ns_def table_charges_def split: option.split_asm option.split)
qed

lemma marks_ok_pending:
  assumes "marks_ok (add_mset t T)" "pending_ns t = Some ns" "u \<in># T"
  shows "pending_ns u = Some n \<Longrightarrow> ns_budget n \<noteq> ns_budget ns" "claim u \<noteq> Some (ns_budget ns, c)"
proof -
  have m: "Inl (ns_budget ns) \<in># marks t" by (simp add: marks_def assms(2))
  show "ns_budget n \<noteq> ns_budget ns" if "pending_ns u = Some n"
  proof
    assume "ns_budget n = ns_budget ns"
    with that assms(3) have "Inl (ns_budget ns) \<in># all_marks T" using pending_marks [of "ns_budget ns" T] by blast
    then have a: "0 < count (all_marks T) (Inl (ns_budget ns))" by (simp only: count_greater_zero_iff)
    have "count (all_marks (add_mset t T)) (Inl (ns_budget ns)) \<le> 1" using assms(1) unfolding marks_ok_def by blast
    moreover have "0 < count (marks t) (Inl (ns_budget ns))" using m by (simp only: count_greater_zero_iff)
    ultimately show False using a by simp
  qed
  show "claim u \<noteq> Some (ns_budget ns, c)"
  proof
    assume "claim u = Some (ns_budget ns, c)"
    with assms(3) have "Inr (ns_budget ns, c) \<in># all_marks T" using claim_marks [of "(ns_budget ns, c)" T] by blast
    then have "Inr (ns_budget ns, c) \<in># all_marks (add_mset t T)" by simp
    moreover have "Inl (ns_budget ns) \<in># all_marks (add_mset t T)" using m by simp
    ultimately show False using assms(1) unfolding marks_ok_def by blast
  qed
qed

lemma token_ok_enter:
  assumes tok: "token_ok k u" and free: "bm_get (tables k) o' = None"
    and "\<And>n. pending_ns u = Some n \<Longrightarrow> ns_budget n \<noteq> ns_budget ns" "\<And>c. claim u \<noteq> Some (ns_budget ns, c)"
  shows "token_ok (k\<lparr>tables := bm_insert o' (ns\<lparr>address_space := i\<rparr>) (tables k)\<rparr>) u"
  using assms unfolding token_ok_def fresh_ns_def by (auto split: if_splits)

lemma enter_inv:
  assumes inv: "cap_inv p k (add_mset t T)" and ns: "pending_ns t = Some ns" and free: "bm_get (tables k) o' = None"
    and ch: "token_charges B = tcharges t" and h: "inherits {#} B"
  shows "cap_inv p (k\<lparr>tables := bm_insert o' (ns\<lparr>address_space := i\<rparr>) (tables k)\<rparr>) (B + T)"
proof (rule cap_invI)
  let ?k = "k\<lparr>tables := bm_insert o' (ns\<lparr>address_space := i\<rparr>) (tables k)\<rparr>"
  note i = cap_inv_parts [OF inv]
  have fr: "fresh_ns k ns" using token_fresh [OF _ ns] i(3) by simp
  then have "ncharges ns = {#}" by (simp add: fresh_ns_def)
  then have "outstanding ?k (B + T) = outstanding k (add_mset t T)"
    using table_charges_insert [OF free] ch by (simp add: outstanding_def)
  with i(1) show "accounts_ok p ?k (outstanding ?k (B + T))" by (simp add: accounts_ok_def)
  have new: "namespace_ok (ns\<lparr>address_space := i\<rparr>)" "ns_budget ns < next_account k" using fr by (auto simp: fresh_ns_def namespace_ok_def)
  have "ns_budget n \<noteq> ns_budget ns" "ns_budget ns \<noteq> ns_budget n" if "bm_get (tables k) o1 = Some n" for o1 n
    using fresh_ns_other [OF fr that] by simp_all
  with new i(2) free show "tables_ok ?k" unfolding tables_ok_def by (auto split: if_splits)
  have "all_marks B = {#}" using h unfolding inherits_def by (metis image_mset_empty sum_mset.empty subset_mset.le_zero_eq)
  then have "all_marks (B + T) = all_marks T" by (simp only: image_mset_union sum_mset.union add_0_left)
  then show "marks_ok (B + T)" using marks_ok_mono [OF i(4), of "B + T"] by (simp only:) simp
  show "token_ok ?k u" if "u \<in># B + T" for u
  proof (cases "u \<in># B")
    case True
    then show ?thesis using inherits_tokens [OF h] by simp
  next
    case False
    with that have u: "u \<in># T" by simp
    show ?thesis
      by (rule token_ok_enter [OF _ free]) (use i(3) u marks_ok_pending [OF i(4) ns u] in auto)
  qed
qed

lemma fresh_inv:
  assumes inv: "cap_inv p k T" and new: "account_new p k = (a, k')"
  shows "cap_inv p k' (add_mset (TNs (namespace_new a)) T)"
proof (rule cap_invI)
  note i = cap_inv_parts [OF inv]
  have a: "a = next_account k" and k': "tables k' = tables k" "next_account k' = Suc (next_account k)"
    "accounts k' = bm_insert a \<lparr>ac_used = cb_new (domain_limit p), ac_retired = False\<rparr> (accounts k)" "node k' = node k"
    using new by (auto simp: account_new_def)
  have dom: "dom (bm_get (accounts k)) = {..<next_account k}" "\<forall>c \<in># outstanding k T. ch_domain c < next_account k"
    using i(1) by (auto simp: accounts_ok_def)
  have out: "outstanding k' (add_mset (TNs (namespace_new a)) T) = outstanding k T"
    by (simp add: outstanding_def table_charges_def k')
  have "{#c \<in># outstanding k T. ch_domain c = a#} = {#}" using dom(2) a by (auto simp: filter_mset_eq_conv)
  then have "budget_ok (domain_limit p) (size {#c \<in># outstanding k T. ch_domain c = a#}) (cb_new (domain_limit p))"
    by (simp only: size_empty) (simp add: budget_ok_def cb_new_def)
  with i(1) dom(1) show "accounts_ok p k' (outstanding k' (add_mset (TNs (namespace_new a)) T))"
    unfolding out accounts_ok_def k' by (auto simp: a lessThan_Suc less_Suc_eq)
  show "tables_ok k'" using i(2) unfolding tables_ok_def k' by (auto intro: less_SucI)
  show "token_ok k' t" if "t \<in># add_mset (TNs (namespace_new a)) T" for t
  proof (cases "t = TNs (namespace_new a)")
    case True
    have "ns_budget n \<noteq> a" if "bm_get (tables k) o' = Some n" for o' n using tables_ok_get(2) [OF i(2) that] a by simp
    with True show ?thesis by (auto simp: token_ok_def fresh_ns_def namespace_new_def k' a)
  next
    case False
    with that have "token_ok k t" using i(3) by auto
    then show ?thesis unfolding token_ok_def fresh_ns_def k' by (auto intro: less_SucI)
  qed
  show "marks_ok (add_mset (TNs (namespace_new a)) T)"
  proof (rule marks_ok_add_pending [OF i(4)])
    show "claim u \<noteq> Some (ns_budget (namespace_new a), c)" if "u \<in># T" for u c
      using bspec [OF i(3) that] by (auto simp: token_ok_def namespace_new_def a)
    show "ns_budget n \<noteq> ns_budget (namespace_new a)" if "u \<in># T" "pending_ns u = Some n" for u n
      using bspec [OF i(3) that(1)] that(2) by (auto simp: token_ok_def fresh_ns_def namespace_new_def a)
  qed simp_all
qed

lemma platform_inv:
  assumes inv: "cap_inv p k T"
  shows "cap_inv p (update_table o' (\<lambda>t. t\<lparr>ns_platform := True\<rparr>) k) T"
proof (cases "bm_get (tables k) o'")
  case None
  with inv show ?thesis by (simp add: update_table_def)
next
  case (Some ns)
  note i = cap_inv_parts [OF inv]
  have "cap_inv p (k\<lparr>tables := bm_insert o' (ns\<lparr>ns_platform := True\<rparr>) (tables k)\<rparr>) ({#} + T)"
  proof (rule touch_inv [where A = "{#}" and cap = "next_serial ns" and ns = ns and k = k and p = p])
    show "token_ok (k\<lparr>tables := bm_insert o' (ns\<lparr>ns_platform := True\<rparr>) (tables k)\<rparr>) t"
      if "t \<in># T" "claim t = Some (ns_budget ns, next_serial ns)" for t
      using claim_below_serial [OF bspec [OF i(3) that(1)] i(2) Some that(2)] by simp
    show "namespace_ok (ns\<lparr>ns_platform := True\<rparr>)" using tables_ok_get(1) [OF i(2) Some] by (simp add: namespace_ok_def)
  qed (use inv Some i(4) in simp_all)
  with Some show ?thesis by (simp add: update_table_def)
qed

lemma detached_inv:
  assumes inv: "cap_inv p k T" and ns: "bm_get (tables k) o' = Some ns"
  shows "cap_inv p (k\<lparr>tables := bm_remove o' (tables k)\<rparr>) (add_mset (TRetNs ns) T)"
proof (rule cap_invI)
  let ?k = "k\<lparr>tables := bm_remove o' (tables k)\<rparr>"
  note i = cap_inv_parts [OF inv]
  show "accounts_ok p ?k (outstanding ?k (add_mset (TRetNs ns) T))"
    using i(1) table_charges_remove [OF ns] by (simp add: accounts_ok_def outstanding_def ac_simps)
  show "tables_ok ?k" using i(2) unfolding tables_ok_def by (auto split: if_splits)
  show "token_ok ?k t" if t: "t \<in># add_mset (TRetNs ns) T" for t
  proof (cases "t = TRetNs ns")
    case True
    then show ?thesis by (simp add: inert_token_ok)
  next
    case False
    with t have "token_ok k t" using i(3) by auto
    then show ?thesis unfolding token_ok_def fresh_ns_def by (auto split: if_splits)
  qed
  show "marks_ok (add_mset (TRetNs ns) T)" using i(4) by (simp add: marks_ok_inert)
qed

theorem micro_inv:
  assumes "micro p (k, T) (k', T')" "cap_inv p k T"
  shows "cap_inv p k' T'"
  using assms
proof (cases rule: micro.cases)
  case (published r e ns T)
  with assms(2) show ?thesis
    using spent_token_inv [of p k "TRes r" T "rs_namespace r" "rs_cap r" "rs_owner r" e ns _ "TRes (r\<lparr>rs_active := False\<rparr>)"] by simp
next
  case (discarded r e ns T)
  with assms(2) show ?thesis
    using spent_token_inv [of p k "TRes r" T "rs_namespace r" "rs_cap r" "rs_owner r" e ns _ "TRet e"] by simp
next
  case (restored s e ns T)
  with assms(2) show ?thesis
    using spent_token_inv [of p k "TEsc s" T "se_namespace s" "se_cap s" "se_owner s" e ns _ "TEsc (s\<lparr>se_active := False\<rparr>)"] by simp
next
  case (revoked s e ns T)
  then have "token_ok k (TEsc s)" using assms(2) by (simp add: cap_inv_def)
  with revoked have "se_retired s = None" by (simp add: token_ok_def)
  with revoked assms(2) show ?thesis
    using spent_token_inv [of p k "TEsc s" T "se_namespace s" "se_cap s" "se_owner s" e ns _ "TEsc (s\<lparr>se_retired := Some e, se_active := False\<rparr>)"]
    by (simp add: charge_of_def)
next
  case (admit q c o' ns cap nxt T kind)
  with assms(2) show ?thesis using admit_inv [of p k q T c o' ns cap nxt kind] by simp
qed (auto intro: reshape_inv fresh_inv enter_inv platform_inv fence_inv charged_inv refused_inv escrow_inv retire_inv
    refunded_inv detached_inv)

end
