(* ===== verification/Tokens.thy ===== *)
theory Tokens
  imports Prelude "HOL-Library.Multiset"
begin

text \<open>
  Tokens that a caller owns and an operation consumes. A caller's tokens are a list; an operation
  names the one it takes by its position, so a token that is gone cannot be used again, as
  with a value that was moved.
\<close>

definition draw :: "nat \<Rightarrow> 'a list \<Rightarrow> ('a \<times> 'a list) option" where
  "draw i ts = (if i < length ts then Some (ts ! i, take i ts @ drop (Suc i) ts) else None)"

lemma mset_draw: "draw i ts = Some (t, rest) \<Longrightarrow> mset ts = add_mset t (mset rest)"
  by (auto simp: draw_def id_take_nth_drop split: if_splits)
    (metis id_take_nth_drop mset_append mset.simps(2) union_mset_add_mset_right)

end
