(* ===== verification/Capability_Runs.thy ===== *)
theory Capability_Runs
  imports Capability_Safety Tokens
begin

text \<open>
  Runs of the capability system: any sequence of the operations of \<^verbatim>\<open>capability.rs\<close>, each applied to
  tokens its caller owns. Every operation is a sequence of the small steps of \<open>Capability_Safety\<close>
  and never fails an assertion, so the properties below hold after every run.
\<close>

section \<open>Operations on owned tokens\<close>

text \<open>
  The tokens of a batch are drawn one after the other, since they are distinct mutable borrows;
  only tokens that no earlier batch has settled are offered.
\<close>

definition draw_source :: "(nat \<times> source_disposition) option \<Rightarrow> token list \<Rightarrow>
    ((source_escrow \<times> source_disposition) option \<times> token list) option" where
  "draw_source x ts =
     (case x of
        None \<Rightarrow> Some (None, ts)
      | Some (i, d) \<Rightarrow>
          (case draw i ts of
             Some (TEsc s, rest) \<Rightarrow> if se_active s then Some (Some (s, d), rest) else None
           | _ \<Rightarrow> None))"

primrec draw_batch :: "(nat \<times> (nat \<times> source_disposition) option) list \<Rightarrow> token list \<Rightarrow>
    (publication list \<times> token list) option" where
  "draw_batch [] ts = Some ([], ts)"
| "draw_batch (x # xs) ts =
     (case draw (fst x) ts of
        Some (TRes r, ts1) \<Rightarrow>
          if rs_active r then do {
            (source, ts2) \<leftarrow> draw_source (snd x) ts1;
            (pubs, rest) \<leftarrow> draw_batch xs ts2;
            Some (\<lparr>pb_destination = r, pb_source = source\<rparr> # pubs, rest)
          } else None
      | _ \<Rightarrow> None)"

definition source_tokens :: "(source_escrow \<times> source_disposition) option \<Rightarrow> token list" where
  "source_tokens x = (case x of None \<Rightarrow> [] | Some (s, d) \<Rightarrow> [TEsc s])"

definition publication_tokens :: "publication \<Rightarrow> token list" where
  "publication_tokens pub = TRes (pb_destination pub) # source_tokens (pb_source pub)"

datatype cap_op =
  PrepareNamespace backing
| PublishNamespace nat address_space_handle
| CancelNamespace nat
| MarkPlatform address_space_handle
| PrepareReservation backing asid object_kind "address_space_handle option"
| ReservePrepared bool nat
| FinishPreparation nat
| ReserveCaptured backing asid object_kind "address_space_handle option"
| PublishReservation nat
| DropReservation nat
| EscrowSource asid object_capability object_kind "address_space_handle option"
| RestoreEscrow bool nat
| DropEscrow nat
| FinishRetired nat
| PublishBatch "(nat \<times> (nat \<times> source_disposition) option) list"
| DetachRecord asid object_capability object_kind
| DetachForTeardown asid object_capability object_kind
| RemoveCapability asid object_capability object_kind
| ReleaseRecord nat
| RetireAddressSpace asid
| DetachAddressSpace address_space_handle
| ReleaseNamespace nat
| CloseAddressSpace asid

text \<open>
  One operation. A token that is not there, or not of the type the operation takes, is not a
  call the type checker accepts, and the state stays. A namespace is published for an address
  space that has none, and a preparation is used for one reservation; a token settled by a batch
  is only dropped or finished. Dropping an escrow whose source was revoked keeps the record,
  charge and all, in quarantine. \<open>None\<close> is a failed assertion.
\<close>

abbreviation retired_tokens :: "source_escrow \<Rightarrow> token list" where
  "retired_tokens s \<equiv> (case se_retired s of None \<Rightarrow> [] | Some e \<Rightarrow> [TRet e])"

abbreviation detached_record :: "token list \<Rightarrow> cap_entry option \<times> capabilities \<Rightarrow> capabilities \<times> token list" where
  "detached_record ts x \<equiv> (case x of (None, k') \<Rightarrow> (k', ts) | (Some e, k') \<Rightarrow> (k', TRet e # ts))"

primrec cap_step :: "cap_op \<Rightarrow> cap_policy \<Rightarrow> capabilities \<Rightarrow> token list \<Rightarrow> (capabilities \<times> token list) option" where
  "cap_step (PrepareNamespace bk) p k ts =
     (case prepare_namespace p bk k of (Inl _, k') \<Rightarrow> Some (k', ts) | (Inr ns, k') \<Rightarrow> Some (k', TNs ns # ts))"
| "cap_step (PublishNamespace i handle) p k ts =
     (case draw i ts of
        Some (TNs ns, rest) \<Rightarrow>
          if bm_contains (tables k) (ah_id handle) then Some (k, ts)
          else do { k' \<leftarrow> publish_namespace handle ns k; Some (k', rest) }
      | _ \<Rightarrow> Some (k, ts))"
| "cap_step (CancelNamespace i) p k ts =
     (case draw i ts of Some (TNs ns, rest) \<Rightarrow> Some (k, rest) | _ \<Rightarrow> Some (k, ts))"
| "cap_step (MarkPlatform handle) p k ts = Some (mark_platform handle k, ts)"
| "cap_step (PrepareReservation bk owner kind captured) p k ts =
     (case prepare_reservation p bk owner kind captured k of
        (Inl _, k') \<Rightarrow> Some (k', ts) | (Inr prep, k') \<Rightarrow> Some (k', TPrep prep # ts))"
| "cap_step (ReservePrepared sponsored i) p k ts =
     (case draw i ts of
        Some (TPrep prep, rest) \<Rightarrow>
          if \<not> pr_node prep \<or> pr_charge prep \<noteq> None then Some (k, ts)
          else do {
            (r, prep', k') \<leftarrow> reserve_in_lifecycle (\<lambda>_. sponsored) prep k;
            Some (k', (case r of Inl _ \<Rightarrow> [] | Inr res \<Rightarrow> [TRes res]) @ TPrep prep' # rest)
          }
      | _ \<Rightarrow> Some (k, ts))"
| "cap_step (FinishPreparation i) p k ts =
     (case draw i ts of
        Some (TPrep prep, rest) \<Rightarrow> do { k' \<leftarrow> finish_preparation prep k; Some (k', rest) }
      | _ \<Rightarrow> Some (k, ts))"
| "cap_step (ReserveCaptured bk owner kind captured) p k ts = do {
     (r, k') \<leftarrow> reserve_captured p bk owner kind captured k;
     Some (k', (case r of Inl _ \<Rightarrow> [] | Inr res \<Rightarrow> [TRes res]) @ ts)
   }"
| "cap_step (PublishReservation i) p k ts =
     (case draw i ts of
        Some (TRes r, rest) \<Rightarrow>
          if rs_active r then do { (_, k') \<leftarrow> publish_reservation r k; Some (k', rest) } else Some (k, ts)
      | _ \<Rightarrow> Some (k, ts))"
| "cap_step (DropReservation i) p k ts =
     (case draw i ts of
        Some (TRes r, rest) \<Rightarrow> do { k' \<leftarrow> reservation_drop r k; Some (k', rest) }
      | _ \<Rightarrow> Some (k, ts))"
| "cap_step (EscrowSource owner cap kind captured) p k ts =
     (case escrow_captured owner cap kind captured k of
        (Inl _, k') \<Rightarrow> Some (k', ts) | (Inr s, k') \<Rightarrow> Some (k', TEsc s # ts))"
| "cap_step (RestoreEscrow allow_retired i) p k ts =
     (case draw i ts of
        Some (TEsc s, rest) \<Rightarrow>
          if se_active s then do { (_, k') \<leftarrow> restore_escrow allow_retired s k; Some (k', rest) } else Some (k, ts)
      | _ \<Rightarrow> Some (k, ts))"
| "cap_step (DropEscrow i) p k ts =
     (case draw i ts of
        Some (TEsc s, rest) \<Rightarrow> do { k' \<leftarrow> escrow_drop s k; Some (k', retired_tokens s @ rest) }
      | _ \<Rightarrow> Some (k, ts))"
| "cap_step (FinishRetired i) p k ts =
     (case draw i ts of
        Some (TEsc s, rest) \<Rightarrow> do { (s', k') \<leftarrow> finish_retired s k; Some (k', TEsc s' # rest) }
      | _ \<Rightarrow> Some (k, ts))"
| "cap_step (PublishBatch xs) p k ts =
     (case draw_batch xs ts of
        None \<Rightarrow> Some (k, ts)
      | Some (pubs, rest) \<Rightarrow> do {
          (_, pubs', k') \<leftarrow> publish_batch pubs k;
          Some (k', concat (map publication_tokens pubs') @ rest)
        })"
| "cap_step (DetachRecord owner cap kind) p k ts = Some (detached_record ts (detach owner cap kind k))"
| "cap_step (DetachForTeardown owner cap kind) p k ts = Some (detached_record ts (detach_for_teardown owner cap kind k))"
| "cap_step (RemoveCapability owner cap kind) p k ts = do { (_, k') \<leftarrow> cap_remove owner cap kind k; Some (k', ts) }"
| "cap_step (ReleaseRecord i) p k ts =
     (case draw i ts of
        Some (TRet e, rest) \<Rightarrow> do { k' \<leftarrow> record_release e k; Some (k', rest) }
      | _ \<Rightarrow> Some (k, ts))"
| "cap_step (RetireAddressSpace owner) p k ts = Some (retire_address_space owner k, ts)"
| "cap_step (DetachAddressSpace handle) p k ts =
     (case detach_address_space handle k of (None, k') \<Rightarrow> Some (k', ts) | (Some ns, k') \<Rightarrow> Some (k', TRetNs ns # ts))"
| "cap_step (ReleaseNamespace i) p k ts =
     (case draw i ts of
        Some (TRetNs ns, rest) \<Rightarrow> do { k' \<leftarrow> release_namespace ns k; Some (k', rest) }
      | _ \<Rightarrow> Some (k, ts))"
| "cap_step (CloseAddressSpace owner) p k ts = do { k' \<leftarrow> close_address_space owner k; Some (k', ts) }"

primrec cap_steps :: "cap_op list \<Rightarrow> cap_policy \<Rightarrow> capabilities \<Rightarrow> token list \<Rightarrow> (capabilities \<times> token list) option" where
  "cap_steps [] p k ts = Some (k, ts)"
| "cap_steps (x # xs) p k ts = do { (k', ts') \<leftarrow> cap_step x p k ts; cap_steps xs p k' ts' }"

definition cap_run :: "cap_policy \<Rightarrow> cap_op list \<Rightarrow> (capabilities \<times> token list) option" where
  "cap_run p ops = cap_steps ops p (capabilities_new p) []"

section \<open>Every operation is made of small steps\<close>

definition moves :: "cap_policy \<Rightarrow> capabilities \<Rightarrow> token multiset \<Rightarrow> capabilities \<Rightarrow> token multiset \<Rightarrow> bool" where
  "moves p k T k' T' \<longleftrightarrow> (micro p)\<^sup>*\<^sup>* (k, T) (k', T')"

lemma moves_refl [simp]: "moves p k T k T"
  by (simp add: moves_def)

lemma moves_micro: "micro p (k, T) (k', T') \<Longrightarrow> moves p k T k' T'"
  by (simp add: moves_def)

lemma moves_trans: "moves p k T k1 T1 \<Longrightarrow> moves p k1 T1 k2 T2 \<Longrightarrow> moves p k T k2 T2"
  unfolding moves_def by (rule rtranclp_trans)

lemma moves_inv: "moves p k T k' T' \<Longrightarrow> cap_inv p k T \<Longrightarrow> cap_inv p k' T'"
  unfolding moves_def by (induction "(k', T')" arbitrary: k' T' rule: rtranclp_induct) (auto intro: micro_inv)

lemma inherits_none [simp]: "inherits A {#}"
  by (simp add: inherits_def)

lemma inherits_inert: "(\<And>t. t \<in># B \<Longrightarrow> pending_ns t = None \<and> claim t = None) \<Longrightarrow> inherits A B"
  by (induction B) (auto simp: inherits_def)

lemma moves_reshape: "token_charges B = token_charges A \<Longrightarrow> inherits A B \<Longrightarrow> moves p k (A + T) k (B + T)"
  by (rule moves_micro) (rule micro.reshape)

lemma moves_discard: "tcharges t = {#} \<Longrightarrow> moves p k (add_mset t T) k T"
  using moves_reshape [of "{#}" "{#t#}" p k T] by simp

lemma refund:
  assumes "cap_inv p k (add_mset t T)" "tcharges t = add_mset c (token_charges B)" "inherits {#t#} B"
  shows "\<exists>k'. charge_drop c k = Some k' \<and> moves p k (add_mset t T) k' (B + T)"
proof -
  have "accounts_ok p k (add_mset c (outstanding k (B + T)))"
    using cap_inv_parts(1) [OF assms(1)] by (simp add: outstanding_def assms(2))
  then obtain k' where "charge_drop c k = Some k'" by (rule charge_drop_ok)
  with micro.refunded [OF this assms(2,3)] show ?thesis by (auto intro: moves_micro)
qed

lemma refund_record:
  assumes "cap_inv p k (add_mset (TRet e) T)"
  shows "\<exists>k'. record_release e k = Some k' \<and> moves p k (add_mset (TRet e) T) k' T"
  using refund [OF assms, of "en_charge e" "{#}"] by (simp add: record_release_def)

text \<open>Namespaces and preparations.\<close>

lemma prepare_namespace_moves:
  "prepare_namespace p bk k = (r, k') \<Longrightarrow>
     moves p k T k' (case r of Inl _ \<Rightarrow> T | Inr ns \<Rightarrow> add_mset (TNs ns) T)"
  by (auto simp: prepare_namespace_def dest!: micro.fresh [THEN moves_micro] split: if_splits prod.splits)

lemma publish_namespace_moves:
  assumes "\<not> bm_contains (tables k) (ah_id handle)"
  shows "\<exists>k'. publish_namespace handle ns k = Some k' \<and> moves p k (add_mset (TNs ns) T) k' T"
proof -
  have "bm_get (tables k) (ah_id handle) = None" using assms by (simp add: bm_contains_def)
  from micro.enter [OF _ this, of "TNs ns" ns "{#}" p T "Some handle"] assms show ?thesis
    by (simp add: publish_namespace_def publish_into_def moves_micro)
qed

lemma mark_platform_moves: "moves p k T (mark_platform handle k) T"
  by (auto simp: mark_platform_def intro: moves_micro micro.platform split: option.split)

lemma prepare_reservation_moves:
  assumes "prepare_reservation p bk owner kind captured k = (r, k')"
  shows "moves p k T k' (case r of Inl _ \<Rightarrow> T | Inr q \<Rightarrow> add_mset (TPrep q) T) \<and>
    (\<forall>q. r = Inr q \<longrightarrow> pr_node q \<and> pr_charge q = None)"
proof -
  have plain: "moves p k T k (add_mset (TPrep q) T)" if "pr_namespace q = None" "pr_charge q = None" for q
    using moves_reshape [of "{#TPrep q#}" "{#}" p k T] that inherits_inert [of "{#TPrep q#}"] by (simp add: charge_of_def)
  have with_ns: "moves p k' (add_mset (TNs ns) T) k' (add_mset (TPrep q) T)"
    if "pr_namespace q = Some ns" "pr_charge q = None" for q ns
    using moves_reshape [of "{#TPrep q#}" "{#TNs ns#}" p k' T] that
    by (simp add: charge_of_def inherits_def marks_def)
  obtain s k1 where s: "prepare_namespace p bk k = (s, k1)" by (cases "prepare_namespace p bk k")
  note m = prepare_namespace_moves [OF s, of T]
  consider (rejected) e where "r = Inl e" "k' = k" | (failed) e where "s = Inl e" "r = Inl e" "k' = k1"
    | (plain) q where "r = Inr q" "k' = k" "pr_namespace q = None" "pr_charge q = None" "pr_node q"
    | (created) q ns where "s = Inr ns" "r = Inr q" "k' = k1" "pr_namespace q = Some ns" "pr_charge q = None" "pr_node q"
    using assms s by (cases s) (auto simp: prepare_reservation_def Let_def split: option.splits if_splits)
  then show ?thesis
  proof cases
    case created
    with moves_trans [OF m] with_ns [of q ns] show ?thesis by simp
  qed (use m plain in auto)
qed

lemma finish_preparation_moves:
  assumes "cap_inv p k (add_mset (TPrep q) T)"
  shows "\<exists>k'. finish_preparation q k = Some k' \<and> moves p k (add_mset (TPrep q) T) k' T"
proof (cases "pr_charge q")
  case None
  then show ?thesis by (simp add: finish_preparation_def charge_of_def moves_discard)
next
  case (Some c)
  with refund [OF assms, of c "{#}"] show ?thesis by (simp add: finish_preparation_def charge_of_def)
qed

text \<open>Reservations.\<close>

lemma owner_namespace_moves:
  assumes "cap_inv p k (add_mset (TPrep q) T)"
  shows "\<exists>r q' k'. owner_namespace q k = Some (r, q', k') \<and> moves p k (add_mset (TPrep q) T) k' (add_mset (TPrep q') T) \<and>
    pr_owner q' = pr_owner q \<and> pr_kind q' = pr_kind q \<and> pr_node q' = pr_node q \<and> pr_charge q' = pr_charge q \<and>
    (r = Inr () \<longrightarrow> bm_get (tables k') (pr_owner q) \<noteq> None)"
proof (cases "bm_get (tables k) (pr_owner q) = None \<and> pr_identity q = None \<and> pr_namespace q \<noteq> None")
  case True
  then obtain ns where ns: "pr_namespace q = Some ns" and free: "bm_get (tables k) (pr_owner q) = None" by auto
  let ?q = "q\<lparr>pr_namespace := None\<rparr>"
  have "micro p (k, add_mset (TPrep q) T)
      (k\<lparr>tables := bm_insert (pr_owner q) (ns\<lparr>address_space := None\<rparr>) (tables k)\<rparr>, {#TPrep ?q#} + T)"
    by (rule micro.enter) (use ns free in \<open>simp_all add: inherits_def\<close>)
  with True ns show ?thesis by (simp add: owner_namespace_def publish_into_def bm_contains_def moves_micro)
next
  case False
  then show ?thesis by (auto simp: owner_namespace_def bm_contains_def split: option.split)
qed

lemma record_insert_moves:
  assumes inv: "cap_inv p k (add_mset (TPrep q) T)" and q: "pr_node q" "pr_charge q = None"
    and ns: "bm_get (tables k) (pr_owner q) = Some ns"
  shows "\<exists>r q' k'. record_insert q ns pl Staged k = Some (r, q', k') \<and>
    moves p k (add_mset (TPrep q) T) k'
      (mset (case r of Inl _ \<Rightarrow> [] | Inr cap \<Rightarrow> [TRes \<lparr>rs_owner = pr_owner q, rs_cap = cap, rs_kind = pr_kind q,
          rs_namespace = ns_budget ns, rs_active = True\<rparr>]) + add_mset (TPrep q') T)"
proof -
  note i = cap_inv_parts [OF inv]
  note ok = tables_ok_get [OF i(2) ns]
  obtain c k1 where c: "charge_reserve (ns_budget ns) pl k = Some (c, k1)" "same_tables k k1"
    by (rule charge_reserve_ok [OF i(1) ok(2), of pl]) simp
  show ?thesis
  proof (cases c)
    case (Inl e)
    with c q micro.refused [of "ns_budget ns" pl k e k1 p] show ?thesis by (simp add: record_insert_def moves_micro)
  next
    case (Inr d)
    let ?q = "q\<lparr>pr_charge := Some d\<rparr>"
    have m: "moves p k (add_mset (TPrep q) T) k1 (add_mset (TPrep ?q) T)"
      using micro.charged [of "ns_budget ns" pl k d k1 q p T] c(1) Inr q(2) by (simp add: moves_micro)
    have ns1: "bm_get (tables k1) (pr_owner q) = Some ns" using ns c(2) by (simp add: same_tables_def)
    show ?thesis
    proof (cases "claim_generation (next_serial ns)")
      case None
      with c Inr q m show ?thesis by (simp add: record_insert_def)
    next
      case (Some x)
      obtain cap nxt where x: "x = (cap, nxt)" by (cases x)
      have "cap = next_serial ns" using Some x by (auto simp: claim_generation_def split: if_splits)
      then have free: "\<not> bm_contains (ns_objects ns) cap"
        using ok(1) by (cases "bm_get (ns_objects ns) cap") (auto simp: namespace_ok_def bm_contains_def)
      have "q\<lparr>pr_charge := Some d, pr_node := False, pr_charge := None\<rparr> = q\<lparr>pr_node := False\<rparr>" using q(2) by simp
      then have "micro p (k1, add_mset (TPrep ?q) T)
        (k1\<lparr>tables := bm_insert (pr_owner q) (ns\<lparr>next_serial := nxt,
            ns_objects := bm_insert cap \<lparr>en_kind = pr_kind q, en_state = Staged, en_charge = d\<rparr> (ns_objects ns)\<rparr>) (tables k1)\<rparr>,
         {#TPrep (q\<lparr>pr_node := False\<rparr>), TRes \<lparr>rs_owner = pr_owner q, rs_cap = cap, rs_kind = pr_kind q,
            rs_namespace = ns_budget ns, rs_active = True\<rparr>#} + T)"
        using micro.admit [of ?q d k1 "pr_owner q" ns cap nxt p T "pr_kind q"] ns1 Some x by simp
      from moves_trans [OF m moves_micro [OF this]] c Inr q Some x free show ?thesis
        by (simp add: record_insert_def add_mset_commute)
    qed
  qed
qed

lemma reserve_prepared_moves:
  assumes inv: "cap_inv p k (add_mset (TPrep q) T)" and q: "pr_node q" "pr_charge q = None"
  shows "\<exists>r q' k'. reserve_prepared_captured q k = Some (r, q', k') \<and>
    moves p k (add_mset (TPrep q) T) k' (mset (case r of Inl _ \<Rightarrow> [] | Inr res \<Rightarrow> [TRes res]) + add_mset (TPrep q') T)"
proof (cases "pr_identity q \<noteq> None \<and> \<not> bm_contains (tables k) (pr_owner q)")
  case True
  then show ?thesis by (simp add: reserve_prepared_captured_def)
next
  case False
  obtain r q1 k1 where o: "owner_namespace q k = Some (r, q1, k1)"
    and m: "moves p k (add_mset (TPrep q) T) k1 (add_mset (TPrep q1) T)"
    and q1: "pr_owner q1 = pr_owner q" "pr_kind q1 = pr_kind q" "pr_node q1 = pr_node q" "pr_charge q1 = pr_charge q"
    and t: "r = Inr () \<Longrightarrow> bm_get (tables k1) (pr_owner q) \<noteq> None"
    using owner_namespace_moves [OF inv] by blast
  show ?thesis
  proof (cases r)
    case (Inl e)
    with False o m show ?thesis by (simp add: reserve_prepared_captured_def)
  next
    case (Inr u)
    then obtain ns where ns: "bm_get (tables k1) (pr_owner q) = Some ns" using t by auto
    show ?thesis
    proof (cases "address_space ns = pr_identity q")
      case True
      obtain r2 q2 k2 where x: "record_insert q1 ns (pr_owner q = KERNEL_ASID \<or> ns_platform ns) Staged k1 = Some (r2, q2, k2)"
        and m2: "moves p k1 (add_mset (TPrep q1) T) k2
          (mset (case r2 of Inl _ \<Rightarrow> [] | Inr cap \<Rightarrow> [TRes \<lparr>rs_owner = pr_owner q, rs_cap = cap, rs_kind = pr_kind q,
            rs_namespace = ns_budget ns, rs_active = True\<rparr>]) + add_mset (TPrep q2) T)"
        using record_insert_moves [OF moves_inv [OF m inv], of ns "pr_owner q = KERNEL_ASID \<or> ns_platform ns"] q q1 ns
        by (simp only:) blast
      from moves_trans [OF m m2] False o Inr ns True x show ?thesis
        by (cases r2) (simp_all add: reserve_prepared_captured_def)
    next
      case other: False
      with False o Inr ns m show ?thesis by (simp add: reserve_prepared_captured_def)
    qed
  qed
qed

lemma reserve_in_lifecycle_moves:
  assumes "cap_inv p k (add_mset (TPrep q) T)" "pr_node q" "pr_charge q = None"
  shows "\<exists>r q' k'. reserve_in_lifecycle sponsored q k = Some (r, q', k') \<and>
    moves p k (add_mset (TPrep q) T) k' (mset (case r of Inl _ \<Rightarrow> [] | Inr res \<Rightarrow> [TRes res]) + add_mset (TPrep q') T)"
  using reserve_prepared_moves [OF assms] by (auto simp: reserve_in_lifecycle_def split: option.split)

lemma reserve_captured_moves:
  assumes inv: "cap_inv p k T"
  shows "\<exists>r k'. reserve_captured p bk owner kind captured k = Some (r, k') \<and>
    moves p k T k' (mset (case r of Inl _ \<Rightarrow> [] | Inr res \<Rightarrow> [TRes res]) + T)"
proof -
  obtain r k1 where r: "prepare_reservation p bk owner kind captured k = (r, k1)"
    by (cases "prepare_reservation p bk owner kind captured k")
  note m = prepare_reservation_moves [OF r, of T]
  show ?thesis
  proof (cases r)
    case (Inl e)
    with r m show ?thesis by (simp add: reserve_captured_def)
  next
    case (Inr q)
    with m have q: "moves p k T k1 (add_mset (TPrep q) T)" "pr_node q" "pr_charge q = None" by auto
    obtain r2 q2 k2 where r2: "reserve_prepared_captured q k1 = Some (r2, q2, k2)"
      and m2: "moves p k1 (add_mset (TPrep q) T) k2 (mset (case r2 of Inl _ \<Rightarrow> [] | Inr res \<Rightarrow> [TRes res]) + add_mset (TPrep q2) T)"
      using reserve_prepared_moves [OF moves_inv [OF q(1) inv] q(2,3)] by blast
    let ?T = "mset (case r2 of Inl _ \<Rightarrow> [] | Inr res \<Rightarrow> [TRes res]) + T"
    have m2': "moves p k T k2 (add_mset (TPrep q2) ?T)" using moves_trans [OF q(1) m2] by simp
    obtain k3 where k3: "finish_preparation q2 k2 = Some k3" "moves p k2 (add_mset (TPrep q2) ?T) k3 ?T"
      using finish_preparation_moves [OF moves_inv [OF m2' inv]] by blast
    with moves_trans [OF m2' k3(2)] r r2 Inr show ?thesis by (simp add: reserve_captured_def)
  qed
qed

lemma discard_captured_cases:
  obtains "discard_captured owner cap domain s k = (None, k)"
  | e ns where "discard_captured owner cap domain s k = (Some e, update_table owner (drop_entry cap) k)"
      "speaks_for k owner domain cap e ns" "en_state e = s"
proof -
  obtain x k' where x: "discard_captured owner cap domain s k = (x, k')" by (cases "discard_captured owner cap domain s k")
  then have "x = None \<and> k' = k \<or> (\<exists>e ns. x = Some e \<and> k' = update_table owner (drop_entry cap) k \<and>
      speaks_for k owner domain cap e ns \<and> en_state e = s)"
    by (auto simp: discard_captured_def speaks_for_def split: option.splits if_splits)
  with x that show thesis by auto
qed

lemma reservation_drop_moves:
  assumes inv: "cap_inv p k (add_mset (TRes r) T)"
  shows "\<exists>k'. reservation_drop r k = Some k' \<and> moves p k (add_mset (TRes r) T) k' T"
proof (cases "rs_active r")
  case False
  then show ?thesis by (simp add: reservation_drop_def moves_discard)
next
  case True
  show ?thesis
  proof (rule discard_captured_cases [of "rs_owner r" "rs_cap r" "rs_namespace r" Staged k])
    assume "discard_captured (rs_owner r) (rs_cap r) (rs_namespace r) Staged k = (None, k)"
    with True show ?thesis by (simp add: reservation_drop_def moves_discard)
  next
    fix e ns
    let ?k = "update_table (rs_owner r) (drop_entry (rs_cap r)) k"
    assume d: "discard_captured (rs_owner r) (rs_cap r) (rs_namespace r) Staged k = (Some e, ?k)"
      and sp: "speaks_for k (rs_owner r) (rs_namespace r) (rs_cap r) e ns"
    have m: "moves p k (add_mset (TRes r) T) ?k (add_mset (TRet e) T)"
      by (rule moves_micro) (rule micro.discarded [OF True sp])
    from refund_record [OF moves_inv [OF m inv]] moves_trans [OF m] d True show ?thesis
      by (auto simp: reservation_drop_def)
  qed
qed

lemma publish_reservation_moves:
  assumes inv: "cap_inv p k (add_mset (TRes r) T)" and act: "rs_active r"
  shows "\<exists>res k'. publish_reservation r k = Some (res, k') \<and> moves p k (add_mset (TRes r) T) k' T"
proof -
  let ?r = "r\<lparr>rs_active := False\<rparr>" and ?k = "update_table (rs_owner r) (set_state (rs_cap r) Live) k"
  obtain x y z where x: "reservation_publish r k = (x, y, z)" by (cases "reservation_publish r k")
  then have "(\<exists>e. x = Inl e \<and> y = r \<and> z = k) \<or> (\<exists>e ns. x = Inr (rs_cap r) \<and> y = ?r \<and> z = ?k \<and>
      speaks_for k (rs_owner r) (rs_namespace r) (rs_cap r) e ns)"
    by (auto simp: reservation_publish_def speaks_for_def split: option.splits if_splits)
  then consider (fails) e where "reservation_publish r k = (Inl e, r, k)"
    | (works) e ns where "reservation_publish r k = (Inr (rs_cap r), ?r, ?k)" "speaks_for k (rs_owner r) (rs_namespace r) (rs_cap r) e ns"
    using x by auto
  then show ?thesis
  proof cases
    case fails
    with reservation_drop_moves [OF inv] show ?thesis by (auto simp: publish_reservation_def)
  next
    case works
    have "moves p k (add_mset (TRes r) T) ?k (add_mset (TRes ?r) T)"
      by (rule moves_micro) (rule micro.published [OF act works(2)])
    from moves_trans [OF this moves_discard] works(1) show ?thesis
      by (simp add: publish_reservation_def reservation_drop_def)
  qed
qed

text \<open>Escrow.\<close>

lemma escrow_captured_moves:
  assumes "escrow_captured owner cap kind captured k = (r, k')"
  shows "moves p k T k' (case r of Inl _ \<Rightarrow> T | Inr s \<Rightarrow> add_mset (TEsc s) T)"
proof -
  consider (fails) e where "r = Inl e" "k' = k"
    | (works) ns e where "bm_get (tables k) owner = Some ns" "bm_get (ns_objects ns) cap = Some e" "en_kind e = kind" "en_state e = Live"
       "r = Inr \<lparr>se_retired = None, se_owner = owner, se_cap = cap, se_kind = kind, se_namespace = ns_budget ns, se_active = True\<rparr>"
       "k' = update_table owner (set_state cap Escrow) k"
    using assms by (auto simp: escrow_captured_def Let_def split: option.splits if_splits)
  then show ?thesis
  proof cases
    case works
    then have "speaks_for k owner (ns_budget ns) cap e ns" by (simp add: speaks_for_def)
    from moves_micro [OF micro.escrowed [OF this works(4), of p T]] works show ?thesis by simp
  qed simp
qed

lemma escrow_drop_moves:
  assumes inv: "cap_inv p k (add_mset (TEsc s) T)"
  shows "\<exists>k'. escrow_drop s k = Some k' \<and>
    moves p k (add_mset (TEsc s) T) k' (mset (case se_retired s of None \<Rightarrow> [] | Some e \<Rightarrow> [TRet e]) + T)"
proof (cases "se_active s")
  case False
  then have "moves p k ({#TEsc s#} + T) k (mset (case se_retired s of None \<Rightarrow> [] | Some e \<Rightarrow> [TRet e]) + T)"
    by (intro moves_reshape inherits_inert) (auto simp: charge_of_def split: option.splits)
  with False show ?thesis by (simp add: escrow_drop_def)
next
  case True
  have none: "se_retired s = None" using inv True by (simp add: cap_inv_def token_ok_def)
  show ?thesis
  proof (rule discard_captured_cases [of "se_owner s" "se_cap s" "se_namespace s" Escrow k])
    assume "discard_captured (se_owner s) (se_cap s) (se_namespace s) Escrow k = (None, k)"
    with True none show ?thesis by (simp add: escrow_drop_def charge_of_def moves_discard)
  next
    fix e ns
    let ?k = "update_table (se_owner s) (drop_entry (se_cap s)) k" and ?s = "s\<lparr>se_retired := Some e, se_active := False\<rparr>"
    assume d: "discard_captured (se_owner s) (se_cap s) (se_namespace s) Escrow k = (Some e, ?k)"
      and sp: "speaks_for k (se_owner s) (se_namespace s) (se_cap s) e ns"
    have m: "moves p k (add_mset (TEsc s) T) ?k (add_mset (TEsc ?s) T)"
      by (rule moves_micro) (rule micro.revoked [OF True sp])
    from refund [OF moves_inv [OF m inv], of "en_charge e" "{#}"] moves_trans [OF m] d True none show ?thesis
      by (auto simp: escrow_drop_def record_release_def charge_of_def)
  qed
qed

lemma restore_escrow_moves:
  assumes inv: "cap_inv p k (add_mset (TEsc s) T)" and act: "se_active s"
  shows "\<exists>res k'. restore_escrow allow_retired s k = Some (res, k') \<and> moves p k (add_mset (TEsc s) T) k' T"
proof -
  let ?s = "s\<lparr>se_active := False\<rparr>" and ?k = "update_table (se_owner s) (set_state (se_cap s) Live) k"
  have none: "se_retired s = None" using inv act by (simp add: cap_inv_def token_ok_def)
  obtain x y z where x: "restore_inner allow_retired s k = (x, y, z)" by (cases "restore_inner allow_retired s k")
  then have "(\<exists>e. x = Inl e \<and> y = s \<and> z = k) \<or> (\<exists>e ns. x = Inr (se_cap s) \<and> y = ?s \<and> z = ?k \<and>
      speaks_for k (se_owner s) (se_namespace s) (se_cap s) e ns)"
    by (auto simp: restore_inner_def speaks_for_def split: option.splits if_splits)
  then consider (fails) e where "restore_inner allow_retired s k = (Inl e, s, k)"
    | (works) e ns where "restore_inner allow_retired s k = (Inr (se_cap s), ?s, ?k)" "speaks_for k (se_owner s) (se_namespace s) (se_cap s) e ns"
    using x by auto
  then show ?thesis
  proof cases
    case fails
    with escrow_drop_moves [OF inv] none show ?thesis by (auto simp: restore_escrow_def)
  next
    case works
    have "moves p k (add_mset (TEsc s) T) ?k (add_mset (TEsc ?s) T)"
      by (rule moves_micro) (rule micro.restored [OF act works(2)])
    from moves_trans [OF this moves_discard] works(1) none show ?thesis
      by (simp add: restore_escrow_def escrow_drop_def charge_of_def)
  qed
qed

lemma finish_retired_moves:
  assumes inv: "cap_inv p k (add_mset (TEsc s) T)"
  shows "\<exists>s' k'. finish_retired s k = Some (s', k') \<and> moves p k (add_mset (TEsc s) T) k' (add_mset (TEsc s') T)"
proof (cases "se_retired s")
  case None
  then show ?thesis by (simp add: finish_retired_def)
next
  case (Some e)
  then have "\<not> se_active s" using inv by (auto simp: cap_inv_def token_ok_def)
  then have "inherits {#TEsc s#} {#TEsc (s\<lparr>se_retired := None\<rparr>)#}" by (intro inherits_inert) simp
  from refund [OF inv _ this, of "en_charge e"] Some show ?thesis
    by (auto simp: finish_retired_def record_release_def charge_of_def)
qed

text \<open>Revocation and teardown.\<close>

lemma retire_record_moves:
  assumes "retire_record owner cap kind accepts k = (r, k')" "\<And>s. accepts s \<Longrightarrow> s \<noteq> Staged"
  shows "moves p k T k' (mset (case r of None \<Rightarrow> [] | Some e \<Rightarrow> [TRet e]) + T)"
proof -
  consider (none) "r = None" "k' = k"
    | (some) e ns where "r = Some e" "k' = update_table owner (drop_entry cap) k" "speaks_for k owner (ns_budget ns) cap e ns" "en_state e \<noteq> Staged"
    using assms by (auto simp: retire_record_def entry_of_def speaks_for_def split: option.splits if_splits bind_splits)
  then show ?thesis
  proof cases
    case some
    from moves_micro [OF micro.retired [OF some(3,4)]] some show ?thesis by simp
  qed simp
qed

lemma remove_moves:
  assumes inv: "cap_inv p k T"
  shows "\<exists>b k'. cap_remove owner cap kind k = Some (b, k') \<and> moves p k T k' T"
proof -
  obtain r k1 where r: "retire_record owner cap kind (\<lambda>s. s = Live) k = (r, k1)"
    by (cases "retire_record owner cap kind (\<lambda>s. s = Live) k")
  have m: "moves p k T k1 (mset (case r of None \<Rightarrow> [] | Some e \<Rightarrow> [TRet e]) + T)"
    by (rule retire_record_moves [OF r]) simp
  show ?thesis
  proof (cases r)
    case None
    with r m show ?thesis by (auto simp: cap_remove_def remove_with_state_def)
  next
    case (Some e)
    with m have m': "moves p k T k1 (add_mset (TRet e) T)" by simp
    from refund_record [OF moves_inv [OF m' inv]] moves_trans [OF m'] r Some show ?thesis
      by (auto simp: cap_remove_def remove_with_state_def)
  qed
qed

lemma release_records_moves:
  assumes "cap_inv p k (mset (map TRet es) + T)"
  shows "\<exists>k'. release_records es k = Some k' \<and> moves p k (mset (map TRet es) + T) k' T"
  using assms
proof (induction es arbitrary: k)
  case (Cons e es)
  then have inv: "cap_inv p k (add_mset (TRet e) (mset (map TRet es) + T))" by simp
  obtain k1 where k1: "record_release e k = Some k1" "moves p k (add_mset (TRet e) (mset (map TRet es) + T)) k1 (mset (map TRet es) + T)"
    using refund_record [OF inv] by blast
  from Cons.IH [OF moves_inv [OF k1(2) inv]] k1 moves_trans [OF k1(2)] show ?case by auto
qed simp

lemma release_namespace_moves:
  assumes inv: "cap_inv p k (add_mset (TRetNs ns) T)"
  shows "\<exists>k'. release_namespace ns k = Some k' \<and> moves p k (add_mset (TRetNs ns) T) k' T"
proof -
  let ?es = "bm_values (ns_objects ns)"
  have "moves p k ({#TRetNs ns#} + T) k (mset (map TRet ?es) + T)"
  proof (rule moves_reshape)
    show "token_charges (mset (map TRet ?es)) = token_charges {#TRetNs ns#}"
      by (simp add: ncharges_def image_mset.compositionality comp_def)
    show "inherits {#TRetNs ns#} (mset (map TRet ?es))" by (rule inherits_inert) auto
  qed
  then have m: "moves p k (add_mset (TRetNs ns) T) k (mset (map TRet ?es) + T)" by simp
  from release_records_moves [OF moves_inv [OF m inv]] moves_trans [OF m] show ?thesis
    by (auto simp: release_namespace_records)
qed

lemma retire_address_space_moves: "moves p k T (retire_address_space owner k) T"
  by (auto simp: retire_address_space_def intro: moves_micro micro.fence split: option.split)

lemma take_namespace_moves:
  assumes "take_namespace owner k = (r, k')"
  shows "moves p k T k' (mset (case r of None \<Rightarrow> [] | Some ns \<Rightarrow> [TRetNs ns]) + T)"
proof -
  have r: "r = bm_get (tables k) owner" and k': "k' = k\<lparr>tables := bm_remove owner (tables k)\<rparr>"
    using assms by (simp_all add: take_namespace_def)
  show ?thesis
  proof (cases "bm_get (tables k) owner")
    case None
    then have "bm_remove owner (tables k) = tables k" by (intro bmap_eqI) (simp add: fun_upd_idem)
    with None r k' show ?thesis by simp
  next
    case (Some ns)
    with micro.detached [OF Some, of p T, THEN moves_micro] r k' show ?thesis by simp
  qed
qed

lemma detach_address_space_moves:
  "detach_address_space handle k = (r, k') \<Longrightarrow> moves p k T k' (mset (case r of None \<Rightarrow> [] | Some ns \<Rightarrow> [TRetNs ns]) + T)"
  using take_namespace_moves [of "ah_id handle" k r k' p T]
  by (auto simp: detach_address_space_def split: option.splits if_splits)

lemma close_address_space_moves:
  assumes inv: "cap_inv p k T"
  shows "\<exists>k'. close_address_space owner k = Some k' \<and> moves p k T k' T"
proof -
  obtain r k1 where r: "take_namespace owner (retire_address_space owner k) = (r, k1)"
    by (cases "take_namespace owner (retire_address_space owner k)")
  note m = moves_trans [OF retire_address_space_moves [of p k T owner] take_namespace_moves [OF r]]
  show ?thesis
  proof (cases r)
    case None
    with r m show ?thesis by (simp add: close_address_space_def)
  next
    case (Some ns)
    with m have m': "moves p k T k1 (add_mset (TRetNs ns) T)" by simp
    from release_namespace_moves [OF moves_inv [OF m' inv]] moves_trans [OF m'] r Some show ?thesis
      by (auto simp: close_address_space_def)
  qed
qed

section \<open>Batches\<close>

text \<open>The entries a publication names, and what becomes of them.\<close>

definition source_names :: "(source_escrow \<times> source_disposition) option \<Rightarrow> (asid \<times> account_ref \<times> object_capability) list" where
  "source_names x = (case x of None \<Rightarrow> [] | Some (s, d) \<Rightarrow> [(se_owner s, se_namespace s, se_cap s)])"

definition names :: "publication \<Rightarrow> (asid \<times> account_ref \<times> object_capability) list" where
  "names pub = (let d = pb_destination pub in (rs_owner d, rs_namespace d, rs_cap d) # source_names (pb_source pub))"

abbreviation slot :: "asid \<times> account_ref \<times> object_capability \<Rightarrow> asid \<times> object_capability" where
  "slot x \<equiv> (fst x, snd (snd x))"

definition present :: "capabilities \<Rightarrow> asid \<times> account_ref \<times> object_capability \<Rightarrow> bool" where
  "present k x \<longleftrightarrow> (\<exists>e ns. speaks_for k (fst x) (fst (snd x)) (snd (snd x)) e ns)"

abbreviation made_live :: "cap_entry option \<Rightarrow> cap_entry option" where
  "made_live \<equiv> map_option (\<lambda>e. e\<lparr>en_state := Live\<rparr>)"

definition settled :: "publication \<Rightarrow> asid \<times> object_capability \<Rightarrow> cap_entry option \<Rightarrow> cap_entry option" where
  "settled pub x e =
     (if x = (rs_owner (pb_destination pub), rs_cap (pb_destination pub)) then made_live e
      else case pb_source pub of
             None \<Rightarrow> e
           | Some (s, d) \<Rightarrow>
               if x = (se_owner s, se_cap s) then (case d of Revoke \<Rightarrow> None | Restore \<Rightarrow> made_live e) else e)"

definition pub_active :: "publication \<Rightarrow> bool" where
  "pub_active pub \<longleftrightarrow> rs_active (pb_destination pub) \<and>
     (case pb_source pub of None \<Rightarrow> True | Some (s, d) \<Rightarrow> se_active s \<and> se_retired s = None)"

lemma entry_of_update:
  "entry_of (update_table o' (set_state c s) k) o1 c1 =
     (if (o1, c1) = (o', c) then map_option (\<lambda>e. e\<lparr>en_state := s\<rparr>) (entry_of k o1 c1) else entry_of k o1 c1)"
  "entry_of (update_table o' (drop_entry c) k) o1 c1 = (if (o1, c1) = (o', c) then None else entry_of k o1 c1)"
  by (auto simp: entry_of_def update_table_def split: option.split)

lemma present_update:
  "present k x \<Longrightarrow> present (update_table o' (set_state c s) k) x"
  "present k x \<Longrightarrow> slot x \<noteq> (o', c) \<Longrightarrow> present (update_table o' (drop_entry c) k) x"
  by (cases "snd (snd x) = c"; auto simp: present_def speaks_for_def update_table_def split: option.split)+

lemma present_entry: "present k x \<Longrightarrow> \<exists>e. entry_of k (fst x) (snd (snd x)) = Some e"
  by (auto simp: present_def speaks_for_def entry_of_def)

lemma make_live_present:
  "present k (o', a, c) \<Longrightarrow> make_live o' c k = Some (update_table o' (set_state c Live) k)"
  using present_entry [of k "(o', a, c)"] by (auto simp: make_live_def)

lemma settle_source_moves:
  assumes "se_active s" "se_retired s = None" "present k (se_owner s, se_namespace s, se_cap s)"
  shows "\<exists>s' k'. settle_source s d k = Some (s', k') \<and> moves p k (add_mset (TEsc s) T) k' (add_mset (TEsc s') T) \<and>
    (\<forall>y. slot y \<noteq> (se_owner s, se_cap s) \<longrightarrow> present k y \<longrightarrow> present k' y) \<and>
    (\<forall>x c. entry_of k' x c = (if (x, c) = (se_owner s, se_cap s)
       then (case d of Revoke \<Rightarrow> None | Restore \<Rightarrow> made_live (entry_of k x c)) else entry_of k x c))"
proof -
  obtain e ns where sp: "speaks_for k (se_owner s) (se_namespace s) (se_cap s) e ns" using assms(3) by (auto simp: present_def)
  have e: "entry_of k (se_owner s) (se_cap s) = Some e" using sp by (simp add: speaks_for_def entry_of_def)
  show ?thesis
  proof (cases d)
    case Revoke
    with e assms(2) moves_micro [OF micro.revoked [OF assms(1) sp, of p T]] show ?thesis
      by (simp add: settle_source_def present_update entry_of_update)
  next
    case Restore
    with make_live_present [OF assms(3)] moves_micro [OF micro.restored [OF assms(1) sp, of p T]] show ?thesis
      by (simp add: settle_source_def present_update entry_of_update)
  qed
qed

lemma apply_publication_moves:
  assumes act: "pub_active pub" and here: "\<And>y. y \<in> set (names pub) \<Longrightarrow> present k y" and dist: "distinct (map slot (names pub))"
  shows "\<exists>pub' k'. apply_publication pub k = Some (pub', k') \<and>
    moves p k (mset (publication_tokens pub) + T) k' (mset (publication_tokens pub') + T) \<and>
    (\<forall>y. slot y \<notin> slot ` set (names pub) \<longrightarrow> present k y \<longrightarrow> present k' y) \<and>
    (\<forall>x c. entry_of k' x c = settled pub (x, c) (entry_of k x c))"
proof -
  let ?d = "pb_destination pub"
  let ?k = "update_table (rs_owner ?d) (set_state (rs_cap ?d) Live) k"
  have d: "rs_active ?d" "present k (rs_owner ?d, rs_namespace ?d, rs_cap ?d)"
    using act here by (simp_all add: pub_active_def names_def Let_def)
  then obtain e ns where sp: "speaks_for k (rs_owner ?d) (rs_namespace ?d) (rs_cap ?d) e ns" by (auto simp: present_def)
  note live = make_live_present [OF d(2)]
  have m: "moves p k (add_mset (TRes ?d) U) ?k (add_mset (TRes (?d\<lparr>rs_active := False\<rparr>)) U)" for U
    by (rule moves_micro) (rule micro.published [OF d(1) sp])
  show ?thesis
  proof (cases "pb_source pub")
    case None
    with live m [of T] show ?thesis
      by (simp add: apply_publication_def Let_def publication_tokens_def source_tokens_def present_update entry_of_update settled_def)
  next
    case (Some sd)
    obtain s w where sd: "sd = (s, w)" by (cases sd)
    have s: "se_active s" "se_retired s = None" "present ?k (se_owner s, se_namespace s, se_cap s)"
      using act here Some sd by (simp_all add: pub_active_def names_def source_names_def Let_def present_update)
    obtain s' k' where s': "settle_source s w ?k = Some (s', k')"
      "moves p ?k (add_mset (TEsc s) (add_mset (TRes (?d\<lparr>rs_active := False\<rparr>)) T)) k' (add_mset (TEsc s') (add_mset (TRes (?d\<lparr>rs_active := False\<rparr>)) T))"
      "\<forall>y. slot y \<noteq> (se_owner s, se_cap s) \<longrightarrow> present ?k y \<longrightarrow> present k' y"
      "\<forall>x c. entry_of k' x c = (if (x, c) = (se_owner s, se_cap s)
         then (case w of Revoke \<Rightarrow> None | Restore \<Rightarrow> made_live (entry_of ?k x c)) else entry_of ?k x c)"
      using settle_source_moves [OF s] by blast
    have "slot (rs_owner ?d, rs_namespace ?d, rs_cap ?d) \<noteq> (se_owner s, se_cap s)"
      using dist Some sd by (auto simp: names_def source_names_def Let_def)
    then have "settled pub (x, c) (entry_of k x c) = entry_of k' x c" for x c
      using s'(4) Some sd by (cases w) (auto simp: settled_def entry_of_update)
    moreover have "moves p k (mset (publication_tokens pub) + T) k'
        (mset (publication_tokens \<lparr>pb_destination = ?d\<lparr>rs_active := False\<rparr>, pb_source = Some (s', w)\<rparr>) + T)"
      using moves_trans [OF m [of "add_mset (TEsc s) T"]] s'(2) Some sd
      by (simp add: publication_tokens_def source_tokens_def add_mset_commute)
    ultimately show ?thesis
      using live s'(1,3) Some sd by (simp add: apply_publication_def Let_def names_def source_names_def present_update)
  qed
qed

definition batch_names :: "publication list \<Rightarrow> (asid \<times> account_ref \<times> object_capability) list" where
  "batch_names pubs = concat (map names pubs)"

definition batch_tokens :: "publication list \<Rightarrow> token multiset" where
  "batch_tokens pubs = mset (concat (map publication_tokens pubs))"

lemma settled_other: "x \<notin> slot ` set (names pub) \<Longrightarrow> settled pub x e = e"
  by (auto simp: settled_def names_def source_names_def Let_def split: option.splits)

lemma apply_batch_moves:
  assumes "\<forall>pub \<in> set pubs. pub_active pub" "\<forall>y \<in> set (batch_names pubs). present k y" "distinct (map slot (batch_names pubs))"
  shows "\<exists>pubs' k'. apply_batch pubs k = Some (pubs', k') \<and>
    moves p k (batch_tokens pubs + T) k' (batch_tokens pubs' + T) \<and>
    (\<forall>pub \<in> set pubs. \<forall>y \<in> set (names pub). entry_of k' (fst y) (snd (snd y)) = settled pub (slot y) (entry_of k (fst y) (snd (snd y)))) \<and>
    (\<forall>x c. (x, c) \<notin> slot ` set (batch_names pubs) \<longrightarrow> entry_of k' x c = entry_of k x c)"
  using assms
proof (induction pubs arbitrary: k T)
  case Nil
  then show ?case by simp
next
  case (Cons pub pubs)
  have d: "distinct (map slot (names pub))" "distinct (map slot (batch_names pubs))"
    "slot ` set (names pub) \<inter> slot ` set (batch_names pubs) = {}"
    using Cons.prems(3) by (simp_all add: batch_names_def)
  have "pub_active pub" "\<And>y. y \<in> set (names pub) \<Longrightarrow> present k y" using Cons.prems(1,2) by (simp_all add: batch_names_def)
  then obtain pub' k1 where p1: "apply_publication pub k = Some (pub', k1)"
    "moves p k (mset (publication_tokens pub) + (batch_tokens pubs + T)) k1 (mset (publication_tokens pub') + (batch_tokens pubs + T))"
    "\<forall>y. slot y \<notin> slot ` set (names pub) \<longrightarrow> present k y \<longrightarrow> present k1 y"
    "\<forall>x c. entry_of k1 x c = settled pub (x, c) (entry_of k x c)"
    using apply_publication_moves [OF _ _ d(1)] by blast
  have "\<forall>y \<in> set (batch_names pubs). present k1 y"
    using p1(3) d(3) Cons.prems(2) by (fastforce simp: batch_names_def)
  then obtain pubs' k2 where p2: "apply_batch pubs k1 = Some (pubs', k2)"
    "moves p k1 (batch_tokens pubs + (mset (publication_tokens pub') + T)) k2 (batch_tokens pubs' + (mset (publication_tokens pub') + T))"
    "\<forall>q \<in> set pubs. \<forall>y \<in> set (names q). entry_of k2 (fst y) (snd (snd y)) = settled q (slot y) (entry_of k1 (fst y) (snd (snd y)))"
    "\<forall>x c. (x, c) \<notin> slot ` set (batch_names pubs) \<longrightarrow> entry_of k2 x c = entry_of k1 x c"
    using Cons.IH [of k1 "mset (publication_tokens pub') + T"] Cons.prems(1) d(2) by auto
  have "apply_batch (pub # pubs) k = Some (pub' # pubs', k2)" using p1(1) p2(1) by simp
  moreover have "moves p k (batch_tokens (pub # pubs) + T) k2 (batch_tokens (pub' # pubs') + T)"
    using moves_trans [OF p1(2)] p2(2) by (simp add: batch_tokens_def ac_simps)
  moreover have "entry_of k2 (fst y) (snd (snd y)) = settled q (slot y) (entry_of k (fst y) (snd (snd y)))"
    if q: "q \<in> set (pub # pubs)" "y \<in> set (names q)" for q y
  proof (cases "q \<in> set pubs")
    case True
    then have "slot y \<in> slot ` set (batch_names pubs)" using q(2) by (auto simp: batch_names_def)
    then have "slot y \<notin> slot ` set (names pub)" using d(3) by blast
    with True q(2) p2(3) p1(4) show ?thesis by (simp add: settled_other)
  next
    case False
    then have "q = pub" "slot y \<notin> slot ` set (batch_names pubs)" using q d(3) by auto
    with p2(4) p1(4) show ?thesis by simp
  qed
  moreover have "entry_of k2 x c = entry_of k x c" if "(x, c) \<notin> slot ` set (batch_names (pub # pubs))" for x c
  proof -
    have "(x, c) \<notin> slot ` set (names pub)" "(x, c) \<notin> slot ` set (batch_names pubs)" using that by (auto simp: batch_names_def)
    with p2(4) p1(4) show ?thesis by (simp add: settled_other)
  qed
  ultimately show ?case by blast
qed

text \<open>What the first pass establishes for tokens that are held.\<close>

lemma check_entry_present: "check_entry k o' cap kind a s = None \<Longrightarrow>
    present k (o', a, cap) \<and> (\<exists>e. entry_of k o' cap = Some e \<and> en_kind e = kind \<and> en_state e = s)"
  by (auto simp: check_entry_def present_def speaks_for_def entry_of_def split: option.splits if_splits)

lemma check_batch_none: "check_batch k pubs = None \<Longrightarrow> pub \<in> set pubs \<Longrightarrow> check_publication k pub = None"
  by (induction pubs) (auto split: option.splits)

lemma check_batch_present:
  assumes "check_batch k pubs = None" "y \<in> set (batch_names pubs)"
  shows "present k y"
proof -
  obtain pub where pub: "pub \<in> set pubs" "y \<in> set (names pub)" using assms(2) by (auto simp: batch_names_def)
  from check_batch_none [OF assms(1) pub(1)] pub(2) show ?thesis
    by (auto simp: check_publication_def names_def source_names_def Let_def dest: check_entry_present split: option.splits)
qed

lemma present_slot: "present k y \<Longrightarrow> present k z \<Longrightarrow> slot y = slot z \<Longrightarrow> y = z"
  by (cases y; cases z) (auto simp: present_def speaks_for_def)

lemma batch_marks:
  "\<forall>pub \<in> set pubs. pub_active pub \<Longrightarrow> all_marks (batch_tokens pubs) = mset (map (\<lambda>y. Inr (snd y)) (batch_names pubs))"
  by (induction pubs)
    (auto simp: batch_tokens_def batch_names_def publication_tokens_def source_tokens_def names_def source_names_def
       pub_active_def marks_def Let_def split: option.splits)

lemma batch_distinct:
  assumes inv: "cap_inv p k (batch_tokens pubs + T)" and act: "\<forall>pub \<in> set pubs. pub_active pub"
    and here: "\<forall>y \<in> set (batch_names pubs). present k y"
  shows "distinct (map slot (batch_names pubs))"
proof -
  let ?ms = "map (\<lambda>y. Inr (snd y)) (batch_names pubs) :: (account_ref + account_ref \<times> object_capability) list"
  have "all_marks (batch_tokens pubs + T) = mset ?ms + all_marks T" using batch_marks [OF act] by simp
  then have "count (mset ?ms) x + count (all_marks T) x \<le> 1" for x
    using cap_inv_parts(4) [OF inv] unfolding marks_ok_def by (metis count_union)
  then have le: "count (mset ?ms) x \<le> 1" for x by (metis add_leD1)
  have "distinct ?ms"
    unfolding distinct_count_atmost_1
  proof
    fix a
    show "count (mset ?ms) a = (if a \<in> set ?ms then 1 else 0)"
    proof (cases "a \<in> set ?ms")
      case True
      then have "0 < count (mset ?ms) a" by (simp only: count_greater_zero_iff set_mset_mset)
      with le [of a] have "count (mset ?ms) a = 1" by linarith
      with True show ?thesis by (simp only: if_True)
    next
      case False
      then show ?thesis by (simp only: count_mset_0_iff if_False not_False_eq_True)
    qed
  qed
  then have "distinct (batch_names pubs)" by (metis distinct_map)
  moreover have "inj_on slot (set (batch_names pubs))" using here present_slot unfolding inj_on_def by blast
  ultimately show ?thesis by (simp only: distinct_map)
qed

lemma publish_batch_moves:
  assumes inv: "cap_inv p k (batch_tokens pubs + T)" and act: "\<forall>pub \<in> set pubs. pub_active pub"
  shows "\<exists>res pubs' k'. publish_batch pubs k = Some (res, pubs', k') \<and>
    moves p k (batch_tokens pubs + T) k' (batch_tokens pubs' + T) \<and>
    (res \<noteq> Inr () \<longrightarrow> k' = k \<and> pubs' = pubs) \<and>
    (res = Inr () \<longrightarrow> check_batch k pubs = None \<and>
      (\<forall>pub \<in> set pubs. \<forall>y \<in> set (names pub). entry_of k' (fst y) (snd (snd y)) = settled pub (slot y) (entry_of k (fst y) (snd (snd y)))) \<and>
      (\<forall>x c. (x, c) \<notin> slot ` set (batch_names pubs) \<longrightarrow> entry_of k' x c = entry_of k x c))"
proof (cases "check_batch k pubs")
  case (Some e)
  then show ?thesis by (simp add: publish_batch_def)
next
  case None
  have here: "\<forall>y \<in> set (batch_names pubs). present k y" using check_batch_present [OF None] by blast
  obtain pubs' k' where b: "apply_batch pubs k = Some (pubs', k')" "moves p k (batch_tokens pubs + T) k' (batch_tokens pubs' + T)"
    "\<forall>pub \<in> set pubs. \<forall>y \<in> set (names pub). entry_of k' (fst y) (snd (snd y)) = settled pub (slot y) (entry_of k (fst y) (snd (snd y)))"
    "\<forall>x c. (x, c) \<notin> slot ` set (batch_names pubs) \<longrightarrow> entry_of k' x c = entry_of k x c"
    using apply_batch_moves [OF act here batch_distinct [OF inv act here], of p T] by blast
  have "publish_batch pubs k = Some (Inr (), pubs', k')" using None b(1) by (simp add: publish_batch_def)
  with b(2-4) None show ?thesis by blast
qed

lemma draw_source_tokens:
  "draw_source x ts = Some (y, rest) \<Longrightarrow> mset ts = mset (source_tokens y) + mset rest \<and>
     (\<forall>s d. y = Some (s, d) \<longrightarrow> se_active s)"
  by (auto simp: draw_source_def source_tokens_def dest!: mset_draw split: option.splits token.splits if_splits prod.splits)

lemma draw_batch_tokens:
  assumes "draw_batch xs ts = Some (pubs, rest)"
  shows "mset ts = batch_tokens pubs + mset rest \<and>
    (\<forall>pub \<in> set pubs. rs_active (pb_destination pub) \<and> (\<forall>s d. pb_source pub = Some (s, d) \<longrightarrow> se_active s))"
  using assms
proof (induction xs arbitrary: ts pubs rest)
  case Nil
  then show ?case by (simp add: batch_tokens_def)
next
  case (Cons x xs)
  then obtain r ts1 src ts2 pubs' where x: "draw (fst x) ts = Some (TRes r, ts1)" "rs_active r"
    "draw_source (snd x) ts1 = Some (src, ts2)" "draw_batch xs ts2 = Some (pubs', rest)"
    "pubs = \<lparr>pb_destination = r, pb_source = src\<rparr> # pubs'"
    by (auto split: option.splits prod.splits token.splits if_splits bind_splits)
  from mset_draw [OF x(1)] draw_source_tokens [OF x(3)] Cons.IH [OF x(4)] x(2,5) show ?case
    by (auto simp: batch_tokens_def publication_tokens_def)
qed

lemma held_active:
  assumes inv: "cap_inv p k (mset ts)" and d: "draw_batch xs ts = Some (pubs, rest)"
  shows "\<forall>pub \<in> set pubs. pub_active pub" "cap_inv p k (batch_tokens pubs + mset rest)"
proof -
  note t = draw_batch_tokens [OF d]
  then show "cap_inv p k (batch_tokens pubs + mset rest)" using inv by simp
  have "se_retired s = None" if s: "pub \<in> set pubs" "pb_source pub = Some (s, w)" for pub s w
  proof -
    have "TEsc s \<in># mset ts" using s t by (force simp: batch_tokens_def publication_tokens_def source_tokens_def)
    then have "token_ok k (TEsc s)" using cap_inv_parts(3) [OF inv] by blast
    moreover have "se_active s" using s t by blast
    ultimately show ?thesis by (simp add: token_ok_def)
  qed
  with t show "\<forall>pub \<in> set pubs. pub_active pub" by (auto simp: pub_active_def split: option.split)
qed

section \<open>No operation fails an assertion\<close>

text \<open>The operations that take a token, on the tokens that are held.\<close>

lemma drawn_moves:
  assumes inv: "cap_inv p k (mset ts)" and d: "draw i ts = Some (t, rest)"
  shows "t = TNs ns \<Longrightarrow> \<not> bm_contains (tables k) (ah_id handle) \<Longrightarrow> \<exists>k'. publish_namespace handle ns k = Some k' \<and> moves p k (mset ts) k' (mset rest)"
    "t = TNs ns \<Longrightarrow> moves p k (mset ts) k (mset rest)"
    "t = TPrep q \<Longrightarrow> pr_node q \<Longrightarrow> pr_charge q = None \<Longrightarrow> \<exists>r q' k'. reserve_in_lifecycle sponsored q k = Some (r, q', k') \<and> moves p k (mset ts) k' (mset (case r of Inl _ \<Rightarrow> [] | Inr res \<Rightarrow> [TRes res]) + add_mset (TPrep q') (mset rest))"
    "t = TPrep q \<Longrightarrow> \<exists>k'. finish_preparation q k = Some k' \<and> moves p k (mset ts) k' (mset rest)"
    "t = TRes r \<Longrightarrow> rs_active r \<Longrightarrow> \<exists>res k'. publish_reservation r k = Some (res, k') \<and> moves p k (mset ts) k' (mset rest)"
    "t = TRes r \<Longrightarrow> \<exists>k'. reservation_drop r k = Some k' \<and> moves p k (mset ts) k' (mset rest)"
    "t = TEsc s \<Longrightarrow> se_active s \<Longrightarrow> \<exists>res k'. restore_escrow allow_retired s k = Some (res, k') \<and> moves p k (mset ts) k' (mset rest)"
    "t = TEsc s \<Longrightarrow> \<exists>k'. escrow_drop s k = Some k' \<and> moves p k (mset ts) k' (mset (case se_retired s of None \<Rightarrow> [] | Some e \<Rightarrow> [TRet e]) + mset rest)"
    "t = TEsc s \<Longrightarrow> \<exists>s' k'. finish_retired s k = Some (s', k') \<and> moves p k (mset ts) k' (add_mset (TEsc s') (mset rest))"
    "t = TRet e \<Longrightarrow> \<exists>k'. record_release e k = Some k' \<and> moves p k (mset ts) k' (mset rest)"
    "t = TRetNs ns \<Longrightarrow> \<exists>k'. release_namespace ns k = Some k' \<and> moves p k (mset ts) k' (mset rest)"
  using inv unfolding mset_draw [OF d]
  by (simp_all only: publish_namespace_moves moves_discard tcharges.simps reserve_in_lifecycle_moves finish_preparation_moves
      publish_reservation_moves reservation_drop_moves restore_escrow_moves escrow_drop_moves finish_retired_moves
      refund_record release_namespace_moves not_False_eq_True)

lemma cap_step_moves:
  assumes inv: "cap_inv p k (mset ts)"
  shows "\<exists>k' ts'. cap_step x p k ts = Some (k', ts') \<and> moves p k (mset ts) k' (mset ts')"
proof (cases x)
  case (PrepareNamespace bk)
  then show ?thesis using prepare_namespace_moves [of p bk k _ _ "mset ts"] by (auto split: prod.split sum.split)
next
  case (MarkPlatform handle)
  then show ?thesis by (simp add: mark_platform_moves)
next
  case (PrepareReservation bk owner kind captured)
  then show ?thesis using prepare_reservation_moves [of p bk owner kind captured k _ _ "mset ts"]
    by (auto split: prod.split sum.split)
next
  case (ReserveCaptured bk owner kind captured)
  then show ?thesis using reserve_captured_moves [OF inv, of bk owner kind captured] by auto
next
  case (EscrowSource owner cap kind captured)
  then show ?thesis using escrow_captured_moves [of owner cap kind captured k _ _ p "mset ts"] by (auto split: prod.split sum.split)
next
  case (PublishBatch xs)
  show ?thesis
  proof (cases "draw_batch xs ts")
    case None
    with PublishBatch show ?thesis by simp
  next
    case (Some pr)
    obtain pubs rest where pr: "pr = (pubs, rest)" by (cases pr)
    note d = Some [unfolded pr]
    obtain res pubs' k' where b: "publish_batch pubs k = Some (res, pubs', k')"
      "moves p k (batch_tokens pubs + mset rest) k' (batch_tokens pubs' + mset rest)"
      using publish_batch_moves [OF held_active(2,1) [OF inv d]] by blast
    with PublishBatch d draw_batch_tokens [OF d] show ?thesis by (simp add: batch_tokens_def)
  qed
next
  case (DetachRecord owner cap kind)
  then show ?thesis using retire_record_moves [of owner cap kind "\<lambda>s. s = Live" k _ _ p "mset ts"]
    by (auto simp: detach_def split: prod.split option.split)
next
  case (DetachForTeardown owner cap kind)
  then show ?thesis using retire_record_moves [of owner cap kind "\<lambda>s. s \<noteq> Staged" k _ _ p "mset ts"]
    by (auto simp: detach_for_teardown_def split: prod.split option.split)
next
  case (RemoveCapability owner cap kind)
  then show ?thesis using remove_moves [OF inv, of owner cap kind] by auto
next
  case (RetireAddressSpace owner)
  then show ?thesis by (simp add: retire_address_space_moves)
next
  case (DetachAddressSpace handle)
  then show ?thesis using detach_address_space_moves [of handle k _ _ p "mset ts"] by (auto split: prod.split option.split)
next
  case (CloseAddressSpace owner)
  then show ?thesis using close_address_space_moves [OF inv, of owner] by auto
next
  case (PublishNamespace i handle)
  then show ?thesis by (auto dest!: drawn_moves(1) [OF inv _ refl, where handle = handle] split: option.split prod.split token.split)
next
  case (CancelNamespace i)
  then show ?thesis by (auto dest!: drawn_moves(2) [OF inv _ refl] split: option.split prod.split token.split)
next
  case (ReservePrepared sponsored i)
  then show ?thesis by (auto dest!: drawn_moves(3) [OF inv _ refl, where sponsored = "\<lambda>_. sponsored"] split: option.split prod.split token.split)
next
  case (FinishPreparation i)
  then show ?thesis by (auto dest!: drawn_moves(4) [OF inv _ refl] split: option.split prod.split token.split)
next
  case (PublishReservation i)
  then show ?thesis by (auto dest!: drawn_moves(5) [OF inv _ refl] split: option.split prod.split token.split)
next
  case (DropReservation i)
  then show ?thesis by (auto dest!: drawn_moves(6) [OF inv _ refl] split: option.split prod.split token.split)
next
  case (RestoreEscrow allow_retired i)
  then show ?thesis by (auto dest!: drawn_moves(7) [OF inv _ refl, where allow_retired = allow_retired] split: option.split prod.split token.split)
next
  case (DropEscrow i)
  then show ?thesis by (auto dest!: drawn_moves(8) [OF inv _ refl] split: option.split prod.split token.split)
next
  case (FinishRetired i)
  then show ?thesis by (auto dest!: drawn_moves(9) [OF inv _ refl] split: option.split prod.split token.split)
next
  case (ReleaseRecord i)
  then show ?thesis by (auto dest!: drawn_moves(10) [OF inv _ refl] split: option.split prod.split token.split)
next
  case (ReleaseNamespace i)
  then show ?thesis by (auto dest!: drawn_moves(11) [OF inv _ refl] split: option.split prod.split token.split)
qed

end
