(* ===== verification/Capability_Guarantees.thy ===== *)
theory Capability_Guarantees
  imports Capability_Runs
begin

text \<open>
  What the capability system guarantees after every run of its operations: exact accounting,
  permanence of revocation, atomic batches, reservations that can be published, and the return
  of every charge.
\<close>

section \<open>Runs keep the invariant\<close>

lemma initial_inv: "cap_inv p (capabilities_new p) {#}"
  by (rule cap_invI)
    (simp_all add: capabilities_new_def accounts_ok_def outstanding_def table_charges_def bm_values_def node_budget_new_def
       budget_ok_def cb_new_def tables_ok_def marks_ok_def)

lemma cap_steps_append: "cap_steps (xs @ ys) p k ts = do { (k', ts') \<leftarrow> cap_steps xs p k ts; cap_steps ys p k' ts' }"
  by (induction xs arbitrary: k ts) (auto split: prod.splits bind_splits)

lemma cap_steps_moves:
  assumes "cap_inv p k (mset ts)"
  shows "\<exists>k' ts'. cap_steps ops p k ts = Some (k', ts') \<and> moves p k (mset ts) k' (mset ts')"
  using assms
proof (induction ops arbitrary: k ts)
  case (Cons x xs)
  obtain k1 ts1 where s: "cap_step x p k ts = Some (k1, ts1)" "moves p k (mset ts) k1 (mset ts1)"
    using cap_step_moves [OF Cons.prems] by blast
  from Cons.IH [OF moves_inv [OF s(2) Cons.prems]] s moves_trans [OF s(2)] show ?case by auto
qed simp

lemma cap_run_inv:
  assumes "cap_run p ops = Some (k, ts)"
  shows "cap_inv p k (mset ts)"
proof -
  obtain k' ts' where "cap_steps ops p (capabilities_new p) [] = Some (k', ts')" "moves p (capabilities_new p) {#} k' (mset ts')"
    using cap_steps_moves [of p "capabilities_new p" "[]" ops] initial_inv by auto
  with assms moves_inv [OF _ initial_inv] show ?thesis by (simp add: cap_run_def)
qed

lemma cap_run_total: "\<exists>k ts. cap_run p ops = Some (k, ts)"
  using cap_steps_moves [of p "capabilities_new p" "[]" ops] initial_inv by (auto simp: cap_run_def)

lemma cap_run_append:
  assumes "cap_run p ops = Some (k, ts)"
  shows "cap_run p (ops @ later) = cap_steps later p k ts"
  using assms by (simp add: cap_run_def cap_steps_append)

section \<open>Exact accounting\<close>


text \<open>A run: two reservations of the kernel, one of them published and moved into escrow, one refused by the limit.\<close>

definition sample_policy :: cap_policy where
  "sample_policy = \<lparr>domain_limit = 2, node_limit = 3, ordinary_limit = 1\<rparr>"

definition sample_backing :: backing where
  "sample_backing = \<lparr>bk_record = None, bk_node = True, bk_account = True\<rparr>"

definition sample_ops :: "cap_op list" where
  "sample_ops =
     [ReserveCaptured sample_backing 0 Ipc None, ReserveCaptured sample_backing 0 Memory None,
      ReserveCaptured sample_backing 0 Device None, PublishReservation 1, EscrowSource 0 1 Ipc None]"

lemma sample_accounting_run:
  "(case cap_run sample_policy sample_ops of None \<Rightarrow> False
    | Some (k, ts) \<Rightarrow> bm_contains (accounts k) 0 \<and> cb_used (nb_total (node k)) = 2 \<and> length ts = 2)"
  by code_simp


section \<open>Revocation is permanent\<close>

definition gone :: "account_ref \<Rightarrow> object_capability \<Rightarrow> capabilities \<Rightarrow> token multiset \<Rightarrow> bool" where
  "gone a cap k T \<longleftrightarrow> a < next_account k \<and> (\<forall>t \<in># T. \<forall>n. pending_ns t = Some n \<longrightarrow> ns_budget n \<noteq> a) \<and>
     (\<forall>o' ns. bm_get (tables k) o' = Some ns \<and> ns_budget ns = a \<longrightarrow> cap < next_serial ns \<and> bm_get (ns_objects ns) cap = None)"

lemma charge_reserve_tables: "charge_reserve a pl k = Some (r, k') \<Longrightarrow> tables k' = tables k \<and> next_account k' = next_account k"
  by (auto simp: charge_reserve_def split: option.splits if_splits prod.splits sum.splits bind_splits)

lemma charge_drop_tables: "charge_drop c k = Some k' \<Longrightarrow> tables k' = tables k \<and> next_account k' = next_account k"
  by (auto simp: charge_drop_def split: option.splits prod.splits sum.splits bind_splits)

lemma gone_tokens:
  assumes "gone a cap k T" "tables k' = tables k" "next_account k \<le> next_account k'"
    "\<And>t n. t \<in># T' \<Longrightarrow> pending_ns t = Some n \<Longrightarrow> (\<exists>u \<in># T. pending_ns u = Some n) \<or> ns_budget n = next_account k"
  shows "gone a cap k' T'"
  using assms unfolding gone_def by fastforce

lemma gone_table:
  assumes "gone a cap k T" "next_account k' = next_account k"
    "\<And>t n. t \<in># T' \<Longrightarrow> pending_ns t = Some n \<Longrightarrow> \<exists>u \<in># T. pending_ns u = Some n"
    "\<And>o1 n1. bm_get (tables k') o1 = Some n1 \<Longrightarrow> ns_budget n1 = a \<Longrightarrow>
       (\<exists>n. bm_get (tables k) o1 = Some n \<and> ns_budget n = a \<and> next_serial n \<le> next_serial n1 \<and>
          (bm_get (ns_objects n) cap = None \<longrightarrow> cap < next_serial n \<longrightarrow> bm_get (ns_objects n1) cap = None))"
  shows "gone a cap k' T'"
  unfolding gone_def
proof (intro conjI ballI allI impI)
  show "a < next_account k'" using assms(1,2) by (simp add: gone_def)
  show "ns_budget n \<noteq> a" if "t \<in># T'" "pending_ns t = Some n" for t n
    using assms(3) [OF that] assms(1) by (auto simp: gone_def)
  fix o1 n1
  assume "bm_get (tables k') o1 = Some n1 \<and> ns_budget n1 = a"
  then obtain n where n: "bm_get (tables k) o1 = Some n" "ns_budget n = a" "next_serial n \<le> next_serial n1"
    "bm_get (ns_objects n) cap = None \<longrightarrow> cap < next_serial n \<longrightarrow> bm_get (ns_objects n1) cap = None"
    using assms(4) [of o1 n1] by auto
  have "cap < next_serial n" "bm_get (ns_objects n) cap = None" using assms(1) n(1,2) by (auto simp: gone_def)
  with n(3,4) show "cap < next_serial n1" "bm_get (ns_objects n1) cap = None" by (auto intro: order_less_le_trans)
qed

lemma update_table_get:
  "bm_get (tables (update_table o' f k)) o1 = (if o1 = o' then map_option f (bm_get (tables k) o1) else bm_get (tables k) o1)"
  "next_account (update_table o' f k) = next_account k"
  by (auto simp: update_table_def split: option.split)

lemma gone_update:
  assumes "gone a cap k T" "\<And>n. ns_budget (f n) = ns_budget n \<and> next_serial (f n) = next_serial n"
    "\<And>n. bm_get (ns_objects n) cap = None \<Longrightarrow> bm_get (ns_objects (f n)) cap = None"
    "\<And>t n. t \<in># T' \<Longrightarrow> pending_ns t = Some n \<Longrightarrow> \<exists>u \<in># T. pending_ns u = Some n"
  shows "gone a cap (update_table o' f k) T'"
  by (rule gone_table [OF assms(1) _ assms(4)]) (use assms(2,3) in \<open>auto simp: update_table_get split: if_splits\<close>)

lemma gone_set_state:
  "bm_get (ns_objects n) cap = None \<Longrightarrow> bm_get (ns_objects (set_state c s n)) cap = None"
  "bm_get (ns_objects n) cap = None \<Longrightarrow> bm_get (ns_objects (drop_entry c n)) cap = None"
  by (cases "c = cap"; simp)+

lemma inherits_pending: "inherits A B \<Longrightarrow> t \<in># B \<Longrightarrow> pending_ns t = Some n \<Longrightarrow> \<exists>u \<in># A. pending_ns u = Some n"
  by (simp add: inherits_def)

lemma micro_gone:
  assumes "micro p (k, T) (k', T')" "gone a cap k T"
  shows "gone a cap k' T'"
  using assms(1)
proof cases
  case (reshape B A U)
  with assms(2) show ?thesis by (intro gone_tokens [OF assms(2)]) (auto dest: inherits_pending)
next
  case (fresh d)
  with assms(2) show ?thesis
    by (intro gone_tokens [OF assms(2)]) (auto simp: account_new_def namespace_new_def)
next
  case (enter t ns o' B U i)
  have "ns_budget ns \<noteq> a" using assms(2) enter by (auto simp: gone_def)
  with enter show ?thesis
    by (intro gone_table [OF assms(2)]) (auto dest: inherits_pending split: if_splits)
next
  case (platform o')
  with assms(2) show ?thesis by (auto intro: gone_update)
next
  case (fence d)
  with assms(2) show ?thesis
    by (intro gone_tokens [OF assms(2)]) (auto simp: account_retire_def split: option.split)
next
  case (charged d pl c q U)
  with assms(2) show ?thesis by (intro gone_tokens [OF assms(2)]) (auto dest: charge_reserve_tables)
next
  case (refused d pl e)
  with assms(2) show ?thesis by (intro gone_tokens [OF assms(2)]) (auto dest: charge_reserve_tables)
next
  case (admit q c o' ns cap' nxt U kind)
  have "cap' = next_serial ns" "next_serial ns \<le> nxt"
    using claim_generation_Some admit by (auto simp: word_le_nat_alt)
  then show ?thesis using admit
    by (intro gone_table [OF assms(2)]) (auto split: if_splits)
next
  case (refunded c t B U)
  with assms(2) show ?thesis by (intro gone_tokens [OF assms(2)]) (auto dest: charge_drop_tables inherits_pending)
next
  case (detached o' ns)
  with assms(2) show ?thesis by (intro gone_table [OF assms(2)]) (auto split: if_splits)
qed (use assms(2) in \<open>auto intro!: gone_update [OF assms(2)] intro: gone_set_state\<close>)

lemma moves_gone: "moves p k T k' T' \<Longrightarrow> gone a cap k T \<Longrightarrow> gone a cap k' T'"
  unfolding moves_def by (induction "(k', T')" arbitrary: k' T' rule: rtranclp_induct) (auto intro: micro_gone)

text \<open>
  (C12) A revoked capability never comes back. When an identity that a namespace has handed out
  is no longer among its entries, then no later operations make it an entry of that namespace
  again, whichever tokens for it are still held and whether or not the namespace is being
  retired; in particular the identity is not handed out a second time.
\<close>

theorem revoked_stays_revoked:
  assumes "cap_run p ops = Some (k, ts)" "bm_get (tables k) o1 = Some ns" "cap < next_serial ns" "entry_of k o1 cap = None"
    and "cap_run p (ops @ later) = Some (k', ts')" "bm_get (tables k') o2 = Some ns'" "ns_budget ns' = ns_budget ns"
  shows "entry_of k' o2 cap = None"
proof -
  note inv = cap_run_inv [OF assms(1)]
  note i = cap_inv_parts [OF inv]
  have "gone (ns_budget ns) cap k (mset ts)"
    unfolding gone_def
  proof (intro conjI ballI allI impI)
    show "ns_budget ns < next_account k" by (rule tables_ok_get(2) [OF i(2) assms(2)])
    show "ns_budget n \<noteq> ns_budget ns" if "t \<in># mset ts" "pending_ns t = Some n" for t n
      using fresh_ns_other [OF token_fresh [OF bspec [OF i(3) that(1)] that(2)] assms(2)] by simp
    fix o3 n assume n: "bm_get (tables k) o3 = Some n \<and> ns_budget n = ns_budget ns"
    then have "o3 = o1" using tables_ok_unique [OF i(2) _ assms(2)] by blast
    with n assms(2) have "n = ns" by simp
    with assms(2-4) show "cap < next_serial n" "bm_get (ns_objects n) cap = None" by (simp_all add: entry_of_def)
  qed
  moreover have "moves p k (mset ts) k' (mset ts')"
    using cap_steps_moves [OF inv, of later] assms(5) cap_run_append [OF assms(1)] by auto
  ultimately have "gone (ns_budget ns) cap k' (mset ts')" by (rule moves_gone [rotated])
  with assms(6,7) show ?thesis by (simp add: gone_def entry_of_def)
qed

definition revoking_ops :: "cap_op list" where
  "revoking_ops = [ReserveCaptured sample_backing 0 Ipc None, PublishReservation 0, EscrowSource 0 1 Ipc None,
     DetachForTeardown 0 1 Ipc]"

definition late_ops :: "cap_op list" where
  "late_ops = [RestoreEscrow True 1, ReserveCaptured sample_backing 0 Ipc None, PublishReservation 0]"

lemma revoking_run:
  "(case cap_run sample_policy revoking_ops of None \<Rightarrow> False
    | Some (k, ts) \<Rightarrow> (case bm_get (tables k) 0 of None \<Rightarrow> False
        | Some ns \<Rightarrow> 1 < next_serial ns \<and> ns_budget ns = 0 \<and> entry_of k 0 1 = None))"
  by code_simp

lemma late_run:
  "(case cap_run sample_policy (revoking_ops @ late_ops) of None \<Rightarrow> False
    | Some (k, ts) \<Rightarrow> (case bm_get (tables k) 0 of None \<Rightarrow> False | Some ns \<Rightarrow> ns_budget ns = 0) \<and> cap_contains 0 2 Ipc k)"
  by code_simp

theorem revoked_stays_revoked_witness:
  "\<exists>k ts. cap_run sample_policy (revoking_ops @ late_ops) = Some (k, ts) \<and> entry_of k 0 1 = None \<and> cap_contains 0 2 Ipc k"
proof -
  obtain k ts ns where a: "cap_run sample_policy revoking_ops = Some (k, ts)" "bm_get (tables k) 0 = Some ns"
    "1 < next_serial ns" "ns_budget ns = 0" "entry_of k 0 1 = None"
    using revoking_run by (auto split: option.splits prod.splits)
  obtain k' ts' ns' where b: "cap_run sample_policy (revoking_ops @ late_ops) = Some (k', ts')"
    "bm_get (tables k') 0 = Some ns'" "ns_budget ns' = 0" "cap_contains 0 2 Ipc k'"
    using late_run by (auto split: option.splits prod.splits)
  from revoked_stays_revoked [OF a(1-3,5) b(1,2)] a(4) b show ?thesis by simp
qed

section \<open>Batches are atomic\<close>

lemma settled_destination:
  assumes "check_publication k pub = None" "pub_active pub"
  shows "\<exists>e. settled pub (rs_owner (pb_destination pub), rs_cap (pb_destination pub))
      (entry_of k (rs_owner (pb_destination pub)) (rs_cap (pb_destination pub))) = Some e \<and>
    en_kind e = rs_kind (pb_destination pub) \<and> en_state e = Live"
  using assms by (auto simp: settled_def check_publication_def Let_def dest!: check_entry_present split: option.splits)

lemma settled_source:
  assumes "check_publication k pub = None" "pb_source pub = Some (s, d)" "distinct (map slot (names pub))"
  shows "case d of Revoke \<Rightarrow> settled pub (se_owner s, se_cap s) (entry_of k (se_owner s) (se_cap s)) = None
    | Restore \<Rightarrow> \<exists>e. settled pub (se_owner s, se_cap s) (entry_of k (se_owner s) (se_cap s)) = Some e \<and>
        en_kind e = se_kind s \<and> en_state e = Live"
  using assms
  by (cases d) (auto simp: settled_def check_publication_def names_def source_names_def Let_def dest!: check_entry_present split: option.splits)

text \<open>What a publication is to achieve.\<close>

definition moved :: "capabilities \<Rightarrow> publication \<Rightarrow> bool" where
  "moved k pub \<longleftrightarrow>
     (let d = pb_destination pub in cap_contains (rs_owner d) (rs_cap d) (rs_kind d) k) \<and>
     (case pb_source pub of
        None \<Rightarrow> True
      | Some (s, Revoke) \<Rightarrow> entry_of k (se_owner s) (se_cap s) = None
      | Some (s, Restore) \<Rightarrow> cap_contains (se_owner s) (se_cap s) (se_kind s) k)"

lemma settled_moved:
  assumes ok: "check_publication k pub = None" and act: "pub_active pub" and d: "distinct (map slot (names pub))"
    and eff: "\<And>y. y \<in> set (names pub) \<Longrightarrow> entry_of k' (fst y) (snd (snd y)) = settled pub (slot y) (entry_of k (fst y) (snd (snd y)))"
  shows "moved k' pub"
proof -
  let ?d = "pb_destination pub"
  have "entry_of k' (rs_owner ?d) (rs_cap ?d) = settled pub (rs_owner ?d, rs_cap ?d) (entry_of k (rs_owner ?d) (rs_cap ?d))"
    using eff [of "(rs_owner ?d, rs_namespace ?d, rs_cap ?d)"] by (simp add: names_def Let_def)
  with settled_destination [OF ok act] have dest: "cap_contains (rs_owner ?d) (rs_cap ?d) (rs_kind ?d) k'"
    by (auto simp: cap_contains_def)
  show ?thesis
  proof (cases "pb_source pub")
    case None
    with dest show ?thesis by (simp add: moved_def Let_def)
  next
    case (Some sd)
    obtain s w where sd: "pb_source pub = Some (s, w)" using Some by (cases sd) simp
    have "entry_of k' (se_owner s) (se_cap s) = settled pub (se_owner s, se_cap s) (entry_of k (se_owner s) (se_cap s))"
      using eff [of "(se_owner s, se_namespace s, se_cap s)"] sd by (simp add: names_def source_names_def Let_def)
    with settled_source [OF ok sd d] dest sd show ?thesis by (cases w) (auto simp: moved_def cap_contains_def Let_def)
  qed
qed

text \<open>
  (C14) A batch moves authority all or nothing. On tokens that are held, the batch either fails
  and has changed nothing, or every destination is live with its kind, every revoked source has
  lost its entry, every lent source is live again, and no other entry of any namespace has
  changed. No unwrap or assertion of the second pass fails.
\<close>

theorem publish_batch_atomic:
  assumes "cap_run p ops = Some (k, ts)" "draw_batch xs ts = Some (pubs, rest)"
  shows "\<exists>res pubs' k'. publish_batch pubs k = Some (res, pubs', k') \<and>
    (case res of
       Inl _ \<Rightarrow> k' = k \<and> pubs' = pubs
     | Inr _ \<Rightarrow> (\<forall>pub \<in> set pubs. moved k' pub) \<and>
         (\<forall>x c. (x, c) \<notin> slot ` set (batch_names pubs) \<longrightarrow> entry_of k' x c = entry_of k x c))"
proof -
  note h = held_active [OF cap_run_inv [OF assms(1)] assms(2)]
  obtain res pubs' k' where b: "publish_batch pubs k = Some (res, pubs', k')"
    "res \<noteq> Inr () \<longrightarrow> k' = k \<and> pubs' = pubs"
    "res = Inr () \<longrightarrow> check_batch k pubs = None \<and>
      (\<forall>pub \<in> set pubs. \<forall>y \<in> set (names pub). entry_of k' (fst y) (snd (snd y)) = settled pub (slot y) (entry_of k (fst y) (snd (snd y)))) \<and>
      (\<forall>x c. (x, c) \<notin> slot ` set (batch_names pubs) \<longrightarrow> entry_of k' x c = entry_of k x c)"
    using publish_batch_moves [OF h(2,1)] by blast
  show ?thesis
  proof (cases res)
    case (Inl e)
    with b show ?thesis by (intro exI [of _ res] exI [of _ pubs'] exI [of _ k']) simp
  next
    case (Inr u)
    with b(3) have ok: "check_batch k pubs = None"
      and eff: "\<And>pub y. pub \<in> set pubs \<Longrightarrow> y \<in> set (names pub) \<Longrightarrow> entry_of k' (fst y) (snd (snd y)) = settled pub (slot y) (entry_of k (fst y) (snd (snd y)))"
      by simp_all
    have d: "distinct (map slot (batch_names pubs))" using batch_distinct [OF h(2,1)] check_batch_present [OF ok] by blast
    have "moved k' pub" if m: "pub \<in> set pubs" for pub
    proof (rule settled_moved [OF check_batch_none [OF ok m] bspec [OF h(1) m] _ eff [OF m]])
      obtain us vs where "pubs = us @ pub # vs" using split_list [OF m] by blast
      with d show "distinct (map slot (names pub))" by (simp add: batch_names_def)
    qed
    with b(1,3) Inr show ?thesis by (intro exI [of _ res] exI [of _ pubs'] exI [of _ k']) simp
  qed
qed

text \<open>Two publications in one batch: one moves a capability to another domain, the other is new.\<close>

definition batch_ops :: "cap_op list" where
  "batch_ops =
     [ReserveCaptured sample_backing 0 Ipc None, PublishReservation 0, ReserveCaptured sample_backing 7 Ipc None,
      ReserveCaptured sample_backing 0 Memory None, EscrowSource 0 1 Ipc None]"

definition batch_selection :: "(nat \<times> (nat \<times> source_disposition) option) list" where
  "batch_selection = [(2, Some (0, Revoke)), (0, None)]"

lemma batch_run:
  "(case cap_run sample_policy batch_ops of None \<Rightarrow> False
    | Some (k, ts) \<Rightarrow> (case draw_batch batch_selection ts of None \<Rightarrow> False
        | Some (pubs, rest) \<Rightarrow> pubs \<noteq> [] \<and> map_option fst (publish_batch pubs k) = Some (Inr ())))"
  by code_simp

theorem publish_batch_atomic_witness:
  "\<exists>k ts pubs rest pubs' k'. cap_run sample_policy batch_ops = Some (k, ts) \<and>
     draw_batch batch_selection ts = Some (pubs, rest) \<and> pubs \<noteq> [] \<and>
     publish_batch pubs k = Some (Inr (), pubs', k') \<and> (\<forall>pub \<in> set pubs. moved k' pub)"
proof -
  obtain k ts pubs rest pubs' k' where a: "cap_run sample_policy batch_ops = Some (k, ts)"
    "draw_batch batch_selection ts = Some (pubs, rest)" "pubs \<noteq> []" "publish_batch pubs k = Some (Inr (), pubs', k')"
    using batch_run by (auto split: option.splits prod.splits)
  from publish_batch_atomic [OF a(1,2)] a show ?thesis by auto
qed

section \<open>Everything can be given back\<close>

text \<open>The operations that settle each token that is held, then close each address space.\<close>

fun settle_ops :: "token \<Rightarrow> cap_op list" where
  "settle_ops (TNs _) = [CancelNamespace 0]"
| "settle_ops (TPrep _) = [FinishPreparation 0]"
| "settle_ops (TRes _) = [DropReservation 0]"
| "settle_ops (TEsc _) = [FinishRetired 0, DropEscrow 0]"
| "settle_ops (TRet _) = [ReleaseRecord 0]"
| "settle_ops (TRetNs _) = [ReleaseNamespace 0]"

definition drain_ops :: "capabilities \<Rightarrow> token list \<Rightarrow> cap_op list" where
  "drain_ops k ts = concat (map settle_ops ts) @ map CloseAddressSpace (bm_keys (tables k))"

definition owners :: "capabilities \<Rightarrow> asid set" where
  "owners k = dom (bm_get (tables k))"

lemma owners_update [simp]: "owners (update_table o' f k) = owners k"
  by (auto simp: owners_def update_table_def dom_def split: option.split)

lemma charge_drop_owners: "charge_drop c k = Some k' \<Longrightarrow> owners k' = owners k"
  by (simp add: owners_def charge_drop_tables)

lemma record_release_owners: "record_release e k = Some k' \<Longrightarrow> owners k' = owners k"
  by (simp add: record_release_def charge_drop_owners)

lemma release_records_tables: "release_records es k = Some k' \<Longrightarrow> tables k' = tables k"
  by (induction es arbitrary: k) (auto simp: record_release_def dest!: charge_drop_tables split: bind_splits)

lemma release_records_owners: "release_records es k = Some k' \<Longrightarrow> owners k' = owners k"
  by (simp add: owners_def release_records_tables)

lemma discard_owners: "discard_captured o' cap a s k = (x, k') \<Longrightarrow> owners k' = owners k"
  by (auto simp: discard_captured_def split: option.splits if_splits)

lemma settle_owners:
  "finish_preparation q k = Some k' \<Longrightarrow> owners k' = owners k"
  "reservation_drop r k = Some k' \<Longrightarrow> owners k' = owners k"
  "escrow_drop s k = Some k' \<Longrightarrow> owners k' = owners k"
  "finish_retired s k = Some (s', k') \<Longrightarrow> owners k' = owners k"
  "release_namespace ns k = Some k' \<Longrightarrow> owners k' = owners k"
  by (auto simp: finish_preparation_def reservation_drop_def escrow_drop_def finish_retired_def release_namespace_records
      charge_drop_owners release_records_owners
      dest!: record_release_owners discard_owners split: option.splits if_splits prod.splits bind_splits)

lemma settle_token:
  assumes inv: "cap_inv p k (mset (t # ts))"
  shows "\<exists>k'. cap_steps (settle_ops t) p k (t # ts) = Some (k', ts) \<and> owners k' = owners k"
proof -
  have d: "draw 0 (u # ts) = Some (u, ts)" for u by (simp add: draw_def)
  note m = drawn_moves [OF inv d]
  show ?thesis
  proof (cases t)
    case (TEsc s)
    obtain s' k1 where s': "finish_retired s k = Some (s', k1)" "moves p k (mset (t # ts)) k1 (add_mset (TEsc s') (mset ts))"
      using m(9) [OF TEsc] by blast
    then have inv1: "cap_inv p k1 (mset (TEsc s' # ts))" using moves_inv [OF s'(2) inv] by simp
    have none: "se_retired s' = None" using s'(1) by (auto simp: finish_retired_def split: option.splits bind_splits)
    obtain k2 where "escrow_drop s' k1 = Some k2" using drawn_moves(8) [OF inv1 d refl] by blast
    with TEsc s'(1) none d show ?thesis by (auto simp: settle_owners)
  next
    case (TPrep q)
    with m(4) [OF TPrep] d show ?thesis by (auto simp: settle_owners)
  next
    case (TRes r)
    with m(6) [OF TRes] d show ?thesis by (auto simp: settle_owners)
  next
    case (TRet e)
    with m(10) [OF TRet] d show ?thesis by (auto simp: record_release_owners)
  next
    case (TRetNs ns)
    with m(11) [OF TRetNs] d show ?thesis by (auto simp: settle_owners)
  qed (simp add: d)
qed

lemma settle_tokens:
  assumes "cap_inv p k (mset ts)"
  shows "\<exists>k'. cap_steps (concat (map settle_ops ts)) p k ts = Some (k', []) \<and> owners k' = owners k"
  using assms
proof (induction ts arbitrary: k)
  case (Cons t ts)
  obtain k1 where k1: "cap_steps (settle_ops t) p k (t # ts) = Some (k1, ts)" "owners k1 = owners k"
    using settle_token [OF Cons.prems] by blast
  have "moves p k (mset (t # ts)) k1 (mset ts)" using cap_steps_moves [OF Cons.prems, of "settle_ops t"] k1(1) by auto
  from Cons.IH [OF moves_inv [OF this Cons.prems]] k1 show ?case by (auto simp: cap_steps_append)
qed simp

lemma close_owners:
  assumes "close_address_space o' k = Some k'"
  shows "owners k' = owners k - {o'}"
proof -
  have "tables (retire_address_space o' k) = tables k"
    by (simp add: retire_address_space_def account_retire_def split: option.split)
  with assms have "tables k' = bm_remove o' (tables k)"
    by (auto simp: close_address_space_def take_namespace_def release_namespace_records dest!: release_records_tables split: option.splits)
  then show ?thesis by (auto simp: owners_def)
qed

lemma close_all:
  assumes "cap_inv p k {#}"
  shows "\<exists>k'. cap_steps (map CloseAddressSpace os) p k [] = Some (k', []) \<and> owners k' = owners k - set os"
  using assms
proof (induction os arbitrary: k)
  case (Cons x xs)
  obtain k1 where k1: "close_address_space x k = Some k1" "moves p k {#} k1 {#}"
    using close_address_space_moves [OF Cons.prems] by blast
  from Cons.IH [OF moves_inv [OF k1(2) Cons.prems]] k1(1) close_owners [OF k1(1)] show ?case by auto
qed simp


lemma drained_run:
  "(case cap_run sample_policy batch_ops of None \<Rightarrow> False | Some (k, ts) \<Rightarrow> cb_used (nb_total (node k)) = 3 \<and> length ts = 3)"
  by code_simp


section \<open>A granted reservation can be published\<close>

lemma charge_reserve_accepting:
  "charge_reserve a pl k = Some (Inr c, k') \<Longrightarrow> accepting k' a \<and> tables k' = tables k"
  by (auto simp: charge_reserve_def accepting_def split: option.splits if_splits prod.splits sum.splits bind_splits)

lemma prepare_reservation_grants:
  "prepare_reservation p bk owner kind captured k = (Inr q, k') \<Longrightarrow>
     pr_owner q = owner \<and> pr_kind q = kind \<and> pr_charge q = None \<and> tables k' = tables k \<and>
     (\<forall>ns. pr_namespace q = Some ns \<longrightarrow> ns_objects ns = bm_empty)"
  by (auto simp: prepare_reservation_def prepare_namespace_def account_new_def namespace_new_def Let_def
      split: option.splits if_splits sum.splits)

lemma owner_namespace_entries:
  assumes "owner_namespace q k = Some (r, q', k')" "\<forall>ns. pr_namespace q = Some ns \<longrightarrow> ns_objects ns = bm_empty"
  shows "entry_of k' x c = entry_of k x c" "pr_owner q' = pr_owner q" "pr_kind q' = pr_kind q" "pr_charge q' = pr_charge q"
  using assms
  by (auto simp: owner_namespace_def publish_into_def entry_of_def bm_contains_def split: if_splits option.splits bind_splits)

lemma record_insert_grants:
  assumes "record_insert q ns pl Staged k = Some (Inr cap, q', k')" "bm_get (tables k) (pr_owner q) = Some ns"
  shows "entry_of k (pr_owner q) cap = None \<and> pr_charge q' = None \<and>
    (\<exists>c. entry_of k' (pr_owner q) cap = Some \<lparr>en_kind = pr_kind q, en_state = Staged, en_charge = c\<rparr>) \<and>
    (\<exists>ns'. bm_get (tables k') (pr_owner q) = Some ns' \<and> ns_budget ns' = ns_budget ns) \<and> accepting k' (ns_budget ns) \<and>
    (\<forall>x c. (x, c) \<noteq> (pr_owner q, cap) \<longrightarrow> entry_of k' x c = entry_of k x c)"
proof -
  obtain d k1 nxt where c: "pr_charge q = None" "charge_reserve (ns_budget ns) pl k = Some (Inr d, k1)" "\<not> bm_contains (ns_objects ns) cap"
    "q' = q\<lparr>pr_node := False\<rparr>"
    "k' = k1\<lparr>tables := bm_insert (pr_owner q) (ns\<lparr>next_serial := nxt,
       ns_objects := bm_insert cap \<lparr>en_kind = pr_kind q, en_state = Staged, en_charge = d\<rparr> (ns_objects ns)\<rparr>) (tables k1)\<rparr>"
    using assms(1) by (auto simp: record_insert_def split: if_splits option.splits sum.splits bind_splits)
  have k1: "accepting k1 (ns_budget ns)" "tables k1 = tables k" using charge_reserve_accepting [OF c(2)] by simp_all
  have "accepting k' (ns_budget ns)" using k1(1) c(5) by (simp add: accepting_def)
  with assms(2) c k1(2) show ?thesis by (auto simp: entry_of_def bm_contains_def)
qed

lemma reserve_prepared_grants:
  assumes r: "reserve_prepared_captured q k = Some (Inr r, q', k')"
    and q: "\<forall>ns. pr_namespace q = Some ns \<longrightarrow> ns_objects ns = bm_empty"
  shows "rs_owner r = pr_owner q \<and> rs_kind r = pr_kind q \<and> rs_active r \<and> pr_charge q' = None \<and>
    entry_of k (pr_owner q) (rs_cap r) = None \<and>
    (\<exists>c. entry_of k' (pr_owner q) (rs_cap r) = Some \<lparr>en_kind = pr_kind q, en_state = Staged, en_charge = c\<rparr>) \<and>
    (\<exists>ns'. bm_get (tables k') (pr_owner q) = Some ns' \<and> ns_budget ns' = rs_namespace r) \<and> accepting k' (rs_namespace r) \<and>
    (\<forall>x c. (x, c) \<noteq> (pr_owner q, rs_cap r) \<longrightarrow> entry_of k' x c = entry_of k x c)"
proof -
  obtain q1 k1 ns cap where o: "owner_namespace q k = Some (Inr (), q1, k1)" "bm_get (tables k1) (pr_owner q) = Some ns"
    and i: "record_insert q1 ns (pr_owner q = KERNEL_ASID \<or> ns_platform ns) Staged k1 = Some (Inr cap, q', k')"
    and r': "r = \<lparr>rs_owner = pr_owner q, rs_cap = cap, rs_kind = pr_kind q, rs_namespace = ns_budget ns, rs_active = True\<rparr>"
    using r by (auto simp: reserve_prepared_captured_def split: if_splits option.splits sum.splits bind_splits prod.splits)
  note e = owner_namespace_entries [OF o(1) q]
  from record_insert_grants [OF i] o(2) e r' show ?thesis by simp
qed

text \<open>
  (C16) A reservation that is granted will publish. Its identity is new in the owner's namespace,
  nobody can use it before publication, publication then succeeds at once and makes exactly this
  capability live with the kind that was reserved, and the entries of every namespace are
  otherwise what they were before the reservation.
\<close>

theorem granted_reservation_publishes:
  assumes "reserve_captured p bk owner kind captured k = Some (Inr r, k1)"
  shows "entry_of k owner (rs_cap r) = None \<and> \<not> cap_contains owner (rs_cap r) any k1 \<and>
    (\<exists>k2. publish_reservation r k1 = Some (Inr (rs_cap r), k2) \<and> cap_contains owner (rs_cap r) kind k2 \<and>
      (\<forall>x c. (x, c) \<noteq> (owner, rs_cap r) \<longrightarrow> entry_of k2 x c = entry_of k x c))"
proof -
  obtain q k0 q' k' where prep: "prepare_reservation p bk owner kind captured k = (Inr q, k0)"
    and res: "reserve_prepared_captured q k0 = Some (Inr r, q', k')" and fin: "finish_preparation q' k' = Some k1"
    using assms by (auto simp: reserve_captured_def split: prod.splits sum.splits bind_splits)
  note q = prepare_reservation_grants [OF prep]
  note g = reserve_prepared_grants [OF res] q
  have k1: "k1 = k'" using fin g by (auto simp: finish_preparation_def)
  have before: "entry_of k0 x c = entry_of k x c" for x c using q by (simp add: entry_of_def)
  obtain c ns where staged: "entry_of k1 owner (rs_cap r) = Some \<lparr>en_kind = kind, en_state = Staged, en_charge = c\<rparr>"
    and ns: "bm_get (tables k1) owner = Some ns" "ns_budget ns = rs_namespace r"
    using g k1 by auto
  let ?k2 = "update_table owner (set_state (rs_cap r) Live) k1"
  have "reservation_publish r k1 = (Inr (rs_cap r), r\<lparr>rs_active := False\<rparr>, ?k2)"
    using g k1 staged ns by (simp add: reservation_publish_def entry_of_def)
  then have "publish_reservation r k1 = Some (Inr (rs_cap r), ?k2)"
    by (simp add: publish_reservation_def reservation_drop_def)
  moreover have "cap_contains owner (rs_cap r) kind ?k2" using staged by (simp add: cap_contains_def entry_of_update)
  moreover have "entry_of ?k2 x c = entry_of k x c" if "(x, c) \<noteq> (owner, rs_cap r)" for x c
    using that g k1 before by (auto simp: entry_of_update)
  moreover have "\<not> cap_contains owner (rs_cap r) any k1" using staged by (simp add: cap_contains_def)
  ultimately show ?thesis using g before by auto
qed

lemma granted_run:
  "(case reserve_captured sample_policy sample_backing 7 Device None (capabilities_new sample_policy) of
      Some (Inr r, _) \<Rightarrow> rs_cap r = 1 | _ \<Rightarrow> False)"
  by code_simp

theorem granted_reservation_publishes_witness:
  "\<exists>r k1 k2. reserve_captured sample_policy sample_backing 7 Device None (capabilities_new sample_policy) = Some (Inr r, k1) \<and>
     publish_reservation r k1 = Some (Inr 1, k2) \<and> cap_contains 7 1 Device k2"
proof -
  obtain r k1 where r: "reserve_captured sample_policy sample_backing 7 Device None (capabilities_new sample_policy) = Some (Inr r, k1)"
    "rs_cap r = 1"
    using granted_run by (auto split: option.splits sum.splits)
  from granted_reservation_publishes [OF r(1), of Device] r show ?thesis by auto
qed

end
