(* ===== verification/Id_Table.thy ===== *)
theory Id_Table
  imports Budgets Tokens "HOL-Library.Monad_Syntax"
begin

text \<open>
  The kernel's tables of numbered slots (\<^verbatim>\<open>catten/src/klib/collections/id_table.rs\<close> and its submodule
  \<^verbatim>\<open>preparation.rs\<close>), which hold the address spaces and threads: slots are reused under a new
  generation, leases keep an occupant in place, and closing a slot goes through tokens that
  only its owner holds. Generations and lease counts are words; positions, lengths and
  capacities of the vectors are natural numbers. A result \<open>None\<close> is an index out of range or a
  failed assertion. What the allocator answers is an argument.
\<close>

section \<open>Data\<close>

datatype id_error =
  IdNotActive | AllocationFailed | CapacityChanged | WrongRetirement | Leased | LeaseLimit | WrongLease | Closing

record slot_state =
  st_generation :: usize
  st_retiring :: bool
  st_leases :: usize
  st_closing :: bool
  cleanup_sealed :: bool

record ('v, 'c) id_table =
  it_list :: "'v option list"
  available_ids :: "nat list"
  it_slots :: "slot_state list"
  it_admission :: "'c option"
  it_identity :: nat
  list_capacity :: nat
  slots_capacity :: nat
  ids_capacity :: nat

text \<open>\<open>SlotLease\<close>, \<open>ClosingSlot\<close> and \<open>SlotRetirement\<close> have the same fields.\<close>

record slot_token =
  tk_table :: nat
  tk_id :: nat
  tk_generation :: usize

record 'v retired_entry =
  re_value :: 'v
  re_slot :: slot_token

section \<open>Lookup\<close>

definition it_new :: "nat \<Rightarrow> ('v, 'c) id_table" where
  "it_new identity =
     \<lparr>it_list = [], available_ids = [], it_slots = [], it_admission = None, it_identity = identity,
      list_capacity = 0, slots_capacity = 0, ids_capacity = 0\<rparr>"

definition it_get :: "('v, 'c) id_table \<Rightarrow> nat \<Rightarrow> id_error + 'v" where
  "it_get t element_id =
     (if element_id < length (it_list t)
      then (case it_list t ! element_id of None \<Rightarrow> Inl IdNotActive | Some v \<Rightarrow> Inr v) else Inl IdNotActive)"

definition it_generation :: "('v, 'c) id_table \<Rightarrow> nat \<Rightarrow> id_error + usize" where
  "it_generation t element_id =
     (case it_get t element_id of
        Inl e \<Rightarrow> Inl e
      | Inr _ \<Rightarrow>
          if element_id < length (it_slots t) then Inr (st_generation (it_slots t ! element_id)) else Inl IdNotActive)"

definition slot_at :: "('v, 'c) id_table \<Rightarrow> nat \<Rightarrow> slot_state option" where
  "slot_at t i = (if i < length (it_slots t) then Some (it_slots t ! i) else None)"

definition set_slot :: "nat \<Rightarrow> slot_state \<Rightarrow> ('v, 'c) id_table \<Rightarrow> ('v, 'c) id_table" where
  "set_slot i st t = t\<lparr>it_slots := (it_slots t)[i := st]\<rparr>"

definition set_value :: "nat \<Rightarrow> 'v option \<Rightarrow> ('v, 'c) id_table \<Rightarrow> ('v, 'c) id_table" where
  "set_value i v t = t\<lparr>it_list := (it_list t)[i := v]\<rparr>"

text \<open>A write through \<open>get_mut\<close>.\<close>

definition it_write :: "nat \<Rightarrow> 'v \<Rightarrow> ('v, 'c) id_table \<Rightarrow> (id_error + unit) \<times> ('v, 'c) id_table" where
  "it_write i v t = (case it_get t i of Inl e \<Rightarrow> (Inl e, t) | Inr _ \<Rightarrow> (Inr (), set_value i (Some v) t))"

section \<open>Removal and leases\<close>

definition take_element :: "nat \<Rightarrow> ('v, 'c) id_table \<Rightarrow> ((id_error + 'v) \<times> ('v, 'c) id_table) option" where
  "take_element i t =
     (case it_get t i of
        Inl e \<Rightarrow> Some (Inl e, t)
      | Inr element \<Rightarrow> do {
          st \<leftarrow> slot_at t i;
          if st_closing st then Some (Inl Closing, t)
          else if st_leases st \<noteq> 0 then Some (Inl Leased, t)
          else if length (available_ids t) = ids_capacity t then Some (Inl AllocationFailed, t)
          else Some (Inr element, (set_value i None t)\<lparr>available_ids := available_ids t @ [i]\<rparr>)
        })"

definition lease :: "nat \<Rightarrow> usize \<Rightarrow> ('v, 'c) id_table \<Rightarrow> ((id_error + slot_token) \<times> ('v, 'c) id_table) option" where
  "lease i generation t =
     (case it_generation t i of
        Inl e \<Rightarrow> Some (Inl e, t)
      | Inr g \<Rightarrow>
          if g \<noteq> generation then Some (Inl WrongLease, t)
          else do {
            st \<leftarrow> slot_at t i;
            if st_closing st then Some (Inl Closing, t)
            else case checked_add (st_leases st) 1 of
                   None \<Rightarrow> Some (Inl LeaseLimit, t)
                 | Some n \<Rightarrow> Some (Inr \<lparr>tk_table = it_identity t, tk_id = i, tk_generation = generation\<rparr>,
                     set_slot i (st\<lparr>st_leases := n\<rparr>) t)
          })"

definition finish_lease :: "slot_token \<Rightarrow> ('v, 'c) id_table \<Rightarrow> (id_error + unit) \<times> ('v, 'c) id_table" where
  "finish_lease l t =
     (if tk_table l \<noteq> it_identity t \<or> it_generation t (tk_id l) \<noteq> Inr (tk_generation l) then (Inl WrongLease, t)
      else case slot_at t (tk_id l) of
             None \<Rightarrow> (Inl WrongLease, t)
           | Some st \<Rightarrow>
               if st_retiring st \<or> st_leases st = 0 then (Inl WrongLease, t)
               else (Inr (), set_slot (tk_id l) (st\<lparr>st_leases := st_leases st - 1\<rparr>) t))"

section \<open>Closing\<close>

definition validate_closing :: "('v, 'c) id_table \<Rightarrow> slot_token \<Rightarrow> (id_error + unit) option" where
  "validate_closing t s =
     (if tk_table s \<noteq> it_identity t \<or> it_generation t (tk_id s) \<noteq> Inr (tk_generation s) then Some (Inl WrongRetirement)
      else do {
        st \<leftarrow> slot_at t (tk_id s);
        Some (if \<not> st_closing st \<or> st_retiring st then Inl WrongRetirement else Inr ())
      })"

definition lease_for_close ::
    "slot_token \<Rightarrow> nat \<Rightarrow> usize \<Rightarrow> ('v, 'c) id_table \<Rightarrow> ((id_error + slot_token) \<times> ('v, 'c) id_table) option" where
  "lease_for_close owner peer generation t = do {
     r \<leftarrow> validate_closing t owner;
     case r of
       Inl e \<Rightarrow> Some (Inl e, t)
     | Inr _ \<Rightarrow> do {
         os \<leftarrow> slot_at t (tk_id owner);
         if cleanup_sealed os then Some (Inl Closing, t)
         else case it_generation t peer of
                Inl e \<Rightarrow> Some (Inl e, t)
              | Inr g \<Rightarrow>
                  if g \<noteq> generation then Some (Inl WrongLease, t)
                  else do {
                    st \<leftarrow> slot_at t peer;
                    if cleanup_sealed st then Some (Inl Closing, t)
                    else case checked_add (st_leases st) 1 of
                           None \<Rightarrow> Some (Inl LeaseLimit, t)
                         | Some n \<Rightarrow> Some (Inr \<lparr>tk_table = it_identity t, tk_id = peer, tk_generation = generation\<rparr>,
                             set_slot peer (st\<lparr>st_leases := n\<rparr>) t)
                  }
       }
   }"

definition seal_close :: "slot_token \<Rightarrow> ('v, 'c) id_table \<Rightarrow> ((id_error + unit) \<times> ('v, 'c) id_table) option" where
  "seal_close s t = do {
     r \<leftarrow> validate_closing t s;
     case r of
       Inl e \<Rightarrow> Some (Inl e, t)
     | Inr _ \<Rightarrow> do {
         st \<leftarrow> slot_at t (tk_id s);
         if st_leases st \<noteq> 0 then Some (Inl Leased, t)
         else Some (Inr (), set_slot (tk_id s) (st\<lparr>cleanup_sealed := True\<rparr>) t)
       }
   }"

definition is_closing :: "('v, 'c) id_table \<Rightarrow> nat \<Rightarrow> (id_error + bool) option" where
  "is_closing t i =
     (case it_get t i of Inl e \<Rightarrow> Some (Inl e) | Inr _ \<Rightarrow> do { st \<leftarrow> slot_at t i; Some (Inr (st_closing st)) })"

definition begin_close :: "nat \<Rightarrow> usize \<Rightarrow> ('v, 'c) id_table \<Rightarrow> ((id_error + slot_token) \<times> ('v, 'c) id_table) option" where
  "begin_close i generation t =
     (case it_generation t i of
        Inl e \<Rightarrow> Some (Inl e, t)
      | Inr g \<Rightarrow>
          if g \<noteq> generation then Some (Inl WrongRetirement, t)
          else do {
            st \<leftarrow> slot_at t i;
            if st_closing st then Some (Inl Closing, t)
            else if ids_capacity t < length (it_list t) then Some (Inl AllocationFailed, t)
            else Some (Inr \<lparr>tk_table = it_identity t, tk_id = i, tk_generation = generation\<rparr>,
                   set_slot i (st\<lparr>st_closing := True\<rparr>) t)
          })"

definition prepare_closing_retirement :: "('v, 'c) id_table \<Rightarrow> slot_token \<Rightarrow> (id_error + unit) option" where
  "prepare_closing_retirement t s = do {
     r \<leftarrow> validate_closing t s;
     case r of
       Inl e \<Rightarrow> Some (Inl e)
     | Inr _ \<Rightarrow> do {
         st \<leftarrow> slot_at t (tk_id s);
         Some (if st_leases st \<noteq> 0 then Inl Leased
               else if ids_capacity t < length (it_list t) then Inl AllocationFailed else Inr ())
       }
   }"

definition closing_lease_count :: "('v, 'c) id_table \<Rightarrow> slot_token \<Rightarrow> (id_error + usize) option" where
  "closing_lease_count t s = do {
     r \<leftarrow> validate_closing t s;
     case r of
       Inl e \<Rightarrow> Some (Inl e)
     | Inr _ \<Rightarrow> do { st \<leftarrow> slot_at t (tk_id s); Some (Inr (st_leases st)) }
   }"

definition retire_closing ::
    "slot_token \<Rightarrow> ('v, 'c) id_table \<Rightarrow> ((id_error + 'v retired_entry) \<times> ('v, 'c) id_table) option" where
  "retire_closing s t = do {
     r \<leftarrow> validate_closing t s;
     case r of
       Inl e \<Rightarrow> Some (Inl e, t)
     | Inr _ \<Rightarrow> do {
         st \<leftarrow> slot_at t (tk_id s);
         if \<not> cleanup_sealed st then Some (Inl Closing, t)
         else if st_leases st \<noteq> 0 then Some (Inl Leased, t)
         else if ids_capacity t < length (it_list t) then Some (Inl AllocationFailed, t)
         else case it_get t (tk_id s) of
                Inl _ \<Rightarrow> Some (Inl IdNotActive, t)
              | Inr value \<Rightarrow>
                  Some (Inr \<lparr>re_value = value, re_slot = s\<rparr>,
                    set_slot (tk_id s) (st\<lparr>st_retiring := True\<rparr>) (set_value (tk_id s) None t))
       }
   }"

definition prepare_retirement :: "('v, 'c) id_table \<Rightarrow> nat \<Rightarrow> (id_error + unit) option" where
  "prepare_retirement t i =
     (case it_get t i of
        Inl e \<Rightarrow> Some (Inl e)
      | Inr _ \<Rightarrow> do {
          st \<leftarrow> slot_at t i;
          Some (if st_closing st then Inl Closing
                else if st_leases st \<noteq> 0 then Inl Leased
                else if ids_capacity t < length (it_list t) then Inl AllocationFailed else Inr ())
        })"

text \<open>\<open>RetiredEntry::release_value_with\<close>: the value is disposed of, the slot token remains.\<close>

definition release_value :: "'v retired_entry \<Rightarrow> slot_token" where
  "release_value e = re_slot e"

definition finish_retirement :: "slot_token \<Rightarrow> ('v, 'c) id_table \<Rightarrow> (id_error + unit) \<times> ('v, 'c) id_table" where
  "finish_retirement s t =
     (case slot_at t (tk_id s) of
        None \<Rightarrow> (Inl WrongRetirement, t)
      | Some st \<Rightarrow>
          if tk_table s \<noteq> it_identity t \<or> \<not> st_retiring st \<or> st_generation st \<noteq> tk_generation s \<or> st_leases st \<noteq> 0
          then (Inl WrongRetirement, t)
          else if length (available_ids t) = ids_capacity t then (Inl AllocationFailed, t)
          else (Inr (), (set_slot (tk_id s) (st\<lparr>st_retiring := False, st_closing := False, cleanup_sealed := False\<rparr>) t)
                 \<lparr>available_ids := available_ids t @ [tk_id s]\<rparr>))"

section \<open>Insertion\<close>

text \<open>
  Growth is prepared outside the table and installed under its guard. The size and alignment
  of a slot's value and of \<open>SlotState\<close> are arguments; a \<open>usize\<close> has eight bytes.
\<close>

type_synonym layout = "nat \<times> nat"

record growth_request =
  gq_table :: nat
  gq_capacity :: nat

record ('v, 'c) prepared_growth =
  pg_storage :: "('v, 'c) id_table"
  pg_installed :: bool

definition layout_array :: "layout \<Rightarrow> nat \<Rightarrow> nat option" where
  "layout_array l n = (if fst l * n \<le> 2 ^ 63 - snd l then Some (fst l * n) else None)"

definition usize_add :: "nat \<Rightarrow> nat \<Rightarrow> nat option" where
  "usize_add a b = (if a + b < 2 ^ 64 then Some (a + b) else None)"

definition amount :: "layout \<Rightarrow> layout \<Rightarrow> growth_request \<Rightarrow> id_error + (u64 \<times> u64)" where
  "amount element state r =
     (case do {
        a \<leftarrow> layout_array element (gq_capacity r);
        b \<leftarrow> layout_array state (gq_capacity r);
        bytes \<leftarrow> usize_add a b;
        c \<leftarrow> layout_array (8, 8) (gq_capacity r);
        usize_add bytes c
      } of
        None \<Rightarrow> Inl AllocationFailed
      | Some bytes \<Rightarrow> Inr (of_nat bytes, of_nat (gq_capacity r)))"

definition has_insertion_capacity :: "('v, 'c) id_table \<Rightarrow> bool" where
  "has_insertion_capacity t \<longleftrightarrow>
     length (it_list t) < list_capacity t \<and> length (it_slots t) < slots_capacity t \<and> length (it_list t) < ids_capacity t"

definition growth_request_of :: "layout \<Rightarrow> layout \<Rightarrow> ('v, 'c) id_table \<Rightarrow> id_error + growth_request option" where
  "growth_request_of element state t =
     (if available_ids t \<noteq> [] \<or> has_insertion_capacity t then Inr None
      else case do {
             len \<leftarrow> usize_add (length (it_list t)) 1;
             let p = next_pow2_from 1 (max len 4) in if p < 2 ^ 64 then Some p else None
           } of
             None \<Rightarrow> Inl AllocationFailed
           | Some capacity \<Rightarrow>
               let request = \<lparr>gq_table = it_identity t, gq_capacity = capacity\<rparr> in
               (case amount element state request of Inl e \<Rightarrow> Inl e | Inr _ \<Rightarrow> Inr (Some request)))"

text \<open>The capacities that \<open>try_reserve_exact\<close> leaves in the three vectors, or \<open>None\<close> where it fails.\<close>

definition prepare_growth ::
    "'c \<Rightarrow> nat option \<times> nat option \<times> nat option \<Rightarrow> growth_request \<Rightarrow> id_error + ('v, 'c) prepared_growth" where
  "prepare_growth charge got r =
     (case got of
        (Some l, Some s, Some a) \<Rightarrow>
          if l \<noteq> gq_capacity r \<or> s \<noteq> gq_capacity r \<or> a \<noteq> gq_capacity r then Inl AllocationFailed
          else Inr \<lparr>pg_storage = \<lparr>it_list = [], available_ids = [], it_slots = [], it_admission = Some charge,
                      it_identity = gq_table r, list_capacity = l, slots_capacity = s, ids_capacity = a\<rparr>,
                    pg_installed = False\<rparr>
      | _ \<Rightarrow> Inl AllocationFailed)"

definition finish_growth :: "('v, 'c) prepared_growth \<Rightarrow> unit option" where
  "finish_growth g =
     (let s = pg_storage g in if it_list s = [] \<and> it_slots s = [] \<and> available_ids s = [] then Some () else None)"

text \<open>The contents of the table move behind those of the candidate (which has none); then the buffers change places.\<close>

definition install_growth ::
    "('v, 'c) prepared_growth \<Rightarrow> ('v, 'c) id_table \<Rightarrow> (id_error + unit) \<times> ('v, 'c) prepared_growth \<times> ('v, 'c) id_table" where
  "install_growth g t =
     (let s = pg_storage g in
      if pg_installed g \<or> it_identity s \<noteq> it_identity t then (Inl AllocationFailed, g, t)
      else if list_capacity s \<le> length (it_list t) \<or> slots_capacity s \<le> length (it_slots t) \<or> ids_capacity s \<le> length (it_list t)
      then (Inl CapacityChanged, g, t)
      else (Inr (),
        \<lparr>pg_storage = s\<lparr>it_list := [], it_slots := [], available_ids := [], it_admission := it_admission t,
           list_capacity := list_capacity t, slots_capacity := slots_capacity t, ids_capacity := ids_capacity t\<rparr>,
         pg_installed = True\<rparr>,
        t\<lparr>it_list := it_list s @ it_list t, it_slots := it_slots s @ it_slots t,
          available_ids := available_ids s @ available_ids t, it_admission := it_admission s,
          list_capacity := list_capacity s, slots_capacity := slots_capacity s, ids_capacity := ids_capacity s\<rparr>))"

text \<open>The insertion itself, into a free slot or behind the last one.\<close>

definition insert_element :: "'v \<Rightarrow> ('v, 'c) id_table \<Rightarrow> (nat \<times> ('v, 'c) id_table) option" where
  "insert_element element t =
     (if available_ids t \<noteq> [] then
        let i = last (available_ids t); t1 = t\<lparr>available_ids := butlast (available_ids t)\<rparr> in do {
          st \<leftarrow> slot_at t1 i;
          if st_retiring st \<or> st_closing st \<or> st_leases st \<noteq> 0 \<or> length (it_list t1) \<le> i then None
          else Some (i, set_value i (Some element) (set_slot i (st\<lparr>st_generation := st_generation st + 1\<rparr>) t1))
        }
      else
        Some (length (it_list t),
          t\<lparr>it_list := it_list t @ [Some element],
            it_slots := it_slots t @
              [\<lparr>st_generation = 1, st_retiring = False, st_leases = 0, st_closing = False, cleanup_sealed = False\<rparr>]\<rparr>))"

definition try_insert_from ::
    "'v \<Rightarrow> ('v, 'c) prepared_growth option \<Rightarrow> ('v, 'c) id_table \<Rightarrow>
     ((id_error + nat) \<times> ('v, 'c) prepared_growth option \<times> ('v, 'c) id_table) option" where
  "try_insert_from element growth t =
     (if available_ids t \<noteq> [] then do {
        st \<leftarrow> slot_at t (last (available_ids t));
        if st_generation st = - 1 then Some (Inl AllocationFailed, growth, t)
        else do { (i, t') \<leftarrow> insert_element element t; Some (Inr i, growth, t') }
      }
      else if \<not> has_insertion_capacity t then
        (case growth of
           None \<Rightarrow> Some (Inl CapacityChanged, None, t)
         | Some g \<Rightarrow>
             (case install_growth g t of
                (Inl e, g', t') \<Rightarrow> Some (Inl e, Some g', t')
              | (Inr _, g', t') \<Rightarrow> do { (i, t'') \<leftarrow> insert_element element t'; Some (Inr i, Some g', t'') }))
      else do { (i, t') \<leftarrow> insert_element element t; Some (Inr i, growth, t') })"

text \<open>
  \<open>Vec::try_reserve\<close>: nothing where there is room, otherwise at least the room asked for. The
  argument is the surplus the allocator grants, or its failure.
\<close>

definition try_reserve :: "nat \<Rightarrow> nat \<Rightarrow> nat \<Rightarrow> nat option \<Rightarrow> nat option" where
  "try_reserve capacity len additional surplus =
     (if len + additional \<le> capacity then Some capacity
      else case surplus of None \<Rightarrow> None | Some x \<Rightarrow> Some (len + additional + x))"

definition try_add_element ::
    "nat option \<times> nat option \<times> nat option \<Rightarrow> 'v \<Rightarrow> ('v, 'c) id_table \<Rightarrow> ((id_error + nat) \<times> ('v, 'c) id_table) option" where
  "try_add_element got element t =
     (let insert = (\<lambda>t. do { (r, _, t') \<leftarrow> try_insert_from element None t; Some (r, t') });
          failed = (\<lambda>t. Some (Inl AllocationFailed, t)) in
      if available_ids t \<noteq> [] then do {
        st \<leftarrow> slot_at t (last (available_ids t));
        if st_generation st = - 1 then failed t else insert t
      }
      else case usize_add (length (it_list t)) 1 of
             None \<Rightarrow> failed t
           | Some slots \<Rightarrow>
               (case try_reserve (list_capacity t) (length (it_list t)) 1 (fst got) of
                  None \<Rightarrow> failed t
                | Some l \<Rightarrow>
                    let t1 = t\<lparr>list_capacity := l\<rparr> in
                    (case try_reserve (slots_capacity t1) (length (it_slots t1)) 1 (fst (snd got)) of
                       None \<Rightarrow> failed t1
                     | Some s \<Rightarrow>
                         let t2 = t1\<lparr>slots_capacity := s\<rparr> in
                         (case try_reserve (ids_capacity t2) (length (available_ids t2)) slots (snd (snd got)) of
                            None \<Rightarrow> failed t2
                          | Some a \<Rightarrow> insert (t2\<lparr>ids_capacity := a\<rparr>)))))"

end
