(* ===== verification/Spec2Isabelle.thy ===== *)
theory Spec2Isabelle
  imports Budgets Lifecycle Irq_Wake Shootdown Policy_Safety Authorization_Wire Raft_Wire Raft_Election Raft_Corner_Cases Capability_Guarantees Id_Table
begin

text \<open>
  A verification development for CharlotteOS, a capability based operating system written
  in Rust. The kernel (\<^verbatim>\<open>crates/catten\<close>) schedules threads and owns memory, interrupts and IPC;
  it takes its small decision procedures from \<^verbatim>\<open>crates/charlotte-lifecycle\<close>.

  Theories. \<open>Prelude\<close> has the machine integers, results and ordered maps the components share.
  \<open>Budgets\<close>, \<open>Lifecycle\<close>, \<open>Irq_Wake\<close> and \<open>Shootdown\<close> model \<^verbatim>\<open>charlotte-lifecycle\<close>.
\<close>

end
